(* ===== verification/Prelude.thy ===== *)
theory Prelude
  imports Main "HOL-Library.Word" "HOL-Library.Signed_Division" "HOL-Library.AList"
begin

text \<open>
  Shared vocabulary of the development: Go's 64 bit integers, Go's
  \<open>map[string]string\<close>, tables of rows as lists, and the lemma collections the component
  theories draw on.

  \<^item> \<open>int64\<close> is a 64 bit word; \<open>sint\<close> reads it as Go does, \<open>in_int64\<close> says that an integer
    fits. Go's division truncates towards zero, \<open>sdiv\<close> and \<open>smod\<close> of Signed\_Division on the
    signed values, written \<open>int64_quot\<close> and \<open>int64_rem\<close>.
  \<^item> \<open>gomap\<close> is an association list with \<open>gget\<close> (a missing key reads as the empty string) and
    \<open>gput\<close>.
  \<^item> \<open>update_where\<close> is the row update of an SQL \<open>UPDATE ... SET ... WHERE\<close>.
\<close>

section \<open>Lemma collections\<close>

named_theorems go_string_simps \<open>evaluation rules for the string functions\<close>
named_theorems frame_simps \<open>what an operation leaves unchanged\<close>
named_theorems inv_intros \<open>an operation keeps an invariant\<close>

section \<open>Machine integers\<close>

type_synonym int64 = "64 word"
type_synonym uint32 = "32 word"

definition max_int64 :: int where
  "max_int64 = 2 ^ 63 - 1"

definition min_int64 :: int where
  "min_int64 = - (2 ^ 63)"

definition in_int64 :: "int \<Rightarrow> bool" where
  "in_int64 i \<longleftrightarrow> min_int64 \<le> i \<and> i \<le> max_int64"

lemmas int64_bounds = in_int64_def max_int64_def min_int64_def

lemma sint_int64_range: "in_int64 (sint (x :: int64))"
  using sint_range_size [of x] by (simp add: int64_bounds word_size)

lemma sint_of_int64: "in_int64 i \<Longrightarrow> sint (word_of_int i :: int64) = i"
  by (simp add: int64_bounds sint_sbintrunc' signed_take_bit_int_eq_self)

lemma int64_eqI: "sint (x :: int64) = sint y \<Longrightarrow> x = y"
  by (rule signed_word_eqI) simp

text \<open>Go's \<open>/\<close> and \<open>%\<close> on \<open>int64\<close>: truncation towards zero, then wrap-around.\<close>

definition int64_quot :: "int64 \<Rightarrow> int64 \<Rightarrow> int64" where
  "int64_quot x y = word_of_int (sint x sdiv sint y)"

definition int64_rem :: "int64 \<Rightarrow> int64 \<Rightarrow> int64" where
  "int64_rem x y = word_of_int (sint x smod sint y)"

section \<open>Go maps from strings to strings\<close>

type_synonym gomap = "(string \<times> string) list"

definition gget :: "gomap \<Rightarrow> string \<Rightarrow> string" where
  "gget m k = (case map_of m k of None \<Rightarrow> [] | Some v \<Rightarrow> v)"

definition gput :: "gomap \<Rightarrow> string \<Rightarrow> string \<Rightarrow> gomap" where
  "gput m k v = AList.update k v m"

text \<open>\<open>for key, value := range m { raw[key] = value }\<close>\<close>

fun gput_all :: "gomap \<Rightarrow> gomap \<Rightarrow> gomap" where
  "gput_all raw [] = raw"
| "gput_all raw ((k, v) # m) = gput_all (gput raw k v) m"

lemma gget_gput [simp]: "gget (gput m k v) k' = (if k = k' then v else gget m k')"
  by (simp add: gget_def gput_def update_conv')

lemma gput_distinct [simp]:
  "distinct (map fst m) \<Longrightarrow> distinct (map fst (gput m k v))"
  by (simp add: gput_def distinct_update)

lemma gput_all_distinct [simp]:
  "distinct (map fst raw) \<Longrightarrow> distinct (map fst (gput_all raw m))"
  by (induction raw m rule: gput_all.induct) auto

lemma gget_gput_all:
  "distinct (map fst m) \<Longrightarrow>
   gget (gput_all raw m) k = (case map_of m k of None \<Rightarrow> gget raw k | Some v \<Rightarrow> v)"
proof (induction raw m rule: gput_all.induct)
  case (1 raw)
  then show ?case by simp
next
  case (2 raw k' v m)
  moreover have "map_of m k' = None" if "k = k'"
    using "2.prems" by (simp add: map_of_eq_None_iff)
  ultimately show ?case by (auto split: option.splits)
qed

section \<open>Tables\<close>

definition update_where :: "('r \<Rightarrow> bool) \<Rightarrow> ('r \<Rightarrow> 'r) \<Rightarrow> 'r list \<Rightarrow> 'r list" where
  "update_where p f rows = map (\<lambda>r. if p r then f r else r) rows"

lemma length_update_where [simp]: "length (update_where p f rows) = length rows"
  by (simp add: update_where_def)

lemma update_where_Nil [simp]: "update_where p f [] = []"
  by (simp add: update_where_def)

lemma update_where_Cons [simp]:
  "update_where p f (r # rows) = (if p r then f r else r) # update_where p f rows"
  by (simp add: update_where_def)

lemma update_where_append [simp]:
  "update_where p f (xs @ ys) = update_where p f xs @ update_where p f ys"
  by (simp add: update_where_def)

lemma set_update_where: "set (update_where p f rows) = (\<lambda>r. if p r then f r else r) ` set rows"
  by (simp add: update_where_def)

lemma map_update_where:
  "(\<And>r. g (f r) = g r) \<Longrightarrow> map g (update_where p f rows) = map g rows"
  by (simp add: update_where_def)

lemma update_where_none: "\<forall>r \<in> set rows. \<not> p r \<Longrightarrow> update_where p f rows = rows"
  by (induction rows) auto

lemma filter_none: "\<forall>r \<in> set rows. \<not> p r \<Longrightarrow> filter p rows = []"
  by (simp add: filter_empty_conv)

lemma distinct_map_unique:
  "distinct (map key rows) \<Longrightarrow> r \<in> set rows \<Longrightarrow> s \<in> set rows \<Longrightarrow> key r = key s \<Longrightarrow> r = s"
  by (simp add: distinct_map inj_on_def)

lemma distinct_map_filter_one:
  "distinct (map key rows) \<Longrightarrow> r \<in> set rows \<Longrightarrow> filter (\<lambda>s. key s = key r) rows = [r]"
proof (induction rows)
  case Nil
  then show ?case by simp
next
  case (Cons a rows)
  show ?case
  proof (cases "a = r")
    case True
    with Cons.prems have "\<forall>s \<in> set rows. key s \<noteq> key r"
      by (auto simp: image_iff)
    with True show ?thesis by (simp add: filter_none)
  next
    case False
    with Cons show ?thesis by (auto simp: image_iff)
  qed
qed

lemma find_Some_in: "find p xs = Some x \<Longrightarrow> x \<in> set xs \<and> p x"
  by (auto simp: find_Some_iff)

lemma find_None_iff_all: "find p xs = None \<longleftrightarrow> (\<forall>x \<in> set xs. \<not> p x)"
  by (auto simp: find_None_iff)

end
