(* ===== verification/Go_Strings.thy ===== *)
theory Go_Strings
  imports Prelude
begin

text \<open>
  The parts of Go's \<open>strings\<close> and \<open>strconv\<close> packages the program uses. A Go string is a list
  of bytes, which is HOL's \<open>string\<close>.

  \<^item> \<open>TrimSpace\<close> removes Unicode white space; in UTF-8 this is a set of byte sequences
    (\<open>space_runes\<close>), none of which occurs across a rune boundary.
  \<^item> \<open>ToLower\<close> is exact on ASCII and on the two other runes whose lower case is an ASCII letter
    (U+0130 and U+212A). It leaves every other byte alone, which cannot be told apart by a
    comparison with an ASCII literal, the only use the program makes of it.
  \<^item> \<open>ParseInt\<close> is \<open>strconv.ParseInt(s, 10, 64)\<close> with its two error kinds; \<open>show_int\<close> is the
    \<open>%d\<close> verb and \<open>pad2\<close> the \<open>%02d\<close> verb of \<open>fmt.Sprintf\<close>.
\<close>

section \<open>White space\<close>

definition space_runes :: "string list" where
  "space_runes =
    [[CHR 0x09], [CHR 0x0A], [CHR 0x0B], [CHR 0x0C], [CHR 0x0D], [CHR 0x20],
     [CHR 0xC2, CHR 0x85], [CHR 0xC2, CHR 0xA0], [CHR 0xE1, CHR 0x9A, CHR 0x80],
     [CHR 0xE2, CHR 0x80, CHR 0x80], [CHR 0xE2, CHR 0x80, CHR 0x81],
     [CHR 0xE2, CHR 0x80, CHR 0x82], [CHR 0xE2, CHR 0x80, CHR 0x83],
     [CHR 0xE2, CHR 0x80, CHR 0x84], [CHR 0xE2, CHR 0x80, CHR 0x85],
     [CHR 0xE2, CHR 0x80, CHR 0x86], [CHR 0xE2, CHR 0x80, CHR 0x87],
     [CHR 0xE2, CHR 0x80, CHR 0x88], [CHR 0xE2, CHR 0x80, CHR 0x89],
     [CHR 0xE2, CHR 0x80, CHR 0x8A], [CHR 0xE2, CHR 0x80, CHR 0xA8],
     [CHR 0xE2, CHR 0x80, CHR 0xA9], [CHR 0xE2, CHR 0x80, CHR 0xAF],
     [CHR 0xE2, CHR 0x81, CHR 0x9F], [CHR 0xE3, CHR 0x80, CHR 0x80]]"

definition starts_with :: "string \<Rightarrow> string \<Rightarrow> bool" where
  "starts_with s p \<longleftrightarrow> take (length p) s = p"

definition leading_rune :: "string list \<Rightarrow> string \<Rightarrow> string option" where
  "leading_rune rs s = find (\<lambda>r. r \<noteq> [] \<and> starts_with s r) rs"

lemma leading_rune_length:
  assumes "leading_rune rs s = Some r"
  shows "0 < length r" and "length r \<le> length s"
proof -
  from assms have "r \<noteq> []" and "take (length r) s = r"
    by (auto simp: leading_rune_def starts_with_def dest: find_Some_in)
  then show "0 < length r" and "length r \<le> length s"
    by (simp, metis length_take min.cobounded1)
qed

function trim_front :: "string list \<Rightarrow> string \<Rightarrow> string" where
  "trim_front rs s =
     (case leading_rune rs s of
        None \<Rightarrow> s
      | Some r \<Rightarrow> trim_front rs (drop (length r) s))"
  by pat_completeness auto
termination
  by (relation "measure (\<lambda>(rs, s). length s)")
    (simp_all, metis diff_less leading_rune_length less_le_trans)

declare trim_front.simps [simp del]

definition TrimSpace :: "string \<Rightarrow> string" where
  "TrimSpace s =
     rev (trim_front (map rev space_runes) (rev (trim_front space_runes s)))"

lemma trim_front_stop: "leading_rune rs s = None \<Longrightarrow> trim_front rs s = s"
  by (subst trim_front.simps) simp

lemma trim_front_step:
  "leading_rune rs s = Some r \<Longrightarrow> trim_front rs s = trim_front rs (drop (length r) s)"
  by (subst trim_front.simps) simp

lemma trim_front_result: "leading_rune rs (trim_front rs s) = None"
proof (induction rs s rule: trim_front.induct)
  case (1 rs s)
  show ?case
  proof (cases "leading_rune rs s")
    case None
    then show ?thesis by (simp add: trim_front_stop)
  next
    case (Some r)
    with "1.IH" [OF Some] show ?thesis by (simp add: trim_front_step)
  qed
qed

lemma trim_front_suffix: "\<exists>p. s = p @ trim_front rs s"
proof (induction rs s rule: trim_front.induct)
  case (1 rs s)
  show ?case
  proof (cases "leading_rune rs s")
    case None
    then show ?thesis by (simp add: trim_front_stop)
  next
    case (Some r)
    from "1.IH" [OF Some] obtain p where "drop (length r) s = p @ trim_front rs (drop (length r) s)"
      by blast
    then have "s = (take (length r) s @ p) @ trim_front rs (drop (length r) s)"
      by (metis append.assoc append_take_drop_id)
    then show ?thesis unfolding trim_front_step [OF Some] by blast
  qed
qed

lemma leading_rune_prefix: "leading_rune rs (a @ b) = None \<Longrightarrow> leading_rune rs a = None"
proof (rule ccontr)
  assume none: "leading_rune rs (a @ b) = None" and "leading_rune rs a \<noteq> None"
  then obtain r where r: "leading_rune rs a = Some r" by auto
  then have "r \<in> set rs" "r \<noteq> []" "take (length r) a = r"
    by (auto simp: leading_rune_def starts_with_def dest: find_Some_in)
  moreover from leading_rune_length(2) [OF r] have "take (length r) (a @ b) = take (length r) a"
    by simp
  ultimately show False
    using none by (auto simp: leading_rune_def starts_with_def find_None_iff)
qed

text \<open>What is left has no white space at either end, so trimming again changes nothing.\<close>

lemma TrimSpace_idem [simp]: "TrimSpace (TrimSpace s) = TrimSpace s"
proof -
  let ?f = "trim_front space_runes s"
  let ?b = "trim_front (map rev space_runes) (rev ?f)"
  obtain p where "rev ?f = p @ ?b"
    using trim_front_suffix by blast
  then have "?f = rev ?b @ rev p"
    by (metis rev_append rev_rev_ident)
  then have "leading_rune space_runes (rev ?b) = None"
    by (metis leading_rune_prefix trim_front_result)
  then show ?thesis
    by (simp add: TrimSpace_def trim_front_stop trim_front_result)
qed

text \<open>A string with none of the bytes that begin or end a white space rune is unchanged.\<close>

definition edge_bytes :: "char list" where
  "edge_bytes = map hd space_runes @ map last space_runes"

lemma leading_rune_none:
  "s = [] \<or> hd s \<notin> set (map hd rs) \<Longrightarrow> leading_rune rs s = None"
  by (cases s)
    (auto simp: leading_rune_def starts_with_def find_None_iff neq_Nil_conv image_iff)

lemma TrimSpace_plain [go_string_simps]:
  assumes "\<forall>c \<in> set s. c \<notin> set edge_bytes"
  shows "TrimSpace s = s"
proof -
  have "leading_rune space_runes s = None"
    using assms by (intro leading_rune_none) (cases s, auto simp: edge_bytes_def)
  moreover have "leading_rune (map rev space_runes) (rev s) = None"
  proof (rule leading_rune_none)
    have *: "map hd (map rev space_runes) = map last space_runes"
      by (simp add: hd_rev)
    show "rev s = [] \<or> hd (rev s) \<notin> set (map hd (map rev space_runes))"
      unfolding * using assms by (cases s rule: rev_cases) (auto simp: edge_bytes_def)
  qed
  ultimately show ?thesis by (simp add: TrimSpace_def trim_front_stop)
qed

section \<open>Prefixes, splitting, substrings\<close>

text \<open>\<open>strings.Split(s, sep)\<close> for a one byte separator.\<close>

fun split_on :: "char \<Rightarrow> string \<Rightarrow> string list" where
  "split_on c [] = [[]]"
| "split_on c (x # xs) =
     (if x = c then [] # split_on c xs
      else case split_on c xs of [] \<Rightarrow> [[x]] | p # ps \<Rightarrow> (x # p) # ps)"

lemma split_on_not_Nil [simp]: "split_on c s \<noteq> []"
  by (induction s) (auto split: list.splits)

lemma split_on_plain [go_string_simps]: "c \<notin> set s \<Longrightarrow> split_on c s = [s]"
  by (induction s) auto

lemma split_on_sep [go_string_simps]:
  "c \<notin> set s \<Longrightarrow> split_on c (s @ c # t) = s # split_on c t"
  by (induction s) auto

lemma split_on_parts: "p \<in> set (split_on c s) \<Longrightarrow> c \<notin> set p"
  by (induction s arbitrary: p) (auto split: list.splits if_splits)

lemma split_on_covers: "x \<in> set s \<Longrightarrow> x \<noteq> c \<Longrightarrow> \<exists>p \<in> set (split_on c s). x \<in> set p"
  by (induction s) (auto split: list.splits)

text \<open>Two splits of one string at the last separator are the same.\<close>

lemma last_sep_unique:
  assumes "s @ c # t = s' @ c # t'" "c \<notin> set t" "c \<notin> set t'"
  shows "s = s' \<and> t = t'"
proof -
  have "takeWhile (\<lambda>x. x \<noteq> c) (rev u @ c # v) = rev u" if "c \<notin> set u" for u v
    using that by (simp add: takeWhile_append)
  then have "rev t = rev t'"
    using assms by (metis append_Cons append_assoc append_Nil rev.simps(2) rev_append)
  with assms(1) show ?thesis by simp
qed

text \<open>\<open>strings.Contains(s, sub)\<close>\<close>

fun contains :: "string \<Rightarrow> string \<Rightarrow> bool" where
  "contains [] sub \<longleftrightarrow> sub = []"
| "contains (x # xs) sub \<longleftrightarrow> starts_with (x # xs) sub \<or> contains xs sub"

lemma contains_iff: "contains s sub \<longleftrightarrow> (\<exists>p q. s = p @ sub @ q)"
proof (induction s)
  case Nil
  then show ?case by simp
next
  case (Cons x xs)
  have "starts_with (x # xs) sub \<longleftrightarrow> (\<exists>q. x # xs = sub @ q)"
    unfolding starts_with_def by (metis append_eq_conv_conj append_take_drop_id)
  moreover have "(\<exists>p q. x # xs = p @ sub @ q) \<longleftrightarrow>
      (\<exists>q. x # xs = sub @ q) \<or> (\<exists>p q. xs = p @ sub @ q)"
    by (metis append_Cons append_Nil append_eq_Cons_conv)
  ultimately show ?case using Cons.IH by simp
qed

lemma contains_append1: "contains s sub \<Longrightarrow> contains (s @ t) sub"
  by (metis append.assoc contains_iff)

lemma contains_append2: "contains t sub \<Longrightarrow> contains (s @ t) sub"
  by (metis append.assoc contains_iff)

section \<open>Lower case\<close>

definition lower_char :: "char \<Rightarrow> char" where
  "lower_char c =
     (let n = of_char c :: nat in if 65 \<le> n \<and> n \<le> 90 then char_of (n + 32) else c)"

fun map_lower :: "(string \<times> char) list \<Rightarrow> string \<Rightarrow> string" where
  "map_lower sp [] = []"
| "map_lower sp (x # xs) =
     (case find (\<lambda>(r, c). r \<noteq> [] \<and> starts_with (x # xs) r) sp of
        Some (r, c) \<Rightarrow> c # map_lower sp (drop (length r - 1) xs)
      | None \<Rightarrow> lower_char x # map_lower sp xs)"

definition ToLower :: "string \<Rightarrow> string" where
  "ToLower s =
     map_lower [([CHR 0xC4, CHR 0xB0], CHR ''i''),
                ([CHR 0xE2, CHR 0x84, CHR 0xAA], CHR ''k'')] s"

end
