(* ===== verification/Go_Numbers.thy ===== *)
theory Go_Numbers
  imports Go_Strings
begin

text \<open>
  \<open>strconv.ParseInt\<close> (base 10, 64 bits), which is also \<open>strconv.Atoi\<close> on a 64 bit platform, and
  the decimal verbs \<open>%d\<close> and \<open>%02d\<close> of \<open>fmt.Sprintf\<close>, with the lemmas that relate them:
  printing then parsing is the identity, printing is injective.
\<close>

section \<open>Printing\<close>

definition digit_char :: "nat \<Rightarrow> char" where
  "digit_char d = char_of (48 + d)"

fun show_nat :: "nat \<Rightarrow> string" where
  "show_nat n =
     (if n < 10 then [digit_char n] else show_nat (n div 10) @ [digit_char (n mod 10)])"

declare show_nat.simps [simp del]

definition show_int :: "int \<Rightarrow> string" where
  "show_int i = (if i < 0 then ''-'' @ show_nat (nat (- i)) else show_nat (nat i))"

definition pad2 :: "int \<Rightarrow> string" where
  "pad2 i = (if length (show_int i) < 2 then ''0'' @ show_int i else show_int i)"

section \<open>Parsing\<close>

datatype num_error = ErrSyntax | ErrRange

definition digit_val :: "char \<Rightarrow> nat option" where
  "digit_val c =
     (let n = of_char c :: nat in if 48 \<le> n \<and> n \<le> 57 then Some (n - 48) else None)"

fun parse_uint_loop :: "nat \<Rightarrow> string \<Rightarrow> num_error + nat" where
  "parse_uint_loop n [] = Inr n"
| "parse_uint_loop n (c # cs) =
     (case digit_val c of
        None \<Rightarrow> Inl ErrSyntax
      | Some d \<Rightarrow>
          if 2 ^ 64 \<le> n * 10 + d then Inl ErrRange else parse_uint_loop (n * 10 + d) cs)"

definition ParseUint :: "string \<Rightarrow> num_error + nat" where
  "ParseUint s = (if s = [] then Inl ErrSyntax else parse_uint_loop 0 s)"

text \<open>
  On a range error \<open>ParseUint\<close> hands back its largest value, which the range check of
  \<open>ParseInt\<close> then refuses: the result is \<open>ErrRange\<close> again.
\<close>

definition ParseInt :: "string \<Rightarrow> num_error + int64" where
  "ParseInt s =
     (if s = [] then Inl ErrSyntax
      else
        let neg = (hd s = CHR ''-'');
            body = (if hd s = CHR ''+'' \<or> hd s = CHR ''-'' then tl s else s)
        in case ParseUint body of
             Inl e \<Rightarrow> Inl e
           | Inr un \<Rightarrow>
               if \<not> neg \<and> 2 ^ 63 \<le> un then Inl ErrRange
               else if neg \<and> 2 ^ 63 < un then Inl ErrRange
               else Inr (if neg then - of_nat un else of_nat un))"

section \<open>Digit strings and their value\<close>

definition is_digit :: "char \<Rightarrow> bool" where
  "is_digit c \<longleftrightarrow> digit_val c \<noteq> None"

definition dec_from :: "nat \<Rightarrow> string \<Rightarrow> nat" where
  "dec_from n s = foldl (\<lambda>n c. n * 10 + the (digit_val c)) n s"

abbreviation dec_value :: "string \<Rightarrow> nat" where
  "dec_value \<equiv> dec_from 0"

lemma dec_from_Nil [simp]: "dec_from n [] = n"
  by (simp add: dec_from_def)

lemma dec_from_Cons [simp]: "dec_from n (c # cs) = dec_from (n * 10 + the (digit_val c)) cs"
  by (simp add: dec_from_def)

lemma dec_from_append [simp]: "dec_from n (s @ t) = dec_from (dec_from n s) t"
  by (simp add: dec_from_def)

lemma dec_from_ge: "n \<le> dec_from n s"
proof (induction s arbitrary: n)
  case Nil
  then show ?case by simp
next
  case (Cons c cs)
  have "n \<le> n * 10 + the (digit_val c)" by simp
  also have "\<dots> \<le> dec_from n (c # cs)" using Cons.IH by simp
  finally show ?case .
qed

lemma digit_val_digit_char [simp]: "d < 10 \<Longrightarrow> digit_val (digit_char d) = Some d"
  by (simp add: digit_val_def digit_char_def Let_def)

lemma is_digit_digit_char [simp]: "d < 10 \<Longrightarrow> is_digit (digit_char d)"
  by (simp add: is_digit_def)

lemma is_digit_code: "is_digit c \<Longrightarrow> 48 \<le> (of_char c :: nat) \<and> (of_char c :: nat) \<le> 57"
  by (simp add: is_digit_def digit_val_def Let_def split: if_splits)

lemma show_nat_digits: "\<forall>c \<in> set (show_nat n). is_digit c"
proof (induction n rule: show_nat.induct)
  case (1 n)
  then show ?case
    by (subst show_nat.simps) (auto simp: show_nat.simps [of n])
qed

lemma show_nat_not_Nil [simp]: "show_nat n \<noteq> []"
  by (subst show_nat.simps) simp

lemma dec_value_show_nat [simp]: "dec_value (show_nat n) = n"
proof (induction n rule: show_nat.induct)
  case (1 n)
  show ?case
  proof (cases "n < 10")
    case True
    then show ?thesis by (simp add: show_nat.simps [of n])
  next
    case False
    then show ?thesis
      using "1.IH" by (simp add: show_nat.simps [of n])
  qed
qed

lemma parse_uint_loop_digits:
  "\<forall>c \<in> set s. is_digit c \<Longrightarrow> dec_from n s < 2 ^ 64 \<Longrightarrow>
   parse_uint_loop n s = Inr (dec_from n s)"
proof (induction s arbitrary: n)
  case Nil
  then show ?case by simp
next
  case (Cons c cs)
  then obtain d where d: "digit_val c = Some d"
    by (auto simp: is_digit_def)
  have "n * 10 + d \<le> dec_from (n * 10 + d) cs" by (rule dec_from_ge)
  with Cons.prems d have "n * 10 + d < 2 ^ 64" by simp
  with Cons d show ?case by simp
qed

lemma ParseUint_digits:
  "s \<noteq> [] \<Longrightarrow> \<forall>c \<in> set s. is_digit c \<Longrightarrow> dec_value s < 2 ^ 64 \<Longrightarrow>
   ParseUint s = Inr (dec_value s)"
  by (simp add: ParseUint_def parse_uint_loop_digits)

lemma digit_not_sign: "is_digit c \<Longrightarrow> c \<noteq> CHR ''-'' \<and> c \<noteq> CHR ''+'' \<and> c \<noteq> CHR ''.''"
  by (auto dest!: is_digit_code)

lemma ParseInt_digits:
  assumes "s \<noteq> []" "\<forall>c \<in> set s. is_digit c" "dec_value s < 2 ^ 63"
  shows "ParseInt s = Inr (of_nat (dec_value s))"
proof -
  have "hd s \<noteq> CHR ''-''" "hd s \<noteq> CHR ''+''"
    using assms(1,2) digit_not_sign by auto
  with assms show ?thesis by (simp add: ParseInt_def ParseUint_digits)
qed

lemma ParseInt_minus_digits:
  assumes "s \<noteq> []" "\<forall>c \<in> set s. is_digit c" "dec_value s \<le> 2 ^ 63"
  shows "ParseInt (CHR ''-'' # s) = Inr (- of_nat (dec_value s))"
  using assms by (simp add: ParseInt_def ParseUint_digits)

lemma ParseInt_not_digit:
  assumes "c \<in> set s" "\<not> is_digit c" "c \<noteq> CHR ''+''" "c \<noteq> CHR ''-''"
  shows "\<exists>e. ParseInt s = Inl e"
proof -
  define body where "body = (if hd s = CHR ''+'' \<or> hd s = CHR ''-'' then tl s else s)"
  have loop: "\<exists>e. parse_uint_loop n t = Inl e" if "c \<in> set t" for n t
    using that assms(2)
    by (induction t arbitrary: n) (auto simp: is_digit_def split: option.splits)
  from assms have body: "c \<in> set body"
    unfolding body_def by (cases s) auto
  from loop [OF body, of 0] obtain e where "parse_uint_loop 0 body = Inl e" by blast
  moreover from body have "body \<noteq> []" by auto
  ultimately have "ParseUint body = Inl e" by (simp add: ParseUint_def)
  moreover from assms(1) have "s \<noteq> []" by auto
  ultimately show ?thesis by (simp add: ParseInt_def Let_def body_def)
qed

lemma ParseInt_show_int: "in_int64 i \<Longrightarrow> ParseInt (show_int i) = Inr (word_of_int i)"
proof (cases "i < 0")
  case True
  assume "in_int64 i"
  with True have "nat (- i) \<le> 2 ^ 63" by (simp add: int64_bounds)
  with True show ?thesis
    by (simp add: show_int_def ParseInt_minus_digits show_nat_digits of_nat_nat word_of_int_minus)
next
  case False
  assume "in_int64 i"
  with False have "nat i < 2 ^ 63" by (simp add: int64_bounds)
  with False show ?thesis
    by (simp add: show_int_def ParseInt_digits show_nat_digits)
qed

lemma TrimSpace_digits [go_string_simps]:
  assumes "\<forall>c \<in> set s. is_digit c \<or> c = CHR ''-'' \<or> c = CHR ''.''"
  shows "TrimSpace s = s"
proof (rule TrimSpace_plain)
  have edge: "\<forall>e \<in> set edge_bytes. (of_char e :: nat) < 33 \<or> 128 \<le> (of_char e :: nat)"
    by (simp add: edge_bytes_def space_runes_def)
  show "\<forall>c \<in> set s. c \<notin> set edge_bytes"
  proof
    fix c assume "c \<in> set s"
    with assms have "33 \<le> (of_char c :: nat) \<and> (of_char c :: nat) < 128"
      using is_digit_code [of c] by auto
    with edge show "c \<notin> set edge_bytes" by (metis not_le)
  qed
qed

section \<open>Printing is injective\<close>

lemma show_nat_inject: "show_nat m = show_nat n \<Longrightarrow> m = n"
  by (metis dec_value_show_nat)

lemma show_nat_no_minus: "show_nat n \<noteq> CHR ''-'' # s"
  using show_nat_digits [of n] digit_not_sign by fastforce

lemma show_int_inject: "show_int i = show_int j \<Longrightarrow> i = j"
  by (auto simp: show_int_def show_nat_no_minus show_nat_no_minus [symmetric] split: if_splits
      dest!: show_nat_inject)

lemma show_int_chars: "c \<in> set (show_int i) \<Longrightarrow> is_digit c \<or> c = CHR ''-''"
  using show_nat_digits by (auto simp: show_int_def split: if_splits)

end
