(* ===== verification/Durations.thy ===== *)
theory Durations
  imports Complex_Main "HOL-Library.Log_Nat" Go_Numbers
begin

text \<open>
  \<open>time.ParseDuration\<close> of Go's standard library, which \<open>cmd/settlement\<close> reads its configuration with.

  \<^item> The result is \<open>None\<close> for every error: the caller drops it.
  \<^item> The numbers are \<open>uint64\<close> in the code. They are natural numbers here, with the checks of the code
    and the one wrap-around that these let through.
  \<^item> A fraction is computed in \<open>float64\<close>: \<open>to_double\<close> rounds to 53 bits, ties to even, with gradual
    underflow and overflow to infinity. Only values that are not negative occur.
\<close>

section \<open>Doubles\<close>

datatype double = Finite rat | Infinite

definition round_even :: "rat \<Rightarrow> int" where
  "round_even q =
     (let r = q - of_int \<lfloor>q\<rfloor>
      in if r < 1 / 2 then \<lfloor>q\<rfloor> else if 1 / 2 < r then \<lfloor>q\<rfloor> + 1
         else if even \<lfloor>q\<rfloor> then \<lfloor>q\<rfloor> else \<lfloor>q\<rfloor> + 1)"

text \<open>Powers of two with any exponent, and the exponent of a positive number.\<close>

definition two_to :: "int \<Rightarrow> rat" where
  "two_to e = (if 0 \<le> e then 2 ^ nat e else 1 / 2 ^ nat (- e))"

definition exponent :: "rat \<Rightarrow> int" where
  "exponent q =
     (case quotient_of q of (n, d) \<Rightarrow>
        let k = int (floorlog 2 (nat n)) - int (floorlog 2 (nat d))
        in if two_to k \<le> q then k else k - 1)"

definition to_double :: "rat \<Rightarrow> double" where
  "to_double q =
     (if q \<le> 0 then Finite 0
      else
        let ulp = two_to (max (exponent q - 52) (- 1074));
            v = of_int (round_even (q / ulp)) * ulp
        in if v < two_to 1024 then Finite v else Infinite)"

fun double_times :: "double \<Rightarrow> double \<Rightarrow> double" where
  "double_times (Finite a) (Finite b) = to_double (a * b)"
| "double_times _ _ = Infinite"

fun double_over :: "double \<Rightarrow> double \<Rightarrow> double" where
  "double_over (Finite a) (Finite b) = to_double (a / b)"
| "double_over (Finite a) Infinite = Finite 0"
| "double_over Infinite _ = Infinite"

text \<open>The conversion to \<open>uint64\<close>; the product it is applied to is never infinite.\<close>

fun truncated :: "double \<Rightarrow> nat" where
  "truncated (Finite q) = nat \<lfloor>q\<rfloor>"
| "truncated Infinite = 0"

section \<open>The parser\<close>

definition unit_map :: "string \<Rightarrow> nat option" where
  "unit_map u =
     (if u = ''ns'' then Some 1
      else if u \<in> {''us'', [CHR 0xC2, CHR 0xB5, CHR ''s''], [CHR 0xCE, CHR 0xBC, CHR ''s'']} then Some 1000
      else if u = ''ms'' then Some 1000000
      else if u = ''s'' then Some 1000000000
      else if u = ''m'' then Some 60000000000
      else if u = ''h'' then Some 3600000000000
      else None)"

fun leadingInt :: "nat \<Rightarrow> string \<Rightarrow> (nat \<times> string) option" where
  "leadingInt x [] = Some (x, [])"
| "leadingInt x (c # cs) =
     (case digit_val c of
        None \<Rightarrow> Some (x, c # cs)
      | Some d \<Rightarrow>
          if 2 ^ 63 div 10 < x then None
          else if 2 ^ 63 < x * 10 + d then None
          else leadingInt (x * 10 + d) cs)"

fun leadingFraction :: "nat \<Rightarrow> double \<Rightarrow> bool \<Rightarrow> string \<Rightarrow> nat \<times> double \<times> string" where
  "leadingFraction x scale overflow [] = (x, scale, [])"
| "leadingFraction x scale overflow (c # cs) =
     (case digit_val c of
        None \<Rightarrow> (x, scale, c # cs)
      | Some d \<Rightarrow>
          if overflow then leadingFraction x scale True cs
          else if (2 ^ 63 - 1) div 10 < x then leadingFraction x scale True cs
          else if 2 ^ 63 < x * 10 + d then leadingFraction x scale True cs
          else leadingFraction (x * 10 + d) (double_times scale (Finite 10)) False cs)"

definition unit_char :: "char \<Rightarrow> bool" where
  "unit_char c \<longleftrightarrow> \<not> (c = CHR ''.'' \<or> is_digit c)"

text \<open>One number with its unit, in nanoseconds, and what follows it.\<close>

definition duration_term :: "string \<Rightarrow> (nat \<times> string) option" where
  "duration_term s =
     (if unit_char (hd s) then None
      else
        (case leadingInt 0 s of
           None \<Rightarrow> None
         | Some (v, s1) \<Rightarrow>
             let pre = (length s \<noteq> length s1);
                 (f, scale, s2, post) =
                   (if s1 \<noteq> [] \<and> hd s1 = CHR ''.'' then
                      (case leadingFraction 0 (Finite 1) False (tl s1) of
                         (f, scale, s2) \<Rightarrow> (f, scale, s2, length (tl s1) \<noteq> length s2))
                    else (0, Finite 1, s1, False));
                 u = takeWhile unit_char s2
             in if \<not> pre \<and> \<not> post then None
                else if u = [] then None
                else
                  (case unit_map u of
                     None \<Rightarrow> None
                   | Some unit \<Rightarrow>
                       if 2 ^ 63 div unit < v then None
                       else
                         let v = v * unit;
                             v = (if 0 < f then
                                    v + truncated (double_times (to_double (of_nat f))
                                          (double_over (to_double (of_nat unit)) scale))
                                  else v)
                         in if 2 ^ 63 < v then None else Some (v, dropWhile unit_char s2))))"

lemma leadingInt_length: "leadingInt x s = Some (v, r) \<Longrightarrow> length r \<le> length s"
  by (induction x s rule: leadingInt.induct) (auto split: option.splits if_splits)

lemma leadingFraction_length: "leadingFraction x scale overflow s = (f, k, r) \<Longrightarrow> length r \<le> length s"
  by (induction x scale overflow s rule: leadingFraction.induct) (auto split: option.splits if_splits)

lemma dropWhile_shorter: "takeWhile P s \<noteq> [] \<Longrightarrow> length (dropWhile P s) < length s"
  by (cases s) (auto simp: length_dropWhile_le le_imp_less_Suc split: if_splits)

lemma duration_term_shorter:
  assumes "duration_term s = Some (v, r)"
  shows "length r < length s"
proof -
  obtain n s1 f scale s2 post where parts: "leadingInt 0 s = Some (n, s1)"
    "(if s1 \<noteq> [] \<and> hd s1 = CHR ''.'' then
        (case leadingFraction 0 (Finite 1) False (tl s1) of
           (f, scale, s2) \<Rightarrow> (f, scale, s2, length (tl s1) \<noteq> length s2))
      else (0, Finite 1, s1, False)) = (f, scale, s2, post)"
    "takeWhile unit_char s2 \<noteq> []" "r = dropWhile unit_char s2"
    using assms by (auto simp: duration_term_def Let_def split: if_splits option.splits prod.splits)
  have "length s2 \<le> length s1"
    using parts(2) leadingFraction_length by (fastforce split: if_splits prod.splits)
  with parts leadingInt_length [OF parts(1)] dropWhile_shorter [OF parts(3)] show ?thesis by simp
qed

function duration_terms :: "nat \<Rightarrow> string \<Rightarrow> nat option" where
  "duration_terms d s =
     (if s = [] then Some d
      else
        (case duration_term s of
           None \<Rightarrow> None
         | Some (v, s1) \<Rightarrow>
             let d = (d + v) mod 2 ^ 64 in if 2 ^ 63 < d then None else duration_terms d s1))"
  by pat_completeness auto
termination
  by (relation "measure (\<lambda>(d, s). length s)") (auto dest: duration_term_shorter)

declare duration_terms.simps [simp del]

definition ParseDuration :: "string \<Rightarrow> int64 option" where
  "ParseDuration s =
     (let signed = (s \<noteq> [] \<and> (hd s = CHR ''-'' \<or> hd s = CHR ''+''));
          neg = (signed \<and> hd s = CHR ''-'');
          body = (if signed then tl s else s)
      in if body = ''0'' then Some 0
         else if body = [] then None
         else
           (case duration_terms 0 body of
              None \<Rightarrow> None
            | Some d \<Rightarrow>
                if neg then Some (- of_nat d)
                else if 2 ^ 63 - 1 < d then None
                else Some (of_nat d)))"

section \<open>Texts without a fraction\<close>

lemma unit_map_unit:
  assumes "unit_map u = Some k"
  shows "0 < k" "u \<noteq> []" "\<forall>x \<in> set u. unit_char x"
  using assms by (auto simp: unit_map_def unit_char_def is_digit_def digit_val_def Let_def split: if_splits)

lemma leadingInt_digits:
  assumes "\<forall>c \<in> set ds. is_digit c" "r = [] \<or> \<not> is_digit (hd r)"
  shows "leadingInt x (ds @ r) = (if x \<le> 2 ^ 63 \<or> ds \<noteq> [] then
    if dec_from x ds \<le> 2 ^ 63 then Some (dec_from x ds, r) else None else Some (x, r))"
  using assms(1)
proof (induction ds arbitrary: x)
  case Nil
  with assms(2) show ?case by (cases r) (auto simp: is_digit_def)
next
  case (Cons c ds)
  then obtain d where d: "digit_val c = Some d" by (auto simp: is_digit_def)
  have "x * 10 + d \<le> dec_from (x * 10 + d) ds" by (rule dec_from_ge)
  with d Cons show ?case by auto
qed

lemma duration_term_whole:
  assumes "unit_map u = Some k" "r = [] \<or> \<not> unit_char (hd r)"
  shows "duration_term (show_nat n @ u @ r) = (if n * k \<le> 2 ^ 63 then Some (n * k, r) else None)"
proof -
  note u = unit_map_unit [OF assms(1)]
  have hd_u: "hd (u @ r) = hd u" "unit_char (hd u)" "\<not> is_digit (hd u)" "hd u \<noteq> CHR ''.''"
    using u by (auto simp: unit_char_def)
  have first: "\<not> unit_char (hd (show_nat n @ u @ r))"
    using show_nat_digits [of n] by (cases "show_nat n") (auto simp: unit_char_def)
  have number: "leadingInt 0 (show_nat n @ u @ r) = (if n \<le> 2 ^ 63 then Some (n, u @ r) else None)"
    using leadingInt_digits [of "show_nat n" "u @ r" 0] show_nat_digits [of n] hd_u(1,3) by simp
  have rest: "takeWhile unit_char (u @ r) = u" "dropWhile unit_char (u @ r) = r"
    using assms(2) u(3) by (cases r; simp add: takeWhile_append dropWhile_append)+
  have "2 ^ 63 div k < n \<longleftrightarrow> 2 ^ 63 < n * k"
    using u(1) by (simp add: div_less_iff_less_mult)
  moreover have "n * k \<le> 2 ^ 63 \<Longrightarrow> n \<le> 2 ^ 63"
    using u(1) by (metis Suc_leI le_trans mult_le_mono2 nat_mult_1_right One_nat_def)
  ultimately show ?thesis
    using first hd_u u(2) assms(1) by (auto simp: duration_term_def number rest Let_def)
qed

text \<open>A duration as a list of numbers with their units, its text and its length.\<close>

definition terms_text :: "(nat \<times> string) list \<Rightarrow> string" where
  "terms_text ts = concat (map (\<lambda>(n, u). show_nat n @ u) ts)"

definition nanoseconds :: "(nat \<times> string) list \<Rightarrow> nat" where
  "nanoseconds ts = sum_list (map (\<lambda>(n, u). n * the (unit_map u)) ts)"

lemma terms_text_first: "terms_text ts = [] \<or> \<not> unit_char (hd (terms_text ts))"
proof (cases ts)
  case (Cons t ts')
  then show ?thesis
    using show_nat_digits [of "fst t"]
    by (cases t; cases "show_nat (fst t)") (auto simp: terms_text_def unit_char_def)
qed (simp add: terms_text_def)

lemma duration_terms_text:
  assumes "\<forall>(n, u) \<in> set ts. unit_map u \<noteq> None" "d + nanoseconds ts < 2 ^ 64" "d \<le> 2 ^ 63"
  shows "duration_terms d (terms_text ts) =
    (if d + nanoseconds ts \<le> 2 ^ 63 then Some (d + nanoseconds ts) else None)"
  using assms
proof (induction ts arbitrary: d)
  case Nil
  then show ?case by (simp add: terms_text_def nanoseconds_def duration_terms.simps)
next
  case (Cons t ts)
  obtain n u where t: "t = (n, u)" by (rule prod.exhaust)
  with Cons.prems(1) obtain k where k: "unit_map u = Some k" by auto
  have shown: "terms_text (t # ts) = show_nat n @ u @ terms_text ts"
    and total: "nanoseconds (t # ts) = n * k + nanoseconds ts"
    by (simp_all add: terms_text_def nanoseconds_def t k)
  note step = duration_terms.simps [of d "terms_text (t # ts)"]
    duration_term_whole [OF k terms_text_first, of n ts, folded shown]
  have next_ok: "(d + n * k) mod 2 ^ 64 = d + n * k" using Cons.prems(2) total by simp
  have "terms_text (t # ts) \<noteq> []" by (simp add: shown)
  with Cons.IH [of "d + n * k"] Cons.prems show ?case
    unfolding step by (auto simp: total Let_def next_ok)
qed

text \<open>
  Every duration written as numbers with units is read back exactly, with either sign, as far as 64 bits
  reach; a longer one is refused.
\<close>

lemma ParseDuration_text:
  assumes "ts \<noteq> []" "\<forall>(n, u) \<in> set ts. unit_map u \<noteq> None" "nanoseconds ts < 2 ^ 64"
  shows "ParseDuration (terms_text ts) =
      (if nanoseconds ts < 2 ^ 63 then Some (of_nat (nanoseconds ts)) else None)"
    and "ParseDuration (CHR ''-'' # terms_text ts) =
      (if nanoseconds ts \<le> 2 ^ 63 then Some (- of_nat (nanoseconds ts)) else None)"
proof -
  obtain n u ts' where ts: "ts = (n, u) # ts'" using assms(1) by (cases ts) auto
  with assms(2) obtain k where k: "unit_map u = Some k" by auto
  have shown: "terms_text ts = show_nat n @ u @ terms_text ts'" by (simp add: terms_text_def ts)
  have "terms_text ts \<noteq> []" "terms_text ts \<noteq> ''0''" "hd (terms_text ts) \<noteq> CHR ''-''" "hd (terms_text ts) \<noteq> CHR ''+''"
    using unit_map_unit(2) [OF k] show_nat_digits [of n] digit_not_sign unfolding shown
    by (cases "show_nat n"; auto simp: Cons_eq_append_conv)+
  then show "ParseDuration (terms_text ts) =
      (if nanoseconds ts < 2 ^ 63 then Some (of_nat (nanoseconds ts)) else None)"
    "ParseDuration (CHR ''-'' # terms_text ts) =
      (if nanoseconds ts \<le> 2 ^ 63 then Some (- of_nat (nanoseconds ts)) else None)"
    using duration_terms_text [of ts 0] assms(2,3) by (auto simp: ParseDuration_def Let_def)
qed

text \<open>A number without a unit is refused, except for the single digit 0.\<close>

lemma ParseDuration_bare:
  assumes "\<forall>x \<in> set s. is_digit x" "s \<noteq> ''0''"
  shows "ParseDuration s = None"
proof (cases "s = []")
  case False
  then have hd_s: "hd s \<noteq> CHR ''-''" "hd s \<noteq> CHR ''+''" "\<not> unit_char (hd s)"
    using assms(1) digit_not_sign by (auto simp: unit_char_def)
  have "duration_term s = None"
    using leadingInt_digits [of s "[]" 0] assms(1) False hd_s(3) by (simp add: duration_term_def)
  then show ?thesis using False hd_s(1,2) assms(2) by (simp add: ParseDuration_def duration_terms.simps)
qed (simp add: ParseDuration_def)

end
