(* ===== verification/Go_Errors.thy ===== *)
theory Go_Errors
  imports Go_Numbers
begin

text \<open>
  Go's error values, as far as the program tells them apart: by identity of a sentinel
  (\<open>errors.Is\<close>) and by their text (\<open>err.Error()\<close>, which \<open>ledger.Post\<close> searches and the dead letter
  message records).

  \<^item> \<open>Sentinel\<close> is a package level \<open>errors.New\<close> variable, told apart by its identity.
  \<^item> \<open>Plain\<close> is any other error that wraps nothing, with its text.
  \<^item> \<open>Wrap p e\<close> is \<open>fmt.Errorf("<p>%w", e)\<close>.
  \<^item> \<open>Wrap2 e s f\<close> is \<open>fmt.Errorf("%w<s>%w", e, f)\<close>.
\<close>

datatype sentinel = NoRows | NonRetryable | AlreadyPosted | Canceled

datatype goerr =
    Sentinel sentinel
  | Plain string
  | Wrap string goerr
  | Wrap2 goerr string goerr

fun sentinel_text :: "sentinel \<Rightarrow> string" where
  "sentinel_text NoRows = ''no rows in result set''"
| "sentinel_text NonRetryable = ''non-retryable error''"
| "sentinel_text AlreadyPosted = ''ledger: payment already posted''"
| "sentinel_text Canceled = ''context canceled''"

primrec error_text :: "goerr \<Rightarrow> string" where
  "error_text (Sentinel s) = sentinel_text s"
| "error_text (Plain t) = t"
| "error_text (Wrap p e) = p @ error_text e"
| "error_text (Wrap2 e s f) = error_text e @ s @ error_text f"

text \<open>\<open>errors.Is(err, target)\<close> for a sentinel: the tree of wrapped errors is searched.\<close>

primrec errors_is :: "goerr \<Rightarrow> sentinel \<Rightarrow> bool" where
  "errors_is (Sentinel s) t \<longleftrightarrow> s = t"
| "errors_is (Plain _) t \<longleftrightarrow> False"
| "errors_is (Wrap _ e) t \<longleftrightarrow> errors_is e t"
| "errors_is (Wrap2 e _ f) t \<longleftrightarrow> errors_is e t \<or> errors_is f t"

text \<open>The text of a wrapped error is part of the text of the error that wraps it.\<close>

lemma contains_Wrap:
  "contains (error_text e) sub \<Longrightarrow> contains (error_text (Wrap p e)) sub"
  by (simp add: contains_append2)

lemma contains_Wrap2:
  "contains (error_text e) sub \<or> contains (error_text f) sub \<Longrightarrow>
   contains (error_text (Wrap2 e s f)) sub"
  by (auto simp: contains_append1 contains_append2)

end
