(* ===== verification/Domain.thy ===== *)
theory Domain
  imports Go_Errors
begin

text \<open>
  \<open>internal/domain\<close>: the payment lifecycle (\<open>states.go\<close>) and the canonical transaction
  (\<open>transaction.go\<close>).

  A Go \<open>State\<close> is a string, so the code can meet a state outside the seven named ones: the
  normalizer copies it from the request. The table \<open>allowed\<close> and \<open>Transition\<close> are
  translated on strings. The lifecycle itself is specified apart from the code, as a datatype with
  an inductive edge relation, and \<open>Transition\<close> is proved to accept exactly its edges.
\<close>

section \<open>States and transitions\<close>

type_synonym state = string

definition StateReceived :: state where "StateReceived = ''RECEIVED''"
definition StateValidated :: state where "StateValidated = ''VALIDATED''"
definition StateAuthorized :: state where "StateAuthorized = ''AUTHORIZED''"
definition StateCaptured :: state where "StateCaptured = ''CAPTURED''"
definition StateSettled :: state where "StateSettled = ''SETTLED''"
definition StateReconciled :: state where "StateReconciled = ''RECONCILED''"
definition StateFailed :: state where "StateFailed = ''FAILED''"

lemmas state_defs =
  StateReceived_def StateValidated_def StateAuthorized_def StateCaptured_def StateSettled_def
  StateReconciled_def StateFailed_def

definition allowed :: "(state \<times> state list) list" where
  "allowed =
    [(StateReceived, [StateValidated, StateFailed]),
     (StateValidated, [StateAuthorized, StateCaptured, StateFailed]),
     (StateAuthorized, [StateCaptured, StateFailed]),
     (StateCaptured, [StateSettled, StateFailed]),
     (StateSettled, [StateReconciled])]"

text \<open>The result is the error, \<open>None\<close> where the code returns \<open>nil\<close>.\<close>

definition Transition :: "state \<Rightarrow> state \<Rightarrow> goerr option" where
  "Transition from to =
     (if to \<in> set (case map_of allowed from of None \<Rightarrow> [] | Some ss \<Rightarrow> ss) then None
      else Some (Plain (''illegal state transition: '' @ from @ '' -> '' @ to)))"

section \<open>The canonical transaction\<close>

text \<open>An instant is its number of nanoseconds since the Unix epoch; Go's zero time is year 1.\<close>

type_synonym time = int

definition zero_time :: time where
  "zero_time = - 62135596800 * 10 ^ 9"

record money =
  MinorUnits :: int64
  Currency :: string

definition SourceCard :: string where "SourceCard = ''CARD''"
definition SourceUPI :: string where "SourceUPI = ''UPI''"
definition SourceBankTransfer :: string where "SourceBankTransfer = ''BANK_TRANSFER''"
definition SourceWallet :: string where "SourceWallet = ''WALLET''"

lemmas source_defs = SourceCard_def SourceUPI_def SourceBankTransfer_def SourceWallet_def

text \<open>A nil map is \<open>None\<close>.\<close>

record transaction =
  PaymentID :: string
  IdempotencyKey :: string
  Source :: string
  ExternalTxnID :: string
  AccountID :: string
  Amount :: money
  State :: state
  SchemaVersion :: uint32
  Metadata :: "gomap option"
  CreatedAt :: time
  UpdatedAt :: time

section \<open>The lifecycle as a specification\<close>

datatype lifecycle =
  Received | Validated | Authorized | Captured | Settled | Reconciled | Failed

fun state_text :: "lifecycle \<Rightarrow> state" where
  "state_text Received = StateReceived"
| "state_text Validated = StateValidated"
| "state_text Authorized = StateAuthorized"
| "state_text Captured = StateCaptured"
| "state_text Settled = StateSettled"
| "state_text Reconciled = StateReconciled"
| "state_text Failed = StateFailed"

inductive lifecycle_edge :: "lifecycle \<Rightarrow> lifecycle \<Rightarrow> bool" where
  validate: "lifecycle_edge Received Validated"
| authorize: "lifecycle_edge Validated Authorized"
| capture: "s \<in> {Validated, Authorized} \<Longrightarrow> lifecycle_edge s Captured"
| settle: "lifecycle_edge Captured Settled"
| reconcile: "lifecycle_edge Settled Reconciled"
| fail: "s \<in> {Received, Validated, Authorized, Captured} \<Longrightarrow> lifecycle_edge s Failed"

inductive_simps lifecycle_edge_iff: "lifecycle_edge a b"

inductive_cases from_failed: "lifecycle_edge Failed b"
inductive_cases from_reconciled: "lifecycle_edge Reconciled b"

lemma state_text_inject: "state_text a = state_text b \<longleftrightarrow> a = b"
  by (cases a; cases b) (simp_all add: state_defs)

lemma map_of_allowed:
  "map_of allowed s =
     (if s = StateReceived then Some [StateValidated, StateFailed]
      else if s = StateValidated then Some [StateAuthorized, StateCaptured, StateFailed]
      else if s = StateAuthorized then Some [StateCaptured, StateFailed]
      else if s = StateCaptured then Some [StateSettled, StateFailed]
      else if s = StateSettled then Some [StateReconciled]
      else None)"
  by (simp add: allowed_def)

lemma Transition_text: "Transition (state_text a) (state_text b) = None \<longleftrightarrow> lifecycle_edge a b"
  by (cases a; cases b)
    (simp_all add: Transition_def map_of_allowed state_defs lifecycle_edge_iff)

lemma Transition_vocabulary:
  "Transition f t = None \<Longrightarrow> \<exists>a b. f = state_text a \<and> t = state_text b"
  unfolding Transition_def map_of_allowed
  by (auto split: if_splits intro: state_text.simps [symmetric])

text \<open>
  \<open>Transition\<close> returns no error exactly for the edges of the lifecycle; in particular it
  rejects every string that names no state, every self loop and every move out of \<open>FAILED\<close> or
  \<open>RECONCILED\<close>.
\<close>

theorem Transition_refines_lifecycle:
  "Transition f t = None \<longleftrightarrow>
     (\<exists>a b. f = state_text a \<and> t = state_text b \<and> lifecycle_edge a b)"
  by (metis Transition_text Transition_vocabulary)

section \<open>Runs of the state machine\<close>

fun accepted_run :: "state \<Rightarrow> state list \<Rightarrow> bool" where
  "accepted_run s [] \<longleftrightarrow> True"
| "accepted_run s (t # ts) \<longleftrightarrow> Transition s t = None \<and> accepted_run t ts"

text \<open>Progress through the lifecycle, as a number that every accepted move increases.\<close>

definition state_rank :: "state \<Rightarrow> nat" where
  "state_rank s =
     (if s = StateReceived then 0 else if s = StateValidated then 1
      else if s = StateAuthorized then 2 else if s = StateCaptured then 3
      else if s = StateReconciled then 5 else 4)"

lemma Transition_rank: "Transition s t = None \<Longrightarrow> state_rank s < state_rank t"
  unfolding Transition_def map_of_allowed
  by (auto simp: state_rank_def state_defs split: if_splits)

lemma Transition_irrefl: "Transition s s \<noteq> None"
  using Transition_rank by blast

lemma state_rank_le: "state_rank s \<le> 5"
  by (simp add: state_rank_def)

lemma accepted_run_ranks:
  "accepted_run s ts \<Longrightarrow> sorted_wrt (<) (map state_rank (s # ts))"
proof (induction ts arbitrary: s)
  case Nil
  then show ?case by simp
next
  case (Cons t ts)
  then have "sorted_wrt (<) (map state_rank (t # ts))" and "state_rank s < state_rank t"
    by (auto dest: Transition_rank)
  then show ?case by auto
qed

lemma sorted_wrt_less_bound:
  "sorted_wrt (<) ns \<Longrightarrow> \<forall>n \<in> set ns. n \<le> (m :: nat) \<Longrightarrow> length ns \<le> Suc m"
proof -
  assume "sorted_wrt (<) ns" and bound: "\<forall>n \<in> set ns. n \<le> m"
  then have "distinct ns" by (simp add: strict_sorted_iff)
  then have "length ns = card (set ns)" by (simp add: distinct_card)
  also have "\<dots> \<le> card {..m}" using bound by (intro card_mono) auto
  finally show ?thesis by simp
qed

text \<open>
  C32. A payment's history is finite and never revisits a state: whatever states callers ask for,
  at most five moves are accepted in a row and all states on the way differ.
\<close>

theorem accepted_run_bounded:
  assumes "accepted_run s ts"
  shows "length ts \<le> 5 \<and> distinct (s # ts)"
proof -
  have mono: "sorted_wrt (<) (map state_rank (s # ts))"
    using assms by (rule accepted_run_ranks)
  have "length (map state_rank (s # ts)) \<le> Suc 5"
    using mono by (rule sorted_wrt_less_bound) (auto simp: state_rank_le)
  moreover have "distinct (map state_rank (s # ts))"
    using mono by (simp only: strict_sorted_iff)
  ultimately show ?thesis by (auto simp: distinct_map)
qed

theorem accepted_run_bounded_witness:
  "accepted_run StateReceived
     [StateValidated, StateAuthorized, StateCaptured, StateSettled, StateReconciled] \<and>
   distinct [StateReceived, StateValidated, StateAuthorized, StateCaptured, StateSettled,
     StateReconciled]"
proof -
  have h: "accepted_run StateReceived
     [StateValidated, StateAuthorized, StateCaptured, StateSettled, StateReconciled]"
    by (simp add: Transition_def map_of_allowed state_defs)
  from h accepted_run_bounded [OF h] show ?thesis by blast
qed

end
