(* ===== verification/Event.thy ===== *)
theory Event
  imports Domain "HOL-Library.List_Lexorder" "HOL-Library.Char_ord" "HOL-Library.Multiset"
begin

text \<open>
  \<open>internal/outbox/event.go\<close>: the event on \<open>payments.received\<close>, its construction from a
  transaction, and \<open>encoding/json\<close> on it: \<open>MarshalEvent\<close> for the producer, \<open>UnmarshalEvent\<close> for
  the three consumers.

  JSON is modelled as documents, not as text: \<open>payload\<close> is what a byte slice holds, a document,
  bytes that are no JSON, or nothing. Object members keep their order, so the decoder's rules on
  repeated and unknown members are those of the code, and maps are encoded in the order of their keys. The
  text of an instant (RFC 3339) and of
  the decoder's error messages are parameters (\<open>codec\<close>); strings are taken to be valid UTF-8, as
  protobuf guarantees at the gRPC boundary.

  On its way to Kafka an event passes through a \<open>JSONB\<close> column, which does not keep the order of members and
  keeps the last one of a repeated name (\<open>jsonb\<close>). The order in which the server gives them back is
  documented as unspecified; it is a parameter.
\<close>

section \<open>Documents\<close>

datatype json =
    JNull
  | JBool bool
  | JNum int
  | JReal string
  | JStr string
  | JArr "json list"
  | JObj "(string \<times> json) list"

datatype payload = NilBytes | Doc json | NotJson string

record codec =
  fmt_time :: "time \<Rightarrow> string option"
  parse_time :: "string \<Rightarrow> time option"
  unmarshal_text :: "payload \<Rightarrow> string"
  marshal_text :: "payload \<Rightarrow> string"

section \<open>JSONB columns\<close>

text \<open>Of the members with the same name only the last one is kept.\<close>

fun last_members :: "(string \<times> 'v) list \<Rightarrow> (string \<times> 'v) list" where
  "last_members [] = []"
| "last_members ((k, v) # ms) = (if k \<in> fst ` set ms then last_members ms else (k, v) # last_members ms)"

text \<open>What a \<open>JSONB\<close> column gives back: \<open>rank\<close> is the order in which the server keeps the names.\<close>

primrec jsonb :: "(string \<Rightarrow> nat) \<Rightarrow> json \<Rightarrow> json" where
  "jsonb rank JNull = JNull"
| "jsonb rank (JBool b) = JBool b"
| "jsonb rank (JNum n) = JNum n"
| "jsonb rank (JReal s) = JReal s"
| "jsonb rank (JStr s) = JStr s"
| "jsonb rank (JArr js) = JArr (map (jsonb rank) js)"
| "jsonb rank (JObj ms) = JObj (sort_key (\<lambda>m. rank (fst m)) (last_members (map (map_prod id (jsonb rank)) ms)))"

declare jsonb.simps(7) [simp del]
lemmas jsonb_object = jsonb.simps(7)

lemma last_members_distinct: "distinct (map fst ms) \<Longrightarrow> last_members ms = ms"
  by (induction ms rule: last_members.induct) auto

lemma sort_members:
  fixes f :: "'a \<Rightarrow> 'b" and ms :: "('n \<times> 'a) list"
  shows "sort_key (\<lambda>m. rank (fst m)) (map (map_prod id f) ms) =
     map (map_prod id f) (sort_key (\<lambda>m. rank (fst m)) ms)"
proof -
  have insort: "insort_key (\<lambda>m. rank (fst m)) (apsnd f m) (map (apsnd f) xs) =
      map (apsnd f) (insort_key (\<lambda>m. rank (fst m)) m xs)" for m and xs :: "('n \<times> 'a) list"
    by (induction xs) auto
  have "sort_key (\<lambda>m. rank (fst m)) (map (apsnd f) ms) = map (apsnd f) (sort_key (\<lambda>m. rank (fst m)) ms)"
    by (induction ms) (simp_all add: insort)
  then show ?thesis by (simp add: apsnd_def)
qed

section \<open>The event\<close>

record payment_event =
  ev_EventID :: string
  ev_EventType :: string
  ev_SchemaVersion :: int64
  ev_PaymentID :: string
  ev_IdempotencyKey :: string
  ev_Source :: string
  ev_ExternalTxnID :: string
  ev_AccountID :: string
  ev_AmountMinor :: int64
  ev_Currency :: string
  ev_State :: string
  ev_CreatedAt :: time
  ev_Metadata :: "gomap option"

definition zero_event :: payment_event where
  "zero_event =
     \<lparr>ev_EventID = [], ev_EventType = [], ev_SchemaVersion = 0, ev_PaymentID = [],
      ev_IdempotencyKey = [], ev_Source = [], ev_ExternalTxnID = [], ev_AccountID = [],
      ev_AmountMinor = 0, ev_Currency = [], ev_State = [], ev_CreatedAt = zero_time,
      ev_Metadata = None\<rparr>"

text \<open>\<open>uuid.New().String()\<close> is the argument \<open>event_id\<close>.\<close>

definition NewPaymentReceivedEvent :: "string \<Rightarrow> transaction \<Rightarrow> payment_event" where
  "NewPaymentReceivedEvent event_id t =
     \<lparr>ev_EventID = event_id, ev_EventType = ''payment.received'', ev_SchemaVersion = 1,
      ev_PaymentID = PaymentID t, ev_IdempotencyKey = IdempotencyKey t, ev_Source = Source t,
      ev_ExternalTxnID = ExternalTxnID t, ev_AccountID = AccountID t,
      ev_AmountMinor = MinorUnits (Amount t), ev_Currency = Currency (Amount t),
      ev_State = State t, ev_CreatedAt = CreatedAt t, ev_Metadata = Metadata t\<rparr>"

section \<open>Encoding\<close>

definition metadata_members :: "gomap option \<Rightarrow> (string \<times> json) list" where
  "metadata_members md =
     (case md of None \<Rightarrow> []
      | Some m \<Rightarrow> if m = [] then [] else [(''metadata'', JObj (map (map_prod id JStr) (sort_key fst m)))])"

definition MarshalEvent :: "codec \<Rightarrow> payment_event \<Rightarrow> goerr + json" where
  "MarshalEvent c ev =
     (case fmt_time c (ev_CreatedAt ev) of
        None \<Rightarrow> Inl (Plain ''json: error calling MarshalJSON for type time.Time'')
      | Some created \<Rightarrow>
          Inr (JObj
            ([(''event_id'', JStr (ev_EventID ev)),
              (''event_type'', JStr (ev_EventType ev)),
              (''schema_version'', JNum (sint (ev_SchemaVersion ev))),
              (''payment_id'', JStr (ev_PaymentID ev)),
              (''idempotency_key'', JStr (ev_IdempotencyKey ev)),
              (''source'', JStr (ev_Source ev))] @
             (if ev_ExternalTxnID ev = [] then []
              else [(''external_txn_id'', JStr (ev_ExternalTxnID ev))]) @
             [(''account_id'', JStr (ev_AccountID ev)),
              (''amount_minor'', JNum (sint (ev_AmountMinor ev))),
              (''currency'', JStr (ev_Currency ev)),
              (''state'', JStr (ev_State ev)),
              (''created_at'', JStr created)] @
             metadata_members (ev_Metadata ev))))"

section \<open>Decoding\<close>

definition event_field_names :: "string list" where
  "event_field_names =
     [''event_id'', ''event_type'', ''schema_version'', ''payment_id'', ''idempotency_key'',
      ''source'', ''external_txn_id'', ''account_id'', ''amount_minor'', ''currency'', ''state'',
      ''created_at'', ''metadata'']"

text \<open>
  A member name is matched exactly, or else up to case. The folding is that of \<open>encoding/json\<close>:
  besides the ASCII letters, U+017F folds to \<open>s\<close> and U+212A to \<open>k\<close>.
\<close>

definition fold_name :: "string \<Rightarrow> string" where
  "fold_name s =
     map_lower [([CHR 0xC5, CHR 0xBF], CHR ''s''),
                ([CHR 0xE2, CHR 0x84, CHR 0xAA], CHR ''k'')] s"

definition match_field :: "string \<Rightarrow> string option" where
  "match_field k =
     (if k \<in> set event_field_names then Some k
      else find (\<lambda>n. fold_name k = n) event_field_names)"

text \<open>A JSON null leaves a string, a number or a time as it is; \<open>None\<close> is a type error.\<close>

definition decode_string :: "json \<Rightarrow> (string \<Rightarrow> 'e) \<Rightarrow> 'e \<Rightarrow> 'e option" where
  "decode_string v upd ev =
     (case v of JStr s \<Rightarrow> Some (upd s) | JNull \<Rightarrow> Some ev | _ \<Rightarrow> None)"

definition decode_int64 :: "json \<Rightarrow> (int64 \<Rightarrow> 'e) \<Rightarrow> 'e \<Rightarrow> 'e option" where
  "decode_int64 v upd ev =
     (case v of
        JNum n \<Rightarrow> if in_int64 n then Some (upd (word_of_int n)) else None
      | JNull \<Rightarrow> Some ev | _ \<Rightarrow> None)"

fun decode_strings :: "(string \<times> json) list \<Rightarrow> gomap \<Rightarrow> gomap option" where
  "decode_strings [] m = Some m"
| "decode_strings ((k, JStr s) # ms) m = decode_strings ms (gput m k s)"
| "decode_strings ((k, JNull) # ms) m = decode_strings ms (gput m k [])"
| "decode_strings (_ # ms) m = None"

definition decode_metadata :: "json \<Rightarrow> payment_event \<Rightarrow> payment_event option" where
  "decode_metadata v ev =
     (case v of
        JObj ms \<Rightarrow>
          map_option (\<lambda>m. ev\<lparr>ev_Metadata := Some m\<rparr>)
            (decode_strings ms (case ev_Metadata ev of None \<Rightarrow> [] | Some m \<Rightarrow> m))
      | JNull \<Rightarrow> Some (ev\<lparr>ev_Metadata := None\<rparr>)
      | _ \<Rightarrow> None)"

definition decode_created :: "codec \<Rightarrow> json \<Rightarrow> payment_event \<Rightarrow> payment_event option" where
  "decode_created c v ev =
     (case v of
        JStr s \<Rightarrow> map_option (\<lambda>t. ev\<lparr>ev_CreatedAt := t\<rparr>) (parse_time c s)
      | JNull \<Rightarrow> Some ev
      | _ \<Rightarrow> None)"

definition decode_member :: "codec \<Rightarrow> string \<Rightarrow> json \<Rightarrow> payment_event \<Rightarrow> payment_event option" where
  "decode_member c k v ev =
     (case match_field k of
        None \<Rightarrow> Some ev
      | Some n \<Rightarrow>
          if n = ''event_id'' then decode_string v (\<lambda>s. ev\<lparr>ev_EventID := s\<rparr>) ev
          else if n = ''event_type'' then decode_string v (\<lambda>s. ev\<lparr>ev_EventType := s\<rparr>) ev
          else if n = ''schema_version'' then decode_int64 v (\<lambda>i. ev\<lparr>ev_SchemaVersion := i\<rparr>) ev
          else if n = ''payment_id'' then decode_string v (\<lambda>s. ev\<lparr>ev_PaymentID := s\<rparr>) ev
          else if n = ''idempotency_key'' then decode_string v (\<lambda>s. ev\<lparr>ev_IdempotencyKey := s\<rparr>) ev
          else if n = ''source'' then decode_string v (\<lambda>s. ev\<lparr>ev_Source := s\<rparr>) ev
          else if n = ''external_txn_id'' then decode_string v (\<lambda>s. ev\<lparr>ev_ExternalTxnID := s\<rparr>) ev
          else if n = ''account_id'' then decode_string v (\<lambda>s. ev\<lparr>ev_AccountID := s\<rparr>) ev
          else if n = ''amount_minor'' then decode_int64 v (\<lambda>i. ev\<lparr>ev_AmountMinor := i\<rparr>) ev
          else if n = ''currency'' then decode_string v (\<lambda>s. ev\<lparr>ev_Currency := s\<rparr>) ev
          else if n = ''state'' then decode_string v (\<lambda>s. ev\<lparr>ev_State := s\<rparr>) ev
          else if n = ''created_at'' then decode_created c v ev
          else decode_metadata v ev)"

fun decode_members :: "codec \<Rightarrow> (string \<times> json) list \<Rightarrow> payment_event \<Rightarrow> payment_event option" where
  "decode_members c [] ev = Some ev"
| "decode_members c ((k, v) # ms) ev =
     (case decode_member c k v ev of None \<Rightarrow> None | Some ev' \<Rightarrow> decode_members c ms ev')"

definition UnmarshalEvent :: "codec \<Rightarrow> payload \<Rightarrow> goerr + payment_event" where
  "UnmarshalEvent c p =
     (case p of
        Doc (JObj ms) \<Rightarrow>
          (case decode_members c ms zero_event of
             None \<Rightarrow> Inl (Plain (unmarshal_text c p))
           | Some ev \<Rightarrow> Inr ev)
      | Doc JNull \<Rightarrow> Inr zero_event
      | _ \<Rightarrow> Inl (Plain (unmarshal_text c p)))"

section \<open>Round trip\<close>

lemma match_exact: "k \<in> set event_field_names \<Longrightarrow> match_field k = Some k"
  by (simp add: match_field_def)

lemma decode_strings_of_map:
  "distinct (map fst (m0 @ m)) \<Longrightarrow> decode_strings (map (map_prod id JStr) m) m0 = Some (m0 @ m)"
proof (induction m arbitrary: m0)
  case Nil
  then show ?case by simp
next
  case (Cons kv m)
  obtain k v where kv: "kv = (k, v)" by (cases kv)
  with Cons.prems have "k \<notin> fst ` set m0" by auto
  then have "gput m0 k v = m0 @ [(k, v)]"
    unfolding gput_def by (induction m0) auto
  with Cons kv show ?case by simp
qed

lemma decode_int64_sint: "decode_int64 (JNum (sint i)) upd ev = Some (upd i)"
  by (simp add: decode_int64_def sint_int64_range)

lemmas decode_simps =
  decode_member_def match_exact event_field_names_def decode_string_def decode_int64_sint
  decode_created_def decode_metadata_def

text \<open>Members with different names can be decoded in any order.\<close>

definition field_updates :: "string \<Rightarrow> (payment_event \<Rightarrow> payment_event) set" where
  "field_updates k = insert id
     (if k = ''event_id'' then range (\<lambda>x. ev_EventID_update (\<lambda>_. x))
      else if k = ''event_type'' then range (\<lambda>x. ev_EventType_update (\<lambda>_. x))
      else if k = ''schema_version'' then range (\<lambda>x. ev_SchemaVersion_update (\<lambda>_. x))
      else if k = ''payment_id'' then range (\<lambda>x. ev_PaymentID_update (\<lambda>_. x))
      else if k = ''idempotency_key'' then range (\<lambda>x. ev_IdempotencyKey_update (\<lambda>_. x))
      else if k = ''source'' then range (\<lambda>x. ev_Source_update (\<lambda>_. x))
      else if k = ''external_txn_id'' then range (\<lambda>x. ev_ExternalTxnID_update (\<lambda>_. x))
      else if k = ''account_id'' then range (\<lambda>x. ev_AccountID_update (\<lambda>_. x))
      else if k = ''amount_minor'' then range (\<lambda>x. ev_AmountMinor_update (\<lambda>_. x))
      else if k = ''currency'' then range (\<lambda>x. ev_Currency_update (\<lambda>_. x))
      else if k = ''state'' then range (\<lambda>x. ev_State_update (\<lambda>_. x))
      else range (\<lambda>x. ev_CreatedAt_update (\<lambda>_. x)))"

lemma decode_string_update:
  "range (\<lambda>x ev. upd x ev) \<subseteq> F \<Longrightarrow> id \<in> F \<Longrightarrow>
   (\<forall>ev. decode_string v (\<lambda>s. upd s ev) ev = None) \<or> (\<exists>f \<in> F. \<forall>ev. decode_string v (\<lambda>s. upd s ev) ev = Some (f ev))"
  unfolding decode_string_def by (cases v) (force intro: bexI [of _ id])+

lemma decode_int64_update:
  "range (\<lambda>x ev. upd x ev) \<subseteq> F \<Longrightarrow> id \<in> F \<Longrightarrow>
   (\<forall>ev. decode_int64 v (\<lambda>s. upd s ev) ev = None) \<or> (\<exists>f \<in> F. \<forall>ev. decode_int64 v (\<lambda>s. upd s ev) ev = Some (f ev))"
  unfolding decode_int64_def by (cases v) (force intro: bexI [of _ id])+

lemma decode_created_update:
  "range (\<lambda>x ev. ev\<lparr>ev_CreatedAt := x\<rparr>) \<subseteq> F \<Longrightarrow> id \<in> F \<Longrightarrow>
   (\<forall>ev. decode_created c v ev = None) \<or> (\<exists>f \<in> F. \<forall>ev. decode_created c v ev = Some (f ev))"
proof (cases v)
  case (JStr s)
  then show "range (\<lambda>x ev. ev\<lparr>ev_CreatedAt := x\<rparr>) \<subseteq> F \<Longrightarrow> id \<in> F \<Longrightarrow> ?thesis"
    unfolding decode_created_def by (cases "parse_time c s") force+
qed (auto simp: decode_created_def intro: bexI [of _ id])

lemma field_cases:
  assumes "k \<in> set event_field_names" "k \<noteq> ''metadata''"
  obtains "k = ''event_id''" | "k = ''event_type''" | "k = ''schema_version''" | "k = ''payment_id''"
    | "k = ''idempotency_key''" | "k = ''source''" | "k = ''external_txn_id''" | "k = ''account_id''"
    | "k = ''amount_minor''" | "k = ''currency''" | "k = ''state''" | "k = ''created_at''"
  using assms(1) unfolding event_field_names_def list.set insert_iff empty_iff
  by (elim disjE; (erule that | simp add: assms(2)))

lemma decode_member_at:
  "decode_member c ''event_id'' v ev = decode_string v (\<lambda>s. ev\<lparr>ev_EventID := s\<rparr>) ev"
  "decode_member c ''event_type'' v ev = decode_string v (\<lambda>s. ev\<lparr>ev_EventType := s\<rparr>) ev"
  "decode_member c ''schema_version'' v ev = decode_int64 v (\<lambda>i. ev\<lparr>ev_SchemaVersion := i\<rparr>) ev"
  "decode_member c ''payment_id'' v ev = decode_string v (\<lambda>s. ev\<lparr>ev_PaymentID := s\<rparr>) ev"
  "decode_member c ''idempotency_key'' v ev = decode_string v (\<lambda>s. ev\<lparr>ev_IdempotencyKey := s\<rparr>) ev"
  "decode_member c ''source'' v ev = decode_string v (\<lambda>s. ev\<lparr>ev_Source := s\<rparr>) ev"
  "decode_member c ''external_txn_id'' v ev = decode_string v (\<lambda>s. ev\<lparr>ev_ExternalTxnID := s\<rparr>) ev"
  "decode_member c ''account_id'' v ev = decode_string v (\<lambda>s. ev\<lparr>ev_AccountID := s\<rparr>) ev"
  "decode_member c ''amount_minor'' v ev = decode_int64 v (\<lambda>i. ev\<lparr>ev_AmountMinor := i\<rparr>) ev"
  "decode_member c ''currency'' v ev = decode_string v (\<lambda>s. ev\<lparr>ev_Currency := s\<rparr>) ev"
  "decode_member c ''state'' v ev = decode_string v (\<lambda>s. ev\<lparr>ev_State := s\<rparr>) ev"
  "decode_member c ''created_at'' v ev = decode_created c v ev"
  by (simp_all add: decode_member_def match_exact event_field_names_def)

lemma field_updates_at:
  "field_updates ''event_id'' = insert id (range (\<lambda>x. ev_EventID_update (\<lambda>_. x)))"
  "field_updates ''event_type'' = insert id (range (\<lambda>x. ev_EventType_update (\<lambda>_. x)))"
  "field_updates ''schema_version'' = insert id (range (\<lambda>x. ev_SchemaVersion_update (\<lambda>_. x)))"
  "field_updates ''payment_id'' = insert id (range (\<lambda>x. ev_PaymentID_update (\<lambda>_. x)))"
  "field_updates ''idempotency_key'' = insert id (range (\<lambda>x. ev_IdempotencyKey_update (\<lambda>_. x)))"
  "field_updates ''source'' = insert id (range (\<lambda>x. ev_Source_update (\<lambda>_. x)))"
  "field_updates ''external_txn_id'' = insert id (range (\<lambda>x. ev_ExternalTxnID_update (\<lambda>_. x)))"
  "field_updates ''account_id'' = insert id (range (\<lambda>x. ev_AccountID_update (\<lambda>_. x)))"
  "field_updates ''amount_minor'' = insert id (range (\<lambda>x. ev_AmountMinor_update (\<lambda>_. x)))"
  "field_updates ''currency'' = insert id (range (\<lambda>x. ev_Currency_update (\<lambda>_. x)))"
  "field_updates ''state'' = insert id (range (\<lambda>x. ev_State_update (\<lambda>_. x)))"
  "field_updates ''created_at'' = insert id (range (\<lambda>x. ev_CreatedAt_update (\<lambda>_. x)))"
  by (simp_all add: field_updates_def)

lemma decode_member_updates:
  assumes "k \<in> set event_field_names" "k \<noteq> ''metadata''"
  shows "(\<forall>ev. decode_member c k v ev = None) \<or> (\<exists>f \<in> field_updates k. \<forall>ev. decode_member c k v ev = Some (f ev))"
  by (rule field_cases [OF assms]; hypsubst; unfold decode_member_at field_updates_at;
      rule decode_string_update decode_int64_update decode_created_update; rule subset_insertI insertI1)

lemma field_updates_commute:
  assumes "f \<in> field_updates k" "g \<in> field_updates k'" "k \<noteq> k'" "k \<in> set event_field_names"
    "k' \<in> set event_field_names" "k \<noteq> ''metadata''" "k' \<noteq> ''metadata''"
  shows "f (g ev) = g (f ev)"
  by (insert assms(1-3), rule field_cases [OF assms(4,6)]; rule field_cases [OF assms(5,7)]; hypsubst;
      (erule notE, rule refl | simp only: field_updates_at; elim insertE rangeE; simp))

lemma decode_metadata_update:
  assumes "f \<in> field_updates k"
  shows "decode_metadata v (f ev) = map_option f (decode_metadata v ev)"
proof -
  have "ev_Metadata (f ev) = ev_Metadata ev" "(f ev)\<lparr>ev_Metadata := x\<rparr> = f (ev\<lparr>ev_Metadata := x\<rparr>)" for x
    using assms unfolding field_updates_def by (auto split: if_splits)
  then show ?thesis by (auto simp: decode_metadata_def option.map_comp comp_def split: json.split)
qed

lemma decode_member_metadata: "decode_member c ''metadata'' v = decode_metadata v"
  by (simp add: fun_eq_iff decode_member_def match_exact event_field_names_def)

lemma decode_metadata_commutes:
  assumes "k \<in> set event_field_names" "k \<noteq> ''metadata''"
  shows "Option.bind (decode_member c k v ev) (decode_metadata v') =
    Option.bind (decode_metadata v' ev) (decode_member c k v)"
  using decode_member_updates [OF assms, of c v]
proof (elim disjE bexE)
  fix f assume "f \<in> field_updates k" "\<forall>ev. decode_member c k v ev = Some (f ev)"
  then show ?thesis by (simp add: decode_metadata_update) (cases "decode_metadata v' ev"; simp)
qed (cases "decode_metadata v' ev"; simp)

lemma decode_member_commutes:
  assumes "k \<in> set event_field_names" "k' \<in> set event_field_names" "k \<noteq> k'"
  shows "Option.bind (decode_member c k v ev) (decode_member c k' v') =
    Option.bind (decode_member c k' v' ev) (decode_member c k v)"
proof (cases "k = ''metadata'' \<or> k' = ''metadata''")
  case True
  with assms decode_metadata_commutes show ?thesis by (metis decode_member_metadata)
next
  case False
  then have names: "k \<noteq> ''metadata''" "k' \<noteq> ''metadata''" by simp_all
  from decode_member_updates [OF assms(1) names(1), of c v] decode_member_updates [OF assms(2) names(2), of c v']
  show ?thesis
    by (elim disjE bexE) (simp_all add: field_updates_commute [OF _ _ assms(3,1,2) names])
qed

lemma decode_members_fold:
  "Option.bind x (decode_members c ms) = fold (\<lambda>m y. Option.bind y (decode_member c (fst m) (snd m))) ms x"
proof (induction ms arbitrary: x)
  case Nil
  show ?case by (cases x) auto
next
  case (Cons m ms)
  have "Option.bind x (decode_members c (m # ms)) =
      Option.bind (Option.bind x (decode_member c (fst m) (snd m))) (decode_members c ms)"
    by (cases m; cases x) (auto split: option.splits)
  with Cons show ?case by simp
qed

lemma decode_members_permuted:
  assumes "mset ms = mset ms'" "distinct (map fst ms)" "fst ` set ms \<subseteq> set event_field_names"
  shows "decode_members c ms ev = decode_members c ms' ev"
proof -
  let ?f = "\<lambda>m y. Option.bind y (decode_member c (fst m) (snd m))"
  have "fold ?f ms = fold ?f ms'"
  proof (rule fold_multiset_equiv [OF _ assms(1)])
    fix x y assume xy: "x \<in> set ms" "y \<in> set ms"
    show "?f x \<circ> ?f y = ?f y \<circ> ?f x"
    proof (cases "x = y")
      case False
      with xy assms(2) have "fst x \<noteq> fst y" by (metis distinct_map inj_onD)
      moreover have "fst x \<in> set event_field_names" "fst y \<in> set event_field_names" using xy assms(3) by auto
      ultimately have "?f x (?f y z) = ?f y (?f x z)" for z
        by (cases z) (simp_all add: decode_member_commutes [of "fst y" "fst x"])
      then show ?thesis by (simp add: fun_eq_iff)
    qed simp
  qed
  then have "Option.bind (Some ev) (decode_members c ms) = Option.bind (Some ev) (decode_members c ms')"
    unfolding decode_members_fold by simp
  then show ?thesis by simp
qed

text \<open>What \<open>MarshalEvent\<close> writes before the metadata.\<close>

definition plain_members :: "string \<Rightarrow> payment_event \<Rightarrow> (string \<times> json) list" where
  "plain_members created ev =
     [(''event_id'', JStr (ev_EventID ev)), (''event_type'', JStr (ev_EventType ev)),
      (''schema_version'', JNum (sint (ev_SchemaVersion ev))), (''payment_id'', JStr (ev_PaymentID ev)),
      (''idempotency_key'', JStr (ev_IdempotencyKey ev)), (''source'', JStr (ev_Source ev))] @
     (if ev_ExternalTxnID ev = [] then [] else [(''external_txn_id'', JStr (ev_ExternalTxnID ev))]) @
     [(''account_id'', JStr (ev_AccountID ev)), (''amount_minor'', JNum (sint (ev_AmountMinor ev))),
      (''currency'', JStr (ev_Currency ev)), (''state'', JStr (ev_State ev)), (''created_at'', JStr created)]"

lemma MarshalEvent_members:
  "MarshalEvent c ev = Inr j \<longleftrightarrow>
     (\<exists>s. fmt_time c (ev_CreatedAt ev) = Some s \<and> j = JObj (plain_members s ev @ metadata_members (ev_Metadata ev)))"
  by (auto simp: MarshalEvent_def plain_members_def split: option.split)

lemma plain_members_jsonb: "map (map_prod id (jsonb rank)) (plain_members s ev) = plain_members s ev"
  by (simp add: plain_members_def)

lemma event_member_names:
  "distinct (map fst (plain_members s ev @ metadata_members md))"
  "fst ` set (plain_members s ev @ metadata_members md) \<subseteq> set event_field_names"
  by (auto simp: plain_members_def metadata_members_def event_field_names_def split: option.split)

text \<open>A consumer reads from a \<open>JSONB\<close> column what it would read from the members in their order.\<close>

lemma unmarshal_jsonb:
  "UnmarshalEvent c (Doc (jsonb rank (JObj (plain_members s ev @ metadata_members md)))) =
    (case decode_members c (plain_members s ev @ map (map_prod id (jsonb rank)) (metadata_members md)) zero_event of
       None \<Rightarrow> Inl (Plain (unmarshal_text c (Doc (jsonb rank (JObj (plain_members s ev @ metadata_members md))))))
     | Some ev' \<Rightarrow> Inr ev')"
proof -
  let ?ms = "plain_members s ev @ map (map_prod id (jsonb rank)) (metadata_members md)"
  have names: "map fst ?ms = map fst (plain_members s ev @ metadata_members md)" by simp
  then have distinct: "distinct (map fst ?ms)" and known: "fst ` set ?ms \<subseteq> set event_field_names"
    using event_member_names [of s ev md] by (metis, metis list.set_map)
  have "jsonb rank (JObj (plain_members s ev @ metadata_members md)) =
      JObj (sort_key (\<lambda>m. rank (fst m)) ?ms)"
    using distinct by (simp add: jsonb_object plain_members_jsonb last_members_distinct)
  moreover have "decode_members c (sort_key (\<lambda>m. rank (fst m)) ?ms) zero_event = decode_members c ?ms zero_event"
    by (rule sym, rule decode_members_permuted [OF _ distinct known]) simp
  ultimately show ?thesis
    by (cases "decode_members c ?ms zero_event") (simp_all add: UnmarshalEvent_def)
qed

lemma decode_members_append:
  "decode_members c (xs @ ys) ev = Option.bind (decode_members c xs ev) (decode_members c ys)"
  by (induction xs arbitrary: ev) (auto split: option.splits)

text \<open>
  The metadata a consumer reads: a nil and an empty map are both omitted, so both come back as nil; the
  entries of another map come back in the order of the encoder and of the column.
\<close>

definition stored_map :: "(string \<Rightarrow> nat) \<Rightarrow> gomap \<Rightarrow> gomap" where
  "stored_map rank m = sort_key (\<lambda>kv. rank (fst kv)) (sort_key fst m)"

definition stored_metadata :: "(string \<Rightarrow> nat) \<Rightarrow> gomap option \<Rightarrow> gomap option" where
  "stored_metadata rank md = (if md = Some [] then None else map_option (stored_map rank) md)"

lemma stored_map_same:
  assumes "distinct (map fst m)"
  shows "distinct (map fst (stored_map rank m))" "map_of (stored_map rank m) = map_of m"
proof -
  have "distinct (map fst (sort_key f xs))" if "distinct (map fst xs)" for f and xs :: gomap
    using that by (simp add: distinct_map)
  from this this show distinct: "distinct (map fst (stored_map rank m))"
    unfolding stored_map_def using assms by blast
  have "set (stored_map rank m) = set m" by (simp add: stored_map_def)
  with distinct assms show "map_of (stored_map rank m) = map_of m" by (metis map_of_inject_set)
qed

lemma metadata_members_jsonb:
  assumes "\<forall>m. md = Some m \<longrightarrow> distinct (map fst m)"
  shows "map (map_prod id (jsonb rank)) (metadata_members md) =
    (case stored_metadata rank md of None \<Rightarrow> [] | Some m \<Rightarrow> [(''metadata'', JObj (map (map_prod id JStr) m))])"
proof (cases md)
  case (Some m)
  let ?ms = "map (map_prod id JStr) (sort_key fst m)"
  have "map (map_prod id (jsonb rank)) ?ms = ?ms" by (auto simp: comp_def)
  moreover have "distinct (map fst ?ms)"
    using assms Some by (simp add: distinct_map comp_def)
  ultimately have "jsonb rank (JObj ?ms) = JObj (map (map_prod id JStr) (stored_map rank m))"
    by (simp only: jsonb_object last_members_distinct sort_members stored_map_def)
  then show ?thesis
    using Some by (simp add: metadata_members_def stored_metadata_def)
qed (simp add: metadata_members_def stored_metadata_def)

lemma decode_stored_metadata:
  assumes "\<forall>m. md = Some m \<longrightarrow> distinct (map fst m)" "ev_Metadata ev = None"
  shows "decode_members c (map (map_prod id (jsonb rank)) (metadata_members md)) ev =
    Some (ev\<lparr>ev_Metadata := stored_metadata rank md\<rparr>)"
proof (cases "stored_metadata rank md")
  case None
  with assms show ?thesis by (simp add: metadata_members_jsonb)
next
  case (Some m)
  then have "distinct (map fst m)"
    using assms(1) stored_map_same by (auto simp: stored_metadata_def split: if_splits)
  with decode_strings_of_map [of "[]" m] Some assms show ?thesis
    by (simp add: metadata_members_jsonb decode_simps)
qed

text \<open>Whatever the texts of times are read back to, the fields other than the time and the metadata
  survive.\<close>

lemma decode_metadata_only:
  assumes "decode_members c (map (map_prod id f) (metadata_members md)) ev = Some ev'"
  shows "\<exists>m. ev' = ev\<lparr>ev_Metadata := m\<rparr>"
proof -
  have "\<exists>m. ev = ev\<lparr>ev_Metadata := m\<rparr>" by (rule exI [of _ "ev_Metadata ev"]) simp
  with assms show ?thesis
    by (auto simp: metadata_members_def decode_simps split: option.splits if_splits json.splits)
qed

lemma decode_plain_members:
  "decode_members c (plain_members s ev) zero_event =
     map_option (\<lambda>t. ev\<lparr>ev_CreatedAt := t, ev_Metadata := None\<rparr>) (parse_time c s)"
  by (cases "ev_ExternalTxnID ev = []")
    (auto simp: plain_members_def decode_simps zero_event_def split: option.split)

lemma event_fields_survive:
  assumes "MarshalEvent c ev = Inr j" "UnmarshalEvent c (Doc (jsonb rank j)) = Inr ev'"
  shows "ev_PaymentID ev' = ev_PaymentID ev \<and> ev_AccountID ev' = ev_AccountID ev \<and>
    ev_AmountMinor ev' = ev_AmountMinor ev \<and> ev_Currency ev' = ev_Currency ev \<and>
    ev_State ev' = ev_State ev \<and> ev_IdempotencyKey ev' = ev_IdempotencyKey ev"
  using assms
  by (auto simp: MarshalEvent_members unmarshal_jsonb decode_members_append decode_plain_members
      bind_eq_Some_conv split: option.splits dest!: decode_metadata_only)

lemma event_decoded:
  assumes time: "\<And>s. fmt_time c (ev_CreatedAt ev) = Some s \<Longrightarrow> parse_time c s = Some (ev_CreatedAt ev)"
    and map: "\<And>m. ev_Metadata ev = Some m \<Longrightarrow> distinct (map fst m)"
    and enc: "MarshalEvent c ev = Inr j"
  shows "UnmarshalEvent c (Doc (jsonb rank j)) = Inr (ev\<lparr>ev_Metadata := stored_metadata rank (ev_Metadata ev)\<rparr>)"
  using enc time map
  by (auto simp: MarshalEvent_members unmarshal_jsonb decode_members_append decode_plain_members decode_stored_metadata)

text \<open>
  C26. What the intake server encodes, the consumers decode, also after the event has passed through the
  \<open>JSONB\<close> column of the outbox, in whatever order the server gives the members back: every field of the event
  comes back unchanged, the metadata as a map with the same entries, or nil where it was empty. The hypotheses are
  that the text of the creation time is read back to the same instant, and that the metadata is a map
  (no key twice).
\<close>

theorem event_roundtrip:
  assumes time: "\<And>s. fmt_time c (ev_CreatedAt ev) = Some s \<Longrightarrow> parse_time c s = Some (ev_CreatedAt ev)"
    and map: "\<And>m. ev_Metadata ev = Some m \<Longrightarrow> distinct (map fst m)"
    and enc: "MarshalEvent c ev = Inr j"
  shows "\<exists>md. UnmarshalEvent c (Doc (jsonb rank j)) = Inr (ev\<lparr>ev_Metadata := md\<rparr>) \<and>
    (md = None \<longleftrightarrow> ev_Metadata ev = None \<or> ev_Metadata ev = Some []) \<and>
    (\<forall>m m'. ev_Metadata ev = Some m \<longrightarrow> md = Some m' \<longrightarrow> distinct (map fst m') \<and> map_of m' = map_of m)"
  using event_decoded [OF assms] map stored_map_same
  by (intro exI [of _ "stored_metadata rank (ev_Metadata ev)"]) (auto simp: stored_metadata_def)

definition sample_codec :: codec where
  "sample_codec =
     \<lparr>fmt_time = (\<lambda>t. Some (show_int t)),
      parse_time = (\<lambda>s. case ParseInt s of Inl _ \<Rightarrow> None | Inr i \<Rightarrow> Some (sint i)),
      unmarshal_text = (\<lambda>_. ''invalid JSON''), marshal_text = (\<lambda>_. ''invalid JSON'')\<rparr>"

lemma sample_codec_time: "in_int64 t \<Longrightarrow>
  fmt_time sample_codec t = Some s \<Longrightarrow> parse_time sample_codec s = Some t"
  by (auto simp: sample_codec_def ParseInt_show_int sint_of_int64)

definition sample_event :: payment_event where
  "sample_event = zero_event\<lparr>ev_EventID := ''e'', ev_PaymentID := ''p'', ev_AmountMinor := - 5,
     ev_CreatedAt := 7, ev_Metadata := Some [(''channel'', ''web''), (''ip'', ''10'')]\<rparr>"

theorem event_roundtrip_witness:
  "\<exists>j md. MarshalEvent sample_codec sample_event = Inr j \<and> md \<noteq> None \<and>
     UnmarshalEvent sample_codec (Doc (jsonb length j)) = Inr (sample_event\<lparr>ev_Metadata := md\<rparr>)"
proof -
  obtain j where j: "MarshalEvent sample_codec sample_event = Inr j"
    by (simp add: MarshalEvent_def sample_codec_def)
  have "\<exists>md. UnmarshalEvent sample_codec (Doc (jsonb length j)) = Inr (sample_event\<lparr>ev_Metadata := md\<rparr>) \<and>
    (md = None \<longleftrightarrow> ev_Metadata sample_event = None \<or> ev_Metadata sample_event = Some []) \<and>
    (\<forall>m m'. ev_Metadata sample_event = Some m \<longrightarrow> md = Some m' \<longrightarrow>
       distinct (map fst m') \<and> map_of m' = map_of m)"
    by (rule event_roundtrip [OF _ _ j])
      (auto intro!: sample_codec_time simp: sample_event_def int64_bounds)
  with j show ?thesis by (auto simp: sample_event_def)
qed

end
