(* ===== verification/Database.thy ===== *)
theory Database
  imports Event
begin

text \<open>
  The state the processes share: the Postgres tables of \<open>internal/store/migrations\<close>, the Kafka
  log, and what the environment does to the next call.

  \<^item> A table is the list of its rows in insertion order; the constraints of the migrations (primary
    keys, unique indexes, column types) are checked by the statements that insert. Surrogate keys
    the code never reads are left out; \<open>outbox.id\<close>, which the relay orders by, is kept with its
    sequence, which a rollback does not turn back.
  \<^item> What the server's types do to a value is a parameter (\<open>pgtypes\<close>): parsing a \<open>UUID\<close>, padding or
    refusing a \<open>CHAR(3)\<close>, the resolution of a \<open>TIMESTAMPTZ\<close>, the collation key of a \<open>TEXT\<close>, the order of
    the members of a \<open>JSONB\<close>, and the messages of its errors. Text that no column can hold (the character
    U+0000, or too much of it) is a call that the server refuses, one of the outcomes below.
  \<^item> Every call that leaves the process takes the next entry of \<open>script\<close>: \<open>Done\<close> performs it,
    \<open>Refused\<close> fails it without effect, \<open>Lost\<close> performs it and reports a failure (a broken
    connection after the server acted). An empty script means no failures. Theorems over all
    scripts therefore cover every pattern of failures.
  \<^item> A transaction is a working copy of the world; \<open>tx_commit\<close> and \<open>tx_rollback\<close> decide which
    copy survives.
\<close>

section \<open>Rows\<close>

record outbox_row =
  ob_id :: int
  ob_aggregate_id :: string
  ob_topic :: string
  ob_partition_key :: string
  ob_payload :: json
  ob_created_at :: time
  ob_published_at :: "time option"

record ledger_row =
  lg_payment_id :: string
  lg_account :: string
  lg_direction :: string
  lg_amount_minor :: int64
  lg_currency :: string

record transition_row =
  tr_payment_id :: string
  tr_from :: state
  tr_to :: state
  tr_at :: time

record batch_row =
  bt_ID :: string
  bt_AccountID :: string
  bt_Currency :: string
  bt_WindowStart :: time
  bt_WindowEnd :: time
  bt_TotalMinor :: int64
  bt_TxnCount :: int
  bt_Status :: string
  bt_CreatedAt :: time

record score_row =
  sc_payment_id :: string
  sc_account_id :: string
  sc_score :: int
  sc_risk_level :: string
  sc_signals :: json

record kafka_record =
  kr_topic :: string
  kr_key :: string
  kr_value :: payload

section \<open>The world\<close>

datatype outcome = Done | Refused string | Lost string

record world =
  txns :: "transaction list"
  outbox :: "outbox_row list"
  outbox_seq :: int
  ledger :: "ledger_row list"
  transitions :: "transition_row list"
  batches :: "batch_row list"
  scores :: "score_row list"
  klog :: "kafka_record list"
  script :: "outcome list"

definition empty_world :: world where
  "empty_world =
     \<lparr>txns = [], outbox = [], outbox_seq = 1, ledger = [], transitions = [], batches = [],
      scores = [], klog = [], script = []\<rparr>"

text \<open>What another process can see of the world: everything but the failures to come and the
  sequence, whose gaps no query shows.\<close>

definition visible :: "world \<Rightarrow> world" where
  "visible w = w\<lparr>script := [], outbox_seq := 0\<rparr>"

definition pop :: "world \<Rightarrow> outcome \<times> world" where
  "pop w = (case script w of [] \<Rightarrow> (Done, w) | x # xs \<Rightarrow> (x, w\<lparr>script := xs\<rparr>))"

definition call :: "(world \<Rightarrow> goerr + 'a \<times> world) \<Rightarrow> world \<Rightarrow> (goerr + 'a) \<times> world" where
  "call eff w =
     (case pop w of
        (Done, w1) \<Rightarrow> (case eff w1 of Inl e \<Rightarrow> (Inl e, w1) | Inr (x, w2) \<Rightarrow> (Inr x, w2))
      | (Refused t, w1) \<Rightarrow> (Inl (Plain t), w1)
      | (Lost t, w1) \<Rightarrow>
          (Inl (Plain t), case eff w1 of Inl e \<Rightarrow> w1 | Inr (x, w2) \<Rightarrow> w2))"

section \<open>Transactions\<close>

text \<open>\<open>base\<close> is the world as other processes see it, \<open>work\<close> the world inside the transaction.\<close>

definition tx_begin :: "world \<Rightarrow> (goerr + unit) \<times> world" where
  "tx_begin = call (\<lambda>w. Inr ((), w))"

definition tx_rollback :: "world \<Rightarrow> world \<Rightarrow> world" where
  "tx_rollback base work = base\<lparr>script := script work, outbox_seq := outbox_seq work\<rparr>"

definition tx_commit :: "world \<Rightarrow> world \<Rightarrow> goerr option \<times> world" where
  "tx_commit base work =
     (case pop work of
        (Done, w) \<Rightarrow> (None, w)
      | (Refused t, w) \<Rightarrow> (Some (Plain t), tx_rollback base w)
      | (Lost t, w) \<Rightarrow> (Some (Plain t), w))"

section \<open>Column types and constraints\<close>

datatype sql_reject =
    BadUuid string
  | BadChar3 string
  | BadJson payload
  | NullValue string
  | DuplicateKey string

record pgtypes =
  uuid_in :: "string \<Rightarrow> string option"
  char3_in :: "string \<Rightarrow> string option"
  ts_in :: "time \<Rightarrow> time"
  collate :: "string \<Rightarrow> string"
  member_rank :: "string \<Rightarrow> nat"
  reject_text :: "sql_reject \<Rightarrow> string"

definition reject :: "pgtypes \<Rightarrow> sql_reject \<Rightarrow> goerr + 'a" where
  "reject pg r = Inl (Plain (reject_text pg r))"

text \<open>The values of an inserted or compared \<open>UUID\<close> column.\<close>

definition as_uuid :: "pgtypes \<Rightarrow> string \<Rightarrow> goerr + string" where
  "as_uuid pg s = (case uuid_in pg s of None \<Rightarrow> reject pg (BadUuid s) | Some u \<Rightarrow> Inr u)"

definition as_char3 :: "pgtypes \<Rightarrow> string \<Rightarrow> goerr + string" where
  "as_char3 pg s = (case char3_in pg s of None \<Rightarrow> reject pg (BadChar3 s) | Some c \<Rightarrow> Inr c)"

definition as_jsonb :: "pgtypes \<Rightarrow> payload \<Rightarrow> goerr + json" where
  "as_jsonb pg p =
     (case p of
        Doc j \<Rightarrow> Inr (jsonb (member_rank pg) j)
      | NilBytes \<Rightarrow> reject pg (NullValue ''payload'')
      | NotJson s \<Rightarrow> reject pg (BadJson p))"

section \<open>Calls and scripts\<close>

lemma pop_nil: "script w = [] \<Longrightarrow> pop w = (Done, w)"
  by (simp add: pop_def)

lemma pop_world: "pop w = (x, w1) \<Longrightarrow> \<exists>s. w1 = w\<lparr>script := s\<rparr>"
  by (cases "script w") (auto simp: pop_def intro: exI [of _ "script w"])

lemma call_nil: "script w = [] \<Longrightarrow>
  call eff w = (case eff w of Inl e \<Rightarrow> (Inl e, w) | Inr (x, w2) \<Rightarrow> (Inr x, w2))"
  by (simp add: call_def pop_nil)

text \<open>A call either has its effect or leaves the world alone, and a success means the effect.\<close>

lemma call_cases:
  assumes "call eff w = (r, w')"
  obtains (effect) x s where "eff (w\<lparr>script := s\<rparr>) = Inr (x, w')"
      "r = Inr x \<or> (\<exists>e. r = Inl e)"
    | (nothing) e s where "r = Inl e" "w' = w\<lparr>script := s\<rparr>"
proof -
  obtain x w1 where p: "pop w = (x, w1)" by (cases "pop w")
  then obtain s where s: "w1 = w\<lparr>script := s\<rparr>" by (auto dest: pop_world)
  show ?thesis
  proof (cases "eff w1")
    case (Inl e)
    with assms p have "w' = w1 \<and> (\<exists>e'. r = Inl e')"
      by (cases x) (auto simp: call_def)
    then obtain e' where "r = Inl e'" "w' = w\<lparr>script := s\<rparr>" using s by auto
    then show ?thesis by (rule nothing)
  next
    case (Inr yw)
    obtain y w2 where yw: "yw = (y, w2)" by (cases yw)
    have eff: "eff (w\<lparr>script := s\<rparr>) = Inr (y, w2)" using Inr yw s by simp
    show ?thesis
    proof (cases x)
      case Done
      with assms p Inr yw have "w' = w2" "r = Inr y" by (simp_all add: call_def)
      with eff have "eff (w\<lparr>script := s\<rparr>) = Inr (y, w')" "r = Inr y \<or> (\<exists>e. r = Inl e)"
        by simp_all
      then show ?thesis by (rule effect)
    next
      case (Refused t)
      with assms p Inr yw have "w' = w1" "r = Inl (Plain t)" by (simp_all add: call_def)
      with s have "r = Inl (Plain t)" "w' = w\<lparr>script := s\<rparr>" by simp_all
      then show ?thesis by (rule nothing)
    next
      case (Lost t)
      with assms p Inr yw have "w' = w2" "r = Inl (Plain t)" by (simp_all add: call_def)
      with eff have "eff (w\<lparr>script := s\<rparr>) = Inr (y, w')" "r = Inr y \<or> (\<exists>e. r = Inl e)"
        by simp_all
      then show ?thesis by (rule effect)
    qed
  qed
qed

lemma call_success:
  assumes "call eff w = (Inr x, w')"
  obtains s where "eff (w\<lparr>script := s\<rparr>) = Inr (x, w')"
proof -
  obtain y w1 where p: "pop w = (y, w1)" by (cases "pop w")
  then obtain s where "w1 = w\<lparr>script := s\<rparr>" by (auto dest: pop_world)
  with p assms that show ?thesis
    unfolding call_def by (cases y) (auto split: sum.splits prod.splits)
qed

lemma tx_begin_world: "tx_begin w = (r, w') \<Longrightarrow> \<exists>s. w' = w\<lparr>script := s\<rparr>"
  unfolding tx_begin_def by (erule call_cases) auto

lemma tx_commit_cases:
  assumes "tx_commit base work = (r, w')"
  obtains (committed) s where "w' = work\<lparr>script := s\<rparr>"
    | (aborted) s where "w' = tx_rollback base (work\<lparr>script := s\<rparr>)" "r \<noteq> None"
proof -
  obtain x w where p: "pop work = (x, w)" by (cases "pop work")
  then obtain s where "w = work\<lparr>script := s\<rparr>" by (auto dest: pop_world)
  with assms p committed aborted show ?thesis
    unfolding tx_commit_def by (cases x) auto
qed

lemma tx_commit_None:
  assumes "tx_commit base work = (None, w')"
  obtains s where "w' = work\<lparr>script := s\<rparr>"
  using assms by (cases rule: tx_commit_cases) auto

lemma visible_script [simp]: "visible (w\<lparr>script := s\<rparr>) = visible w"
  by (simp add: visible_def)

lemma visible_seq [simp]: "visible (w\<lparr>outbox_seq := n\<rparr>) = visible w"
  by (simp add: visible_def)

lemma visible_rollback [simp]: "visible (tx_rollback base work) = visible base"
  by (simp add: tx_rollback_def visible_def)

section \<open>Steps that change no table\<close>

text \<open>
  \<open>idle w w'\<close>: nothing another process can see has changed, entries of the script may be used up
  and numbers of the sequence may be lost.
\<close>

definition idle :: "world \<Rightarrow> world \<Rightarrow> bool" where
  "idle w w' \<longleftrightarrow> (\<exists>s n. outbox_seq w \<le> n \<and> w' = w\<lparr>script := s, outbox_seq := n\<rparr>)"

lemma idleI: "outbox_seq w \<le> n \<Longrightarrow> idle w (w\<lparr>script := s, outbox_seq := n\<rparr>)"
  unfolding idle_def by blast

lemma idleE:
  assumes "idle w w'"
  obtains s n where "outbox_seq w \<le> n" "w' = w\<lparr>script := s, outbox_seq := n\<rparr>"
  using assms unfolding idle_def by blast

lemma idle_script [simp]: "idle w (w\<lparr>script := s\<rparr>)"
  using idleI [of w "outbox_seq w" s] by simp

lemma idle_refl [simp]: "idle w w"
  using idle_script [of w "script w"] by simp

lemma idle_trans: "idle w1 w2 \<Longrightarrow> idle w2 w3 \<Longrightarrow> idle w1 w3"
  by (elim idleE) (simp add: idleI)

lemma idle_visible: "idle w w' \<Longrightarrow> visible w' = visible w"
  by (elim idleE) simp

lemma idle_tables:
  assumes "idle w w'"
  shows "txns w' = txns w" "outbox w' = outbox w" "ledger w' = ledger w"
    "transitions w' = transitions w" "batches w' = batches w" "scores w' = scores w"
    "klog w' = klog w"
  using assms by (auto elim!: idleE)

lemma idle_rollback: "idle w base \<Longrightarrow> outbox_seq base \<le> outbox_seq work \<Longrightarrow>
  idle w (tx_rollback base work)"
  by (elim idleE) (simp add: idleI tx_rollback_def)

lemma tx_begin_idle: "tx_begin w = (r, w') \<Longrightarrow> idle w w'"
  by (auto dest: tx_begin_world)

lemma call_seq:
  assumes "call eff w = (r, w')"
    and "\<And>w1 x w2. eff w1 = Inr (x, w2) \<Longrightarrow> outbox_seq w1 \<le> outbox_seq w2"
  shows "outbox_seq w \<le> outbox_seq w'"
  using assms(1)
proof (cases rule: call_cases)
  case (effect x s)
  from assms(2) [OF effect(1)] show ?thesis by simp
next
  case (nothing e s)
  then show ?thesis by simp
qed

section \<open>Invariants of the world\<close>

text \<open>
  An invariant that looks at the tables only: it ignores the script and survives a gap in the
  sequence. Calls, rollbacks and commits keep it as soon as the effects do.
\<close>

locale world_invariant =
  fixes I :: "world \<Rightarrow> bool"
  assumes script_blind [simp]: "I (w\<lparr>script := s\<rparr>) \<longleftrightarrow> I w"
    and seq_up: "I w \<Longrightarrow> outbox_seq w \<le> n \<Longrightarrow> I (w\<lparr>outbox_seq := n\<rparr>)"
begin

lemma idle_keeps: "idle w w' \<Longrightarrow> I w \<Longrightarrow> I w'"
proof (elim idleE)
  fix s n
  assume "I w" "outbox_seq w \<le> n" "w' = w\<lparr>script := s, outbox_seq := n\<rparr>"
  then have "w' = (w\<lparr>outbox_seq := n\<rparr>)\<lparr>script := s\<rparr>" by simp
  with \<open>I w\<close> \<open>outbox_seq w \<le> n\<close> show "I w'" by (simp only: script_blind seq_up)
qed

lemma call_keeps:
  assumes "call eff w = (r, w')" "I w"
    and "\<And>w1 x w2. I w1 \<Longrightarrow> eff w1 = Inr (x, w2) \<Longrightarrow> I w2"
  shows "I w'"
  using assms(1)
proof (cases rule: call_cases)
  case (effect x s)
  with assms(2,3) show ?thesis by (metis script_blind)
next
  case (nothing e s)
  with assms(2) show ?thesis by simp
qed

lemma begin_keeps: "tx_begin w = (r, w') \<Longrightarrow> I w \<Longrightarrow> I w'"
  by (auto dest!: tx_begin_world)

lemma rollback_keeps:
  assumes "I base" "outbox_seq base \<le> outbox_seq work"
  shows "I (tx_rollback base work)"
proof -
  have "tx_rollback base work = (base\<lparr>outbox_seq := outbox_seq work\<rparr>)\<lparr>script := script work\<rparr>"
    by (simp add: tx_rollback_def)
  with assms show ?thesis by (simp add: seq_up)
qed

lemma commit_keeps:
  assumes "tx_commit base work = (r, w')" "I base" "I work"
    and "outbox_seq base \<le> outbox_seq work"
  shows "I w'"
  using assms(1)
proof (cases rule: tx_commit_cases)
  case (committed s)
  with assms(3) show ?thesis by simp
next
  case (aborted s)
  with assms(2,4) show ?thesis by (simp add: rollback_keeps)
qed

end

end
