(* ===== verification/Interleaving.thy ===== *)
theory Interleaving
  imports Main
begin

text \<open>
  Processes that run at the same time. A program is a tree of atomic actions; between two actions of
  one thread every other thread may act, a thread may be started, may die or may be finished, and the
  environment may change what it owns.

  \<^item> \<open>run_prog\<close> runs a program alone: it is what ties a program to the operation it splits up.
  \<^item> Threads hold locks. An action that would take a lock another thread holds has to wait; a thread that
    dies gives its locks back, as the database does when a connection is lost.
  \<^item> The locale \<open>relying\<close> has the rules for one thread, and \<open>rely_guarantee\<close> proves once that what
    every thread guarantees, relying on the others, is an invariant of the whole system.
\<close>

section \<open>Programs\<close>

datatype 'k locking = Keep | Acquire 'k | Release

datatype ('s, 'k, 'a) prog =
    Ret 'a
  | Act "'s \<Rightarrow> 's \<times> 'k locking \<times> ('s, 'k, 'a) prog"

primrec run_prog :: "('s, 'k, 'a) prog \<Rightarrow> 's \<Rightarrow> 'a \<times> 's" where
  "run_prog (Ret x) = (\<lambda>s. (x, s))"
| "run_prog (Act f) = (\<lambda>s. case map_prod id (map_prod id run_prog) (f s) of (s', l, r) \<Rightarrow> r s')"

primrec and_then :: "('s, 'k, 'a) prog \<Rightarrow> ('a \<Rightarrow> ('s, 'k, 'b) prog) \<Rightarrow> ('s, 'k, 'b) prog" where
  "and_then (Ret x) = (\<lambda>g. g x)"
| "and_then (Act f) = (\<lambda>g. Act (\<lambda>s.
     case map_prod id (map_prod id and_then) (f s) of (s', l, q) \<Rightarrow> (s', l, q g)))"

lemma prog_induct [case_names Ret Act]:
  assumes "\<And>x. P (Ret x)" "\<And>f. (\<And>s s' l q. f s = (s', l, q) \<Longrightarrow> P q) \<Longrightarrow> P (Act f)"
  shows "P p"
proof (induction p)
  case (Act f)
  show ?case
  proof (rule assms(2))
    fix s s' l q assume "f s = (s', l, q)"
    then have "(s', l, q) \<in> range f" by (metis rangeI)
    with Act [of "(s', l, q)" "(l, q)" q] show "P q" by (simp add: prod_set_defs)
  qed
qed (rule assms(1))

text \<open>One atomic action, with what it does to the locks of its thread, depending on its result.\<close>

definition locked :: "('a \<Rightarrow> 'k locking) \<Rightarrow> ('s \<Rightarrow> 'a \<times> 's) \<Rightarrow> ('s, 'k, 'a) prog" where
  "locked l f = Act (\<lambda>s. case f s of (x, s') \<Rightarrow> (s', l x, Ret x))"

definition atomic :: "('s \<Rightarrow> 'a \<times> 's) \<Rightarrow> ('s, 'k, 'a) prog" where
  "atomic f = locked (\<lambda>_. Keep) f"

lemma run_Act [simp]: "run_prog (Act f) s = (case f s of (s', l, p) \<Rightarrow> run_prog p s')"
  by (cases "f s") simp

lemma and_then_Act [simp]:
  "and_then (Act f) g = Act (\<lambda>s. case f s of (s', l, p) \<Rightarrow> (s', l, and_then p g))"
  by (auto simp: fun_eq_iff split: prod.split)

declare run_prog.simps(2) [simp del] and_then.simps(2) [simp del]

lemma run_locked [simp]: "run_prog (locked l f) s = f s"
  by (auto simp: locked_def split: prod.split)

lemma run_atomic [simp]: "run_prog (atomic f) s = f s"
  by (simp add: atomic_def)

lemma run_and_then [simp]:
  "run_prog (and_then p g) s = (case run_prog p s of (x, s') \<Rightarrow> run_prog (g x) s')"
proof (induction p arbitrary: s rule: prog_induct)
  case (Ret x)
  then show ?case by simp
next
  case (Act f)
  obtain s' l q where f: "f s = (s', l, q)" by (rule prod_cases3)
  with Act.IH [OF f] show ?case by simp
qed

lemma and_then_assoc: "and_then (and_then p g) k = and_then p (\<lambda>x. and_then (g x) k)"
proof (induction p rule: prog_induct)
  case (Ret x)
  then show ?case by simp
next
  case (Act f)
  then show ?case by (auto simp: fun_eq_iff split: prod.split)
qed

section \<open>Threads\<close>

type_synonym ('s, 'k) thread = "'k set \<times> ('s, 'k, unit) prog"

primrec after_lock :: "'k locking \<Rightarrow> 'k set \<Rightarrow> 'k set" where
  "after_lock Keep h = h"
| "after_lock (Acquire k) h = insert k h"
| "after_lock Release h = {}"

definition held_by_others :: "nat \<Rightarrow> ('s, 'k) thread list \<Rightarrow> 'k set" where
  "held_by_others i ts = (\<Union>j \<in> {..<length ts} - {i}. fst (ts ! j))"

text \<open>
  \<open>start s h p\<close>: in state \<open>s\<close> a thread with program \<open>p\<close> that holds \<open>h\<close> may be started; \<open>env\<close> is what the
  environment does.
\<close>

inductive system_step ::
  "('s \<Rightarrow> 'k set \<Rightarrow> ('s, 'k, unit) prog \<Rightarrow> bool) \<Rightarrow> ('s \<Rightarrow> 's \<Rightarrow> bool) \<Rightarrow>
   's \<times> ('s, 'k) thread list \<Rightarrow> 's \<times> ('s, 'k) thread list \<Rightarrow> bool"
  for start :: "'s \<Rightarrow> 'k set \<Rightarrow> ('s, 'k, unit) prog \<Rightarrow> bool" and env :: "'s \<Rightarrow> 's \<Rightarrow> bool"
where
  started: "start s h p \<Longrightarrow> \<forall>t \<in> set ts. h \<inter> fst t = {} \<Longrightarrow>
    system_step start env (s, ts) (s, ts @ [(h, p)])"
| acted: "i < length ts \<Longrightarrow> ts ! i = (h, Act f) \<Longrightarrow> f s = (s', l, p) \<Longrightarrow>
    after_lock l h \<inter> held_by_others i ts = {} \<Longrightarrow>
    system_step start env (s, ts) (s', ts[i := (after_lock l h, p)])"
| gone: "system_step start env (s, ts) (s, take i ts @ drop (Suc i) ts)"
| environment: "env s s' \<Longrightarrow> system_step start env (s, ts) (s', ts)"

inductive system_run ::
  "('s \<Rightarrow> 'k set \<Rightarrow> ('s, 'k, unit) prog \<Rightarrow> bool) \<Rightarrow> ('s \<Rightarrow> 's \<Rightarrow> bool) \<Rightarrow>
   's \<times> ('s, 'k) thread list \<Rightarrow> 's \<times> ('s, 'k) thread list \<Rightarrow> bool"
  for start :: "'s \<Rightarrow> 'k set \<Rightarrow> ('s, 'k, unit) prog \<Rightarrow> bool" and env :: "'s \<Rightarrow> 's \<Rightarrow> bool"
where
  halted: "system_run start env st st"
| stepped: "system_run start env st st' \<Longrightarrow> system_step start env st' st'' \<Longrightarrow>
    system_run start env st st''"

lemma system_run_trans:
  "system_run start env b c \<Longrightarrow> system_run start env a b \<Longrightarrow> system_run start env a c"
  by (induction rule: system_run.induct) (auto intro: system_run.stepped)

text \<open>A thread that performs one action.\<close>

lemma thread_acts:
  assumes "i < length ts" "ts ! i = (h, and_then (atomic f) g)" "f s = (x, s')" "h \<inter> held_by_others i ts = {}"
  shows "system_step start env (s, ts) (s', ts[i := (h, g x)])"
proof -
  have "ts ! i = (h, Act (\<lambda>s. case f s of (x, s') \<Rightarrow> (s', Keep, g x)))"
    using assms(2) by (simp add: atomic_def locked_def prod.case_distrib [of "\<lambda>y. case y of (s', l, p) \<Rightarrow> (s', l, and_then p g)"])
  from system_step.acted [OF assms(1) this, of s s' Keep "g x" start env] assms(3,4) show ?thesis by simp
qed

text \<open>A thread that is alone runs to its end.\<close>

lemma alone_acts:
  "run_prog p s = (x, s') \<Longrightarrow> \<exists>h'. system_run start env (s, [(h, p)]) (s', [(h', Ret x)])"
proof (induction p arbitrary: s h rule: prog_induct)
  case (Ret y)
  then show ?case by (auto intro: system_run.halted)
next
  case (Act f)
  obtain s1 l q where f: "f s = (s1, l, q)" by (rule prod_cases3)
  have "system_step start env (s, [(h, Act f)]) (s1, [(h, Act f)] [0 := (after_lock l h, q)])"
    by (rule system_step.acted [where h = h and f = f, OF _ _ f]) (auto simp: held_by_others_def)
  then have first: "system_run start env (s, [(h, Act f)]) (s1, [(after_lock l h, q)])"
    by (auto intro: system_run.stepped [OF system_run.halted])
  have "run_prog q s1 = (x, s')" using Act.prems f by simp
  with Act.IH [OF f] obtain h' where
    "system_run start env (s1, [(after_lock l h, q)]) (s', [(h', Ret x)])" by blast
  from system_run_trans [OF this first] show ?case by blast
qed

lemma alone_runs:
  assumes "start s h p" "run_prog p s = ((), s')"
  shows "system_run start env (s, []) (s', [])"
proof -
  have begun: "system_run start env (s, []) (s, [(h, p)])"
    using system_step.started [of start s h p "[]" env] assms(1)
    by (auto intro: system_run.stepped [OF system_run.halted])
  obtain h' where "system_run start env (s, [(h, p)]) (s', [(h', Ret ())])"
    using alone_acts [OF assms(2)] by blast
  from system_run_trans [OF this begun]
  have "system_run start env (s, []) (s', [(h', Ret ())])" .
  then show ?thesis
    using system_step.gone [of start env s' "[(h', Ret ())]" 0]
    by (auto intro: system_run.stepped)
qed

section \<open>Locks exclude each other\<close>

definition exclusive :: "('s, 'k) thread list \<Rightarrow> bool" where
  "exclusive ts \<longleftrightarrow> (\<forall>i < length ts. fst (ts ! i) \<inter> held_by_others i ts = {})"

lemma exclusiveD:
  assumes "exclusive ts" "i < length ts" "j < length ts" "i \<noteq> j"
  shows "fst (ts ! i) \<inter> fst (ts ! j) = {}"
proof -
  have "fst (ts ! j) \<subseteq> held_by_others i ts" using assms(3,4) by (auto simp: held_by_others_def)
  with assms(1,2) show ?thesis unfolding exclusive_def by blast
qed

lemma exclusiveI:
  assumes "\<And>i j. i < length ts \<Longrightarrow> j < length ts \<Longrightarrow> i \<noteq> j \<Longrightarrow> fst (ts ! i) \<inter> fst (ts ! j) = {}"
  shows "exclusive ts"
  unfolding exclusive_def using assms by (fastforce simp: held_by_others_def)

lemma exclusive_sorted: "exclusive ts \<longleftrightarrow> sorted_wrt (\<lambda>t u. fst t \<inter> fst u = {}) ts"
proof
  assume "exclusive ts"
  note apart = exclusiveD [OF this]
  show "sorted_wrt (\<lambda>t u. fst t \<inter> fst u = {}) ts"
    unfolding sorted_wrt_iff_nth_less by (intro allI impI apart) simp_all
next
  assume sorted: "sorted_wrt (\<lambda>t u. fst t \<inter> fst u = {}) ts"
  show "exclusive ts"
  proof (rule exclusiveI)
    fix i j assume "i < length ts" "j < length ts" "i \<noteq> j"
    then consider "i < j" "j < length ts" | "j < i" "i < length ts" by linarith
    then show "fst (ts ! i) \<inter> fst (ts ! j) = {}"
      using sorted unfolding sorted_wrt_iff_nth_less by cases (simp, subst Int_commute, simp)
  qed
qed

lemma exclusive_started: "exclusive ts \<Longrightarrow> \<forall>t \<in> set ts. h \<inter> fst t = {} \<Longrightarrow> exclusive (ts @ [(h, p)])"
  unfolding exclusive_sorted by (auto simp: sorted_wrt_append Int_commute)

lemma exclusive_gone:
  assumes "exclusive ts"
  shows "exclusive (take i ts @ drop (Suc i) ts)"
proof (cases "i < length ts")
  case True
  then have "ts = take i ts @ [ts ! i] @ drop (Suc i) ts" by (simp add: Cons_nth_drop_Suc)
  with assms have "sorted_wrt (\<lambda>t u. fst t \<inter> fst u = {}) (take i ts @ [ts ! i] @ drop (Suc i) ts)"
    unfolding exclusive_sorted by simp
  then show ?thesis unfolding exclusive_sorted by (simp add: sorted_wrt_append)
qed (use assms in simp)

lemma exclusive_acted:
  assumes "exclusive ts" "i < length ts" "ts ! i = (h, Act f)"
    and "after_lock l h \<inter> held_by_others i ts = {}"
  shows "exclusive (ts[i := (after_lock l h, p)])"
proof (rule exclusiveI)
  fix a b
  assume "a < length (ts[i := (after_lock l h, p)])" "b < length (ts[i := (after_lock l h, p)])" "a \<noteq> b"
  then have ab: "a < length ts" "b < length ts" "a \<noteq> b" by simp_all
  have free: "after_lock l h \<inter> fst (ts ! k) = {}" if "k < length ts" "k \<noteq> i" for k
    using assms(4) that by (auto simp: held_by_others_def)
  show "fst (ts[i := (after_lock l h, p)] ! a) \<inter> fst (ts[i := (after_lock l h, p)] ! b) = {}"
    using ab exclusiveD [OF assms(1) ab] free [of a] free [of b] assms(2)
    by (cases "a = i"; cases "b = i") (simp_all add: Int_commute)
qed

section \<open>Rely and guarantee\<close>

text \<open>
  \<open>safe I R G p Q h s\<close>: from state \<open>s\<close>, a thread that holds \<open>h\<close> and runs \<open>p\<close> keeps \<open>I\<close> and changes the
  state only as \<open>G\<close> allows, whatever the others do within \<open>R\<close>, and ends in \<open>Q\<close>.
\<close>

primrec safe ::
  "('s \<Rightarrow> bool) \<Rightarrow> ('k set \<Rightarrow> 's \<Rightarrow> 's \<Rightarrow> bool) \<Rightarrow> ('k set \<Rightarrow> 's \<Rightarrow> 's \<Rightarrow> bool) \<Rightarrow> ('s, 'k, 'a) prog \<Rightarrow>
   ('a \<Rightarrow> 'k set \<Rightarrow> 's \<Rightarrow> bool) \<Rightarrow> 'k set \<Rightarrow> 's \<Rightarrow> bool" where
  "safe I R G (Ret x) = (\<lambda>Q h s. \<forall>s'. R h s s' \<longrightarrow> I s' \<longrightarrow> Q x h s')"
| "safe I R G (Act f) = (\<lambda>Q h s. \<forall>s'. R h s s' \<longrightarrow> I s' \<longrightarrow>
     (case map_prod id (map_prod id (safe I R G)) (f s') of
        (s'', l, r) \<Rightarrow> I s'' \<and> G h s' s'' \<and> r Q (after_lock l h) s''))"

lemma safe_Act:
  "safe I R G (Act f) Q h s \<longleftrightarrow> (\<forall>s' s'' l p. R h s s' \<longrightarrow> I s' \<longrightarrow> f s' = (s'', l, p) \<longrightarrow>
     I s'' \<and> G h s' s'' \<and> safe I R G p Q (after_lock l h) s'')"
proof -
  have "safe I R G (Act f) Q h s \<longleftrightarrow> (\<forall>s'. R h s s' \<longrightarrow> I s' \<longrightarrow>
      (case f s' of (s'', l, p) \<Rightarrow> I s'' \<and> G h s' s'' \<and> safe I R G p Q (after_lock l h) s''))"
    by (simp add: map_prod_def case_prod_beta')
  then show ?thesis by (simp add: case_prod_beta) (metis prod.collapse fst_conv snd_conv)
qed

declare safe.simps(2) [simp del]

locale relying =
  fixes I :: "'s \<Rightarrow> bool" and R G :: "'k set \<Rightarrow> 's \<Rightarrow> 's \<Rightarrow> bool"
  assumes R_refl: "R h s s"
    and R_trans: "R h s s' \<Longrightarrow> R h s' s'' \<Longrightarrow> R h s s''"
begin

lemma safe_stable:
  "safe I R G p Q h s \<Longrightarrow> R h s s' \<Longrightarrow> safe I R G p Q h s'"
  by (cases p) (auto simp: safe_Act intro: R_trans)

lemma safe_weaken:
  "safe I R G p Q h s \<Longrightarrow> (\<And>x h s. Q x h s \<Longrightarrow> Q' x h s) \<Longrightarrow> safe I R G p Q' h s"
proof (induction p arbitrary: h s rule: prog_induct)
  case (Ret x)
  then show ?case by auto
next
  case (Act f)
  show ?case
    unfolding safe_Act
  proof (intro allI impI)
    fix s' s'' l q
    assume "R h s s'" "I s'" "f s' = (s'', l, q)"
    with Act.prems(1) Act.IH [OF _ _ Act.prems(2)]
    show "I s'' \<and> G h s' s'' \<and> safe I R G q Q' (after_lock l h) s''" by (simp add: safe_Act)
  qed
qed

lemma safe_and_then:
  "safe I R G p (\<lambda>x h s. safe I R G (g x) Q h s) h s \<Longrightarrow> safe I R G (and_then p g) Q h s"
proof (induction p arbitrary: h s rule: prog_induct)
  case (Ret x)
  then show ?case
    by (cases "g x") (auto simp: safe_Act, (meson R_refl)+)
next
  case (Act f)
  show ?case
    unfolding and_then_Act safe_Act
  proof (intro allI impI)
    fix s' s'' l p
    assume R: "R h s s'" "I s'"
      and step: "(case f s' of (s', l, p) \<Rightarrow> (s', l, and_then p g)) = (s'', l, p)"
    then obtain q where q: "f s' = (s'', l, q)" "p = and_then q g" by (auto split: prod.splits)
    with Act.prems R have ok: "I s''" "G h s' s''"
      "safe I R G q (\<lambda>x h s. safe I R G (g x) Q h s) (after_lock l h) s''"
      by (auto simp: safe_Act)
    with Act.IH [OF q(1)] q(2) have "safe I R G p Q (after_lock l h) s''" by simp
    with ok show "I s'' \<and> G h s' s'' \<and> safe I R G p Q (after_lock l h) s''" by simp
  qed
qed

text \<open>The rule for an action that starts a program.\<close>

lemma safe_locked:
  assumes "\<And>s' x s''. R h s s' \<Longrightarrow> I s' \<Longrightarrow> f s' = (x, s'') \<Longrightarrow>
      I s'' \<and> G h s' s'' \<and> safe I R G (g x) Q (after_lock (l x) h) s''"
  shows "safe I R G (and_then (locked l f) g) Q h s"
  using assms by (auto simp: locked_def safe_Act split: prod.splits)

lemma safe_atomic:
  assumes "\<And>s' x s''. R h s s' \<Longrightarrow> I s' \<Longrightarrow> f s' = (x, s'') \<Longrightarrow>
      I s'' \<and> G h s' s'' \<and> safe I R G (g x) Q h s''"
  shows "safe I R G (and_then (atomic f) g) Q h s"
  using assms safe_locked [of h s f g Q "\<lambda>_. Keep"] by (simp add: atomic_def)

end

section \<open>The system keeps what its threads guarantee\<close>

locale rely_guarantee = relying I R G
    for I :: "'s \<Rightarrow> bool" and R G :: "'k set \<Rightarrow> 's \<Rightarrow> 's \<Rightarrow> bool" +
  fixes start :: "'s \<Rightarrow> 'k set \<Rightarrow> ('s, 'k, unit) prog \<Rightarrow> bool" and env :: "'s \<Rightarrow> 's \<Rightarrow> bool"
  assumes G_R: "G h s s' \<Longrightarrow> h \<inter> h' = {} \<Longrightarrow> R h' s s'"
    and start_safe: "start s h p \<Longrightarrow> I s \<Longrightarrow> safe I R G p (\<lambda>_ _ _. True) h s"
    and env_keeps: "env s s' \<Longrightarrow> I s \<Longrightarrow> I s'"
    and env_R: "env s s' \<Longrightarrow> R h s s'"
begin

text \<open>The whole system: the invariant holds, every thread is safe, no lock is held twice.\<close>

definition system_ok :: "'s \<times> ('s, 'k) thread list \<Rightarrow> bool" where
  "system_ok st \<longleftrightarrow> I (fst st) \<and>
     (\<forall>t \<in> set (snd st). safe I R G (snd t) (\<lambda>_ _ _. True) (fst t) (fst st)) \<and> exclusive (snd st)"

lemma acted_ok:
  assumes "system_ok (s, ts)" "i < length ts" "ts ! i = (h, Act f)" "f s = (s', l, p)"
    and "after_lock l h \<inter> held_by_others i ts = {}"
  shows "system_ok (s', ts[i := (after_lock l h, p)])"
proof -
  have safe_i: "safe I R G (Act f) (\<lambda>_ _ _. True) h s" and inv: "I s" and dis: "exclusive ts"
    using assms(1-3) nth_mem [OF assms(2)] by (auto simp: system_ok_def)
  then have step: "I s'" "G h s s'" "safe I R G p (\<lambda>_ _ _. True) (after_lock l h) s'"
    using safe_i [unfolded safe_Act, rule_format, OF R_refl inv assms(4)] by simp_all
  have others: "safe I R G (snd t) (\<lambda>_ _ _. True) (fst t) s'" if "t \<in> set (ts[i := (after_lock l h, p)])" for t
  proof -
    from that obtain j where j: "j < length ts" "t = ts[i := (after_lock l h, p)] ! j"
      by (auto simp: in_set_conv_nth)
    show ?thesis
    proof (cases "j = i")
      case True
      with j assms(2) step(3) show ?thesis by simp
    next
      case False
      with j have t: "t = ts ! j" by simp
      then have "h \<inter> fst t = {}" using exclusiveD [OF dis assms(2) j(1)] False assms(3) by simp
      with step(2) have "R (fst t) s s'" by (rule G_R)
      moreover have "safe I R G (snd t) (\<lambda>_ _ _. True) (fst t) s"
        using assms(1) nth_mem [OF j(1)] t by (simp add: system_ok_def)
      ultimately show ?thesis using safe_stable by blast
    qed
  qed
  with step(1) exclusive_acted [OF dis assms(2,3,5)] show ?thesis by (simp add: system_ok_def)
qed

lemma step_ok: "system_step start env st st' \<Longrightarrow> system_ok st \<Longrightarrow> system_ok st'"
proof (induction rule: system_step.induct)
  case (started s h p ts)
  then show ?case
    using exclusive_started [of ts h p] by (auto simp: system_ok_def start_safe)
next
  case (acted i ts h f s s' l p)
  then show ?case by (blast intro: acted_ok)
next
  case (gone s ts i)
  then show ?case
    using exclusive_gone [of ts i] by (auto simp: system_ok_def dest: in_set_takeD in_set_dropD)
next
  case (environment s s' ts)
  then show ?case
    by (auto simp: system_ok_def env_keeps intro: safe_stable env_R)
qed

theorem run_ok: "system_run start env st st' \<Longrightarrow> system_ok st \<Longrightarrow> system_ok st'"
  by (induction rule: system_run.induct) (auto dest: step_ok)

text \<open>All that a run does to the state is what a thread without locks relies on.\<close>

lemma step_relied: "system_step start env st st' \<Longrightarrow> system_ok st \<Longrightarrow> R {} (fst st) (fst st')"
proof (induction rule: system_step.induct)
  case (acted i ts h f s s' l p)
  then have "safe I R G (Act f) (\<lambda>_ _ _. True) h s" "I s"
    using nth_mem [OF acted(1)] by (auto simp: system_ok_def)
  with acted(3) have "G h s s'" unfolding safe_Act using R_refl by blast
  then show ?case using G_R [of h s s' "{}"] by simp
qed (simp_all add: R_refl env_R)

theorem run_relied: "system_run start env st st' \<Longrightarrow> system_ok st \<Longrightarrow> R {} (fst st) (fst st')"
proof (induction rule: system_run.induct)
  case (stepped st st' st'')
  then show ?case using step_relied run_ok R_trans by blast
qed (rule R_refl)

end

end
