(* ===== verification/Retry.thy ===== *)
theory Retry
  imports Kafka
begin

text \<open>
  \<open>internal/kafka/retry.go\<close>: the wrapper that calls a handler several times and, when it gives up,
  writes the message to the dead letter topic.

  \<^item> A handler is a function of the key, the payload and a state of any type; \<open>publish\<close> is the
    \<open>Producer\<close> of the dead letters over the same state.
  \<^item> \<open>Panicked\<close> is the nil dereference of \<open>lastErr.Error()\<close>.
  \<^item> The state does not show the time: \<open>retry_loop\<close> lists the waits it makes.
\<close>

type_synonym 's handler = "string \<Rightarrow> payload \<Rightarrow> 's \<Rightarrow> goerr option \<times> 's"
type_synonym 's publisher = "string \<Rightarrow> string \<Rightarrow> payload \<Rightarrow> 's \<Rightarrow> goerr option \<times> 's"

datatype handled = Returned "goerr option" | Panicked

section \<open>The retry loop\<close>

text \<open>How the loop is left: by \<open>return err\<close> with a nil error, or at its end with the last error.\<close>

datatype loop_exit = Succeeded | GaveUp "goerr option"

text \<open>\<open>time.Duration(attempt*attempt) * 100 * time.Millisecond\<close>, in nanoseconds.\<close>

definition retry_wait :: "int \<Rightarrow> int64" where
  "retry_wait attempt = word_of_int attempt * word_of_int attempt * 100 * 1000000"

function retry_loop ::
  "'s handler \<Rightarrow> string \<Rightarrow> payload \<Rightarrow> int \<Rightarrow> int \<Rightarrow> goerr option \<Rightarrow> 's \<Rightarrow>
   loop_exit \<times> int64 list \<times> 's" where
  "retry_loop handler key p maxAttempts attempt err s =
     (if attempt \<le> maxAttempts then
        case handler key p s of
          (None, s1) \<Rightarrow> (Succeeded, [], s1)
        | (Some e, s1) \<Rightarrow>
            if errors_is e NonRetryable then (GaveUp (Some e), [], s1)
            else
              (case retry_loop handler key p maxAttempts (attempt + 1) (Some e) s1 of
                 (r, waits, s2) \<Rightarrow> (r, retry_wait attempt # waits, s2))
      else (GaveUp err, [], s))"
  by pat_completeness auto
termination
  by (relation "measure (\<lambda>(_, _, _, maxAttempts, attempt, _). nat (maxAttempts + 1 - attempt))")
    auto

declare retry_loop.simps [simp del]

section \<open>Dead letters\<close>

definition raw_message :: "payload \<Rightarrow> json option" where
  "raw_message p = (case p of Doc j \<Rightarrow> Some j | NilBytes \<Rightarrow> Some JNull | NotJson _ \<Rightarrow> None)"

definition dlq_message ::
  "string \<Rightarrow> string \<Rightarrow> json \<Rightarrow> string \<Rightarrow> int \<Rightarrow> string \<Rightarrow> string \<Rightarrow> json" where
  "dlq_message originalTopic key original err attempts failedAt consumerGroup =
     JObj [(''original_topic'', JStr originalTopic), (''original_key'', JStr key),
           (''original_payload'', original), (''error'', JStr err),
           (''attempts'', JNum attempts), (''failed_at'', JStr failedAt),
           (''consumer_group'', JStr consumerGroup)]"

text \<open>\<open>now\<close> is the reading of the clock, \<open>marshal_text\<close> the text of the encoder's error.\<close>

definition publishToDLQ ::
  "codec \<Rightarrow> 's publisher \<Rightarrow> time \<Rightarrow> string \<Rightarrow> string \<Rightarrow> string \<Rightarrow> payload \<Rightarrow> goerr option \<Rightarrow> int \<Rightarrow>
   's \<Rightarrow> handled \<times> 's" where
  "publishToDLQ c publish now consumerGroup originalTopic key p lastErr attempts s =
     (case lastErr of
        None \<Rightarrow> (Panicked, s)
      | Some le \<Rightarrow>
          (case (raw_message p, fmt_time c now) of
             (Some original, Some failedAt) \<Rightarrow>
               (case publish TopicDLQ key
                       (Doc (dlq_message originalTopic key original (error_text le) attempts
                               failedAt consumerGroup)) s of
                  (Some err, s1) \<Rightarrow> (Returned (Some le), s1)
                | (None, s1) \<Rightarrow> (Returned None, s1))
           | _ \<Rightarrow> (Returned (Some (Wrap ''publishToDLQ: marshal: '' (Plain (marshal_text c p)))), s)))"

definition RetryHandler ::
  "codec \<Rightarrow> time \<Rightarrow> 's handler \<Rightarrow> 's publisher \<Rightarrow> string \<Rightarrow> string \<Rightarrow> int \<Rightarrow>
   string \<Rightarrow> payload \<Rightarrow> 's \<Rightarrow> handled \<times> 's" where
  "RetryHandler c now handler dlq topic consumerGroup maxAttempts key p s =
     (case retry_loop handler key p maxAttempts 1 None s of
        (Succeeded, waits, s1) \<Rightarrow> (Returned None, s1)
      | (GaveUp err, waits, s1) \<Rightarrow>
          publishToDLQ c dlq now consumerGroup topic key p err maxAttempts s1)"

section \<open>What the loop does\<close>

text \<open>The states before each attempt: the handler has failed, with a retryable error, in all
  but the last one.\<close>

fun retried :: "'s handler \<Rightarrow> string \<Rightarrow> payload \<Rightarrow> nat \<Rightarrow> 's \<Rightarrow> 's \<Rightarrow> bool" where
  "retried handler key p 0 s s' \<longleftrightarrow> s' = s"
| "retried handler key p (Suc n) s s' \<longleftrightarrow>
     (case handler key p s of
        (Some e, s1) \<Rightarrow> \<not> errors_is e NonRetryable \<and> retried handler key p n s1 s'
      | (None, s1) \<Rightarrow> False)"

text \<open>
  The loop ends with a success, at a non retryable error, or with all attempts used; it never
  invents or forgets the last error, and the waits are those of the attempts that failed.
\<close>

definition loop_result ::
  "'s handler \<Rightarrow> string \<Rightarrow> payload \<Rightarrow> int \<Rightarrow> int \<Rightarrow> goerr option \<Rightarrow> 's \<Rightarrow> nat \<Rightarrow> loop_exit \<Rightarrow> 's \<Rightarrow> bool"
where
  "loop_result handler key p maxAttempts attempt err s n r s' \<longleftrightarrow>
     (\<exists>s1. retried handler key p n s s1 \<and> attempt + int n \<le> maxAttempts \<and>
        (r = Succeeded \<and> handler key p s1 = (None, s') \<or>
         (\<exists>e. r = GaveUp (Some e) \<and> handler key p s1 = (Some e, s') \<and> errors_is e NonRetryable))) \<or>
     (n = 0 \<and> r = GaveUp err \<and> s' = s \<and> maxAttempts < attempt) \<or>
     (\<exists>m s1 e. n = Suc m \<and> attempt + int m = maxAttempts \<and> retried handler key p m s s1 \<and>
        handler key p s1 = (Some e, s') \<and> \<not> errors_is e NonRetryable \<and> r = GaveUp (Some e))"

lemma loop_result_step:
  assumes "handler key p s = (Some e, s1)" "\<not> errors_is e NonRetryable" "attempt \<le> maxAttempts"
    and "loop_result handler key p maxAttempts (attempt + 1) (Some e) s1 n r s'"
  shows "loop_result handler key p maxAttempts attempt err s (Suc n) r s'"
  using assms(4) [unfolded loop_result_def]
proof (elim disjE exE conjE)
  fix s2
  assume "retried handler key p n s1 s2" "attempt + 1 + int n \<le> maxAttempts" "r = Succeeded"
    "handler key p s2 = (None, s')"
  with assms show ?thesis unfolding loop_result_def by (intro disjI1 exI [of _ s2]) simp
next
  fix s2 e'
  assume "retried handler key p n s1 s2" "attempt + 1 + int n \<le> maxAttempts"
    "r = GaveUp (Some e')" "handler key p s2 = (Some e', s')" "errors_is e' NonRetryable"
  with assms show ?thesis unfolding loop_result_def by (intro disjI1 exI [of _ s2]) simp
next
  assume "n = 0" "r = GaveUp (Some e)" "s' = s1" "maxAttempts < attempt + 1"
  with assms show ?thesis unfolding loop_result_def
    by (intro disjI2 exI [of _ "0::nat"] exI [of _ s] exI [of _ e]) simp
next
  fix m s2 e'
  assume "n = Suc m" "attempt + 1 + int m = maxAttempts" "retried handler key p m s1 s2"
    "handler key p s2 = (Some e', s')" "\<not> errors_is e' NonRetryable" "r = GaveUp (Some e')"
  with assms show ?thesis unfolding loop_result_def
    by (intro disjI2 exI [of _ "Suc m"] exI [of _ s2] exI [of _ e']) simp
qed

lemma retry_loop_result:
  "retry_loop handler key p maxAttempts attempt err s = (r, waits, s') \<Longrightarrow>
   loop_result handler key p maxAttempts attempt err s (length waits) r s' \<and>
   waits = map (\<lambda>i. retry_wait (attempt + int i)) [0..<length waits]"
proof (induction handler key p maxAttempts attempt err s arbitrary: r waits s'
    rule: retry_loop.induct)
  case (1 handler key p maxAttempts attempt err s)
  show ?case
  proof (cases "attempt \<le> maxAttempts")
    case False
    with 1(2) show ?thesis by (simp add: retry_loop.simps loop_result_def)
  next
    case run: True
    obtain h s1 where h: "handler key p s = (h, s1)" by (cases "handler key p s")
    show ?thesis
    proof (cases "\<exists>e. h = Some e \<and> \<not> errors_is e NonRetryable")
      case False
      with run h 1(2) show ?thesis
        by (cases h) (auto simp: retry_loop.simps loop_result_def)
    next
      case True
      then obtain e where e: "h = Some e" "\<not> errors_is e NonRetryable" by blast
      obtain r1 ws s2 where rec:
        "retry_loop handler key p maxAttempts (attempt + 1) (Some e) s1 = (r1, ws, s2)"
        by (cases "retry_loop handler key p maxAttempts (attempt + 1) (Some e) s1") auto
      with run h e 1(2) have out: "r = r1" "waits = retry_wait attempt # ws" "s' = s2"
        by (simp_all add: retry_loop.simps)
      from 1(1) [OF run h [symmetric] e rec]
      have IH: "loop_result handler key p maxAttempts (attempt + 1) (Some e) s1 (length ws) r1 s2"
        "ws = map (\<lambda>i. retry_wait (attempt + 1 + int i)) [0..<length ws]" by simp_all
      have "map (\<lambda>i. retry_wait (attempt + int i)) [0..<Suc (length ws)] =
          retry_wait attempt # map (\<lambda>i. retry_wait (attempt + 1 + int i)) [0..<length ws]"
        by (simp add: upt_conv_Cons map_Suc_upt [symmetric] algebra_simps del: upt_Suc)
      with IH(2) out have "waits = map (\<lambda>i. retry_wait (attempt + int i)) [0..<length waits]"
        by simp
      with loop_result_step [OF _ e(2) run IH(1), of s] h e(1) out show ?thesis by simp
    qed
  qed
qed

lemma retry_loop_error:
  assumes "retry_loop handler key p maxAttempts attempt None s = (GaveUp (Some e), waits, s')"
  shows "\<exists>s1. handler key p s1 = (Some e, s')"
  using retry_loop_result [OF assms] by (auto simp: loop_result_def)

lemma retry_wait_exact:
  assumes "1 \<le> attempt" "attempt \<le> 303700"
  shows "sint (retry_wait attempt) = attempt * attempt * 100000000"
proof -
  have "retry_wait attempt = word_of_int (attempt * attempt * 100000000)"
    by (simp add: retry_wait_def)
  moreover have "attempt * attempt \<le> 303700 * 303700"
    using assms by (intro mult_mono) simp_all
  then have "in_int64 (attempt * attempt * 100000000)"
    using assms zero_le_square [of attempt] unfolding in_int64_def max_int64_def min_int64_def
    by (simp, linarith?)
  ultimately show ?thesis by (simp only: sint_of_int64)
qed

lemma publishToDLQ_cases:
  assumes "publishToDLQ c publish now consumerGroup originalTopic key p lastErr attempts s = (r, s')"
  obtains (no_error) "lastErr = None" "r = Panicked" "s' = s"
    | (unencodable) le where "lastErr = Some le" "s' = s"
      "r = Returned (Some (Wrap ''publishToDLQ: marshal: '' (Plain (marshal_text c p))))"
      "raw_message p = None \<or> fmt_time c now = None"
    | (refused) le err msg where "lastErr = Some le" "r = Returned (Some le)"
      "publish TopicDLQ key (Doc msg) s = (Some err, s')"
    | (written) le original failedAt where "lastErr = Some le" "r = Returned None"
      "raw_message p = Some original"
      "publish TopicDLQ key
         (Doc (dlq_message originalTopic key original (error_text le) attempts failedAt
                 consumerGroup)) s = (None, s')"
proof (cases lastErr)
  case None
  with assms no_error show ?thesis by (simp add: publishToDLQ_def)
next
  case (Some le)
  show ?thesis
  proof (cases "raw_message p = None \<or> fmt_time c now = None")
    case True
    with assms Some unencodable show ?thesis
      by (auto simp: publishToDLQ_def split: option.splits)
  next
    case False
    then obtain j f where jf: "raw_message p = Some j" "fmt_time c now = Some f" by auto
    let ?msg = "dlq_message originalTopic key j (error_text le) attempts f consumerGroup"
    obtain o' s1 where "publish TopicDLQ key (Doc ?msg) s = (o', s1)"
      by (cases "publish TopicDLQ key (Doc ?msg) s")
    with assms Some jf refused [of le ?msg] written [of le j f] show ?thesis
      by (cases o') (auto simp: publishToDLQ_def)
  qed
qed

section \<open>Nothing is dropped in silence\<close>

text \<open>
  C18. A message counts as handled, so that its offset is committed, only if an attempt of the
  handler succeeded or the message is the last record of the dead letter topic, with its topic,
  key and payload untouched and the text of an error the handler really returned. This holds for
  every handler and every behaviour of the broker.
\<close>

theorem retry_never_drops:
  assumes "RetryHandler c now handler (Publish ready) topic consumerGroup maxAttempts key p w =
    (Returned None, w')"
  shows "(\<exists>w1. handler key p w1 = (None, w')) \<or>
    (\<exists>original failedAt e w1 w2.
       raw_message p = Some original \<and> handler key p w1 = (Some e, w2) \<and>
       klog w' = klog w2 @ [\<lparr>kr_topic = ''payments.dlq'', kr_key = key,
         kr_value = Doc (dlq_message topic key original (error_text e) maxAttempts failedAt consumerGroup)\<rparr>])"
proof -
  obtain r waits w1 where loop: "retry_loop handler key p maxAttempts 1 None w = (r, waits, w1)"
    by (cases "retry_loop handler key p maxAttempts 1 None w") auto
  show ?thesis
  proof (cases r)
    case Succeeded
    with loop assms retry_loop_result [OF loop] show ?thesis
      by (auto simp: RetryHandler_def loop_result_def)
  next
    case (GaveUp err)
    with loop assms have dlq: "publishToDLQ c (Publish ready) now consumerGroup topic key p err maxAttempts w1
        = (Returned None, w')" by (simp add: RetryHandler_def)
    then show ?thesis
    proof (cases rule: publishToDLQ_cases)
      case (written e original failedAt)
      obtain w0 where "handler key p w0 = (Some e, w1)"
        using retry_loop_error [OF loop [unfolded GaveUp written(1)]] by blast
      moreover have "klog w' = klog w1 @ [\<lparr>kr_topic = ''payments.dlq'', kr_key = key,
          kr_value = Doc (dlq_message topic key original (error_text e) maxAttempts failedAt
            consumerGroup)\<rparr>]"
        using Publish_ok [OF written(4)] by (auto simp: TopicDLQ_def)
      ultimately show ?thesis using written(3) by blast
    qed simp_all
  qed
qed

theorem retry_never_drops_witness:
  "\<exists>w' older m. RetryHandler sample_codec 0 (\<lambda>_ _ w. (Some (Plain ''down''), w)) (Publish True)
       ''t'' ''g'' 2 ''k'' (Doc JNull) empty_world = (Returned None, w') \<and>
     klog w' = older @ [\<lparr>kr_topic = ''payments.dlq'', kr_key = ''k'', kr_value = Doc m\<rparr>]"
proof -
  let ?h = "\<lambda>_ _ w. (Some (Plain ''down''), w :: world)"
  obtain w' where run: "RetryHandler sample_codec 0 ?h (Publish True) ''t'' ''g'' 2 ''k'' (Doc JNull)
      empty_world = (Returned None, w')"
    by (simp add: RetryHandler_def retry_loop.simps call_nil empty_world_def
        publishToDLQ_def raw_message_def sample_codec_def Publish_def split: option.splits)
  from retry_never_drops [OF this] this show ?thesis by auto
qed

text \<open>A handler that counts its calls, and a producer that leaves the counter alone.\<close>

definition counted :: "'s handler \<Rightarrow> (nat \<times> 's) handler" where
  "counted handler key p = (\<lambda>(n, s). case handler key p s of (r, s') \<Rightarrow> (r, (Suc n, s')))"

definition uncounted :: "'s publisher \<Rightarrow> (nat \<times> 's) publisher" where
  "uncounted publish topic key p = (\<lambda>(n, s). case publish topic key p s of (r, s') \<Rightarrow> (r, (n, s')))"

lemma counted_once: "counted handler key p (n, s) = (x, (n', s')) \<Longrightarrow> n' = Suc n"
  by (auto simp: counted_def split: prod.splits)

lemma retried_counted:
  "retried (counted handler) key p m (n, s) (n', s') \<Longrightarrow> n' = n + m"
proof (induction m arbitrary: n s)
  case (Suc m)
  obtain x a t where step: "counted handler key p (n, s) = (x, (a, t))" by (rule prod_cases3)
  with Suc.prems have "retried (counted handler) key p m (a, t) (n', s')" by (simp split: option.splits)
  from Suc.IH [OF this] counted_once [OF step] show ?case by simp
qed simp

text \<open>The loop ends before its attempts are used up.\<close>

definition ends_early :: "loop_exit \<Rightarrow> bool" where
  "ends_early r \<longleftrightarrow> r = Succeeded \<or> (\<exists>e. r = GaveUp (Some e) \<and> errors_is e NonRetryable)"

lemma loop_result_counted:
  assumes "loop_result (counted handler) key p maxAttempts 1 None (0, s) m r (calls, s')"
  shows "if ends_early r then calls = Suc m \<and> int calls \<le> maxAttempts else calls = m \<and> int calls = max 0 maxAttempts"
  using assms [unfolded loop_result_def]
proof (elim disjE exE conjE)
  fix st assume a: "retried (counted handler) key p m (0, s) st" "1 + int m \<le> maxAttempts" "r = Succeeded"
    "counted handler key p st = (None, calls, s')"
  obtain n t where "st = (n, t)" by (rule prod.exhaust)
  with a retried_counted [of handler key p m 0 s n t] counted_once [of handler key p n t None calls s'] show ?thesis
    by (simp add: ends_early_def)
next
  fix st e assume a: "retried (counted handler) key p m (0, s) st" "1 + int m \<le> maxAttempts" "r = GaveUp (Some e)"
    "counted handler key p st = (Some e, calls, s')" "errors_is e NonRetryable"
  obtain n t where "st = (n, t)" by (rule prod.exhaust)
  with a retried_counted [of handler key p m 0 s n t] counted_once [of handler key p n t "Some e" calls s'] show ?thesis
    by (simp add: ends_early_def)
next
  assume "m = 0" "r = GaveUp None" "(calls, s') = (0, s)" "maxAttempts < 1"
  then show ?thesis by (simp add: ends_early_def)
next
  fix k st e assume a: "m = Suc k" "1 + int k = maxAttempts" "retried (counted handler) key p k (0, s) st"
    "counted handler key p st = (Some e, calls, s')" "\<not> errors_is e NonRetryable" "r = GaveUp (Some e)"
  obtain n t where "st = (n, t)" by (rule prod.exhaust)
  with a retried_counted [of handler key p k 0 s n t] counted_once [of handler key p n t "Some e" calls s'] show ?thesis
    by (simp add: ends_early_def)
qed

lemma publishToDLQ_uncounted:
  "publishToDLQ c (uncounted publish) now consumerGroup topic key p err attempts (n, s) = (r, (n', s')) \<Longrightarrow> n' = n"
  by (auto simp: publishToDLQ_def uncounted_def split: option.splits prod.splits)

text \<open>
  C35. The wrapper calls the handler at most \<open>maxAttempts\<close> times, and fewer times only if it succeeds or fails with an
  error that must not be retried; it waits 100 ms, 400 ms, 900 ms and so on after the failures that can be retried, the last
  one included, as long as \<open>maxAttempts\<close> is at most 303700, beyond which the nanoseconds of a wait do not fit
  into 64 bits; and it panics exactly when \<open>maxAttempts\<close> allows no attempt at all, because the dead letter then asks a
  nil error for its text.
\<close>

theorem retry_schedule:
  assumes "RetryHandler c now (counted handler) (uncounted dlq) topic consumerGroup maxAttempts key p (0, s) = (h, (calls, s'))"
    and "retry_loop (counted handler) key p maxAttempts 1 None (0, s) = (r, waits, st)"
  shows "(h = Panicked \<longleftrightarrow> maxAttempts < 1) \<and>
    int calls \<le> max 0 maxAttempts \<and>
    (ends_early r \<or> int calls = max 0 maxAttempts) \<and>
    length waits = (if ends_early r then calls - 1 else calls) \<and>
    (maxAttempts \<le> 303700 \<longrightarrow>
       map sint waits = map (\<lambda>i. (int i + 1) ^ 2 * 100000000) [0..<length waits])"
proof -
  obtain n s1 where st: "st = (n, s1)" by (rule prod.exhaust)
  note result = retry_loop_result [OF assms(2)]
  from assms(1,2) have n: "n = calls"
    by (auto simp: RetryHandler_def st dest: publishToDLQ_uncounted split: loop_exit.splits)
  note count = loop_result_counted [OF result [THEN conjunct1, unfolded st n]]
  have len: "int (length waits) \<le> max 0 maxAttempts" using count by (simp split: if_splits)
  have "map sint waits = map (\<lambda>i. (int i + 1) ^ 2 * 100000000) [0..<length waits]"
    if "maxAttempts \<le> 303700"
  proof -
    have "sint (retry_wait (1 + int i)) = (int i + 1) ^ 2 * 100000000" if "i < length waits" for i
      using that len \<open>maxAttempts \<le> 303700\<close>
      by (subst retry_wait_exact) (simp_all add: power2_eq_square algebra_simps)
    then show ?thesis
      by (subst conjunct2 [OF result]) (simp add: comp_def)
  qed
  moreover have "h = Panicked \<longleftrightarrow> maxAttempts < 1"
    using result assms
    by (auto simp: RetryHandler_def loop_result_def publishToDLQ_def split: option.splits prod.splits)
  ultimately show ?thesis using count by (simp split: if_splits)
qed

definition always_down :: "unit handler" where
  "always_down key p s = (Some (Plain ''down''), s)"

definition always_up :: "unit publisher" where
  "always_up topic key p s = (None, s)"

theorem retry_schedule_witness:
  "\<exists>h calls r waits st. RetryHandler sample_codec 0 (counted always_down) (uncounted always_up) ''t'' ''g'' 3 ''k''
       (Doc JNull) (0, ()) = (h, (calls, ())) \<and>
     retry_loop (counted always_down) ''k'' (Doc JNull) 3 1 None (0, ()) = (r, waits, st) \<and>
     int calls \<le> 3 \<and> map sint waits = map (\<lambda>i. (int i + 1) ^ 2 * 100000000) [0..<length waits]"
proof -
  obtain h calls where run: "RetryHandler sample_codec 0 (counted always_down) (uncounted always_up) ''t'' ''g'' 3 ''k''
       (Doc JNull) (0, ()) = (h, (calls, ()))" by (metis prod.exhaust unit.exhaust)
  obtain r waits st where loop: "retry_loop (counted always_down) ''k'' (Doc JNull) 3 1 None (0, ()) = (r, waits, st)"
    by (rule prod_cases3)
  from retry_schedule [OF run loop] run loop show ?thesis
    by (intro exI [of _ h] exI [of _ calls] exI [of _ r] exI [of _ waits] exI [of _ st]) simp
qed

section \<open>Invariants of handlers\<close>

text \<open>For one message: what every attempt and the writing of a dead letter keep, the wrapper keeps.\<close>

lemma retried_keeps:
  assumes "\<And>s r s'. handler key p s = (r, s') \<Longrightarrow> J s \<Longrightarrow> J s'"
  shows "retried handler key p n s s' \<Longrightarrow> J s \<Longrightarrow> J s'"
  by (induction n arbitrary: s) (auto split: prod.splits option.splits dest: assms)

lemma RetryHandler_keeps_at:
  assumes run: "RetryHandler c now handler publish topic consumerGroup maxAttempts key p s = (r, s')"
    and attempt: "\<And>s r s'. handler key p s = (r, s') \<Longrightarrow> J s \<Longrightarrow> J s'"
    and letter: "\<And>m s r s'. publish TopicDLQ key m s = (r, s') \<Longrightarrow> J s \<Longrightarrow> J s'"
    and "J s"
  shows "J s'"
proof -
  obtain x waits s1 where loop: "retry_loop handler key p maxAttempts 1 None s = (x, waits, s1)"
    by (cases "retry_loop handler key p maxAttempts 1 None s") auto
  have kept: "J s'" if "retried handler key p n s s'" for n s'
    by (rule retried_keeps [of handler key p J, OF _ that \<open>J s\<close>]) (rule attempt)
  have "J s1"
    using retry_loop_result [OF loop] kept attempt \<open>J s\<close> by (auto simp: loop_result_def)
  show ?thesis
  proof (cases x)
    case Succeeded
    with run loop \<open>J s1\<close> show ?thesis by (simp add: RetryHandler_def)
  next
    case (GaveUp err)
    with run loop have "publishToDLQ c publish now consumerGroup topic key p err maxAttempts s1 = (r, s')"
      by (simp add: RetryHandler_def)
    then show ?thesis by (cases rule: publishToDLQ_cases) (use \<open>J s1\<close> letter in auto)
  qed
qed

text \<open>
  The contract of a handler and a dead letter producer that keep an invariant of the state. The
  retry wrapper keeps it too.
\<close>

locale retried_handler =
  fixes handler :: "'s handler" and I :: "'s \<Rightarrow> bool" and publish :: "'s publisher"
  assumes handler_keeps: "handler key p s = (r, s') \<Longrightarrow> I s \<Longrightarrow> I s'"
    and publish_keeps: "publish topic key p s = (r, s') \<Longrightarrow> I s \<Longrightarrow> I s'"
begin

lemma RetryHandler_keeps:
  assumes "RetryHandler c now handler publish topic consumerGroup maxAttempts key p s = (r, s')" "I s"
  shows "I s'"
  by (rule RetryHandler_keeps_at [where J = I, OF assms(1) _ _ assms(2)])
    (fact handler_keeps publish_keeps)+

end

end
