(* ===== verification/Consumer.thy ===== *)
theory Consumer
  imports Retry
begin

text \<open>
  \<open>KafkaConsumer.Consume\<close> of \<open>internal/kafka/consumer.go\<close>: the guards, the poll loop, and the
  handling and committing of records.

  \<^item> What the client delivers is the list of fetches of \<open>PollFetches\<close>, each with the reading of
    \<open>ctx.Err()\<close> after it; when the list is used up the loop is still polling (\<open>Polling\<close>).
  \<^item> \<open>commit\<close> is \<open>client.CommitRecords\<close>, over the same state as the handler.
  \<^item> The definition \<open>traced\<close> lets a handler and a commit write down what they did; the theorem about
    the order of handling and committing is about these traces.
\<close>

record krecord =
  kc_Topic :: string
  kc_Partition :: int
  kc_Offset :: int
  kc_Key :: string
  kc_Value :: payload

record fetches =
  fe_closed :: bool
  fe_errors :: "(string \<times> int \<times> goerr) list"
  fe_records :: "krecord list"
  fe_ctx :: "goerr option"

datatype consumed = Polling | Left "goerr option" | Crashed

type_synonym 's record_handler = "string \<Rightarrow> payload \<Rightarrow> 's \<Rightarrow> handled \<times> 's"
type_synonym 's committer = "krecord \<Rightarrow> 's \<Rightarrow> goerr option \<times> 's"

definition record_text :: "krecord \<Rightarrow> string" where
  "record_text r =
     '' record topic='' @ kc_Topic r @ '' partition='' @ show_int (kc_Partition r) @
     '' offset='' @ show_int (kc_Offset r) @ '': ''"

text \<open>\<open>EachError\<close> keeps the first error of the fetch.\<close>

fun each_error :: "(string \<times> int \<times> goerr) list \<Rightarrow> goerr option \<Rightarrow> goerr option" where
  "each_error [] fetchErr = fetchErr"
| "each_error ((topic, part, err) # es) fetchErr =
     each_error es
       (case fetchErr of
          None \<Rightarrow> Some (Wrap (''fetch error for '' @ topic @ ''['' @ show_int part @ '']: '') err)
        | Some e \<Rightarrow> Some e)"

text \<open>\<open>None\<close> as first component: all records are handled and committed.\<close>

fun consume_records ::
  "'s record_handler \<Rightarrow> 's committer \<Rightarrow> krecord list \<Rightarrow> 's \<Rightarrow> consumed option \<times> 's" where
  "consume_records handle commit [] s = (None, s)"
| "consume_records handle commit (record # records) s =
     (case handle (kc_Key record) (kc_Value record) s of
        (Panicked, s1) \<Rightarrow> (Some Crashed, s1)
      | (Returned (Some err), s1) \<Rightarrow>
          (Some (Left (Some (Wrap (''handle'' @ record_text record) err))), s1)
      | (Returned None, s1) \<Rightarrow>
          (case commit record s1 of
             (Some err, s2) \<Rightarrow>
               (Some (Left (Some (Wrap (''commit'' @ record_text record) err))), s2)
           | (None, s2) \<Rightarrow> consume_records handle commit records s2))"

fun consume_loop ::
  "'s record_handler \<Rightarrow> 's committer \<Rightarrow> fetches list \<Rightarrow> 's \<Rightarrow> consumed \<times> 's" where
  "consume_loop handle commit [] s = (Polling, s)"
| "consume_loop handle commit (f # fs) s =
     (if fe_closed f then (Left None, s)
      else
        let fetchErr = each_error (fe_errors f) None in
        if fe_records f = [] then
          (case fetchErr of
             Some e \<Rightarrow> (Left (Some e), s)
           | None \<Rightarrow>
               (case fe_ctx f of
                  Some e \<Rightarrow> (Left (Some e), s)
                | None \<Rightarrow> consume_loop handle commit fs s))
        else
          (case consume_records handle commit (fe_records f) s of
             (Some out, s1) \<Rightarrow> (out, s1)
           | (None, s1) \<Rightarrow>
               (case fetchErr of
                  Some e \<Rightarrow> (Left (Some e), s1)
                | None \<Rightarrow>
                    (case fe_ctx f of
                       Some e \<Rightarrow> (Left (Some e), s1)
                     | None \<Rightarrow> consume_loop handle commit fs s1))))"

text \<open>
  \<open>consumer\<close> is \<open>None\<close> for a nil receiver and otherwise its broker list, \<open>handle\<close> is \<open>None\<close> for a nil
  function, and \<open>new_client\<close> gives what the Kafka client does.
\<close>

definition Consume ::
  "(string list \<Rightarrow> string \<Rightarrow> string \<Rightarrow> goerr + 's committer \<times> fetches list) \<Rightarrow> string list option \<Rightarrow>
   string \<Rightarrow> string \<Rightarrow> 's record_handler option \<Rightarrow> 's \<Rightarrow> consumed \<times> 's" where
  "Consume new_client consumer topic consumerGroup handle s =
     (case consumer of
        None \<Rightarrow> (Left (Some (Plain ''kafka consumer is not initialized'')), s)
      | Some brokers \<Rightarrow>
          if length brokers = 0 then (Left (Some (Plain ''no kafka brokers configured'')), s)
          else if topic = [] then (Left (Some (Plain ''topic is required'')), s)
          else if consumerGroup = [] then (Left (Some (Plain ''consumer group is required'')), s)
          else
            (case handle of
               None \<Rightarrow> (Left (Some (Plain ''handle is required'')), s)
             | Some h \<Rightarrow>
                 (case new_client brokers topic consumerGroup of
                    Inl err \<Rightarrow> (Left (Some (Wrap ''create kafka consumer: '' err)), s)
                  | Inr (commit, fs) \<Rightarrow> consume_loop h commit fs s)))"

section \<open>Order of handling and committing\<close>

datatype trace_event = Handled string payload handled | Committed krecord "goerr option"

definition traced_handle ::
  "'s record_handler \<Rightarrow> ('s \<times> trace_event list) record_handler" where
  "traced_handle handle key p st =
     (case handle key p (fst st) of (r, s1) \<Rightarrow> (r, (s1, snd st @ [Handled key p r])))"

definition traced_commit :: "'s committer \<Rightarrow> ('s \<times> trace_event list) committer" where
  "traced_commit commit record st =
     (case commit record (fst st) of (r, s1) \<Rightarrow> (r, (s1, snd st @ [Committed record r])))"

lemma traced_pair:
  "traced_handle handle key p (s, tr) =
     (case handle key p s of (r, s1) \<Rightarrow> (r, (s1, tr @ [Handled key p r])))"
  "traced_commit commit record (s, tr) =
     (case commit record s of (e, s1) \<Rightarrow> (e, (s1, tr @ [Committed record e])))"
  by (simp_all add: traced_handle_def traced_commit_def)

definition done_events :: "krecord \<Rightarrow> trace_event list" where
  "done_events r = [Handled (kc_Key r) (kc_Value r) (Returned None), Committed r None]"

text \<open>What a run leaves behind for its next record: nothing, a failure of the handler, or a
  success whose commit failed.\<close>

definition cut_off :: "krecord list \<Rightarrow> trace_event list \<Rightarrow> bool" where
  "cut_off rs tail \<longleftrightarrow>
     tail = [] \<or>
     (\<exists>r rs' h. rs = r # rs' \<and> h \<noteq> Returned None \<and> tail = [Handled (kc_Key r) (kc_Value r) h]) \<or>
     (\<exists>r rs' e. rs = r # rs' \<and>
        tail = [Handled (kc_Key r) (kc_Value r) (Returned None), Committed r (Some e)])"

definition in_order :: "krecord list \<Rightarrow> trace_event list \<Rightarrow> bool" where
  "in_order rs tr \<longleftrightarrow>
     (\<exists>n tail. n \<le> length rs \<and> tr = concat (map done_events (take n rs)) @ tail \<and> cut_off (drop n rs) tail)"

lemma in_order_Nil [simp]: "in_order rs []"
  unfolding in_order_def cut_off_def by (intro exI [of _ 0]) simp

lemma in_order_Cons:
  assumes "in_order rs tr"
  shows "in_order (r # rs) (done_events r @ tr)"
proof -
  from assms obtain n tail where "n \<le> length rs" "tr = concat (map done_events (take n rs)) @ tail"
    "cut_off (drop n rs) tail" unfolding in_order_def by blast
  then show ?thesis unfolding in_order_def by (intro exI [of _ "Suc n"] exI [of _ tail]) simp
qed

lemma in_order_append:
  assumes "in_order rs tr"
  shows "in_order (rs @ rs') tr"
proof -
  from assms obtain n tail where "n \<le> length rs" "tr = concat (map done_events (take n rs)) @ tail"
    "cut_off (drop n rs) tail" unfolding in_order_def by blast
  moreover from this(3) have "cut_off (drop n rs @ rs') tail" unfolding cut_off_def by auto
  ultimately show ?thesis unfolding in_order_def by (intro exI [of _ n] exI [of _ tail]) simp
qed

lemma in_order_prepend:
  "in_order rs' tr \<Longrightarrow> in_order (rs @ rs') (concat (map done_events rs) @ tr)"
  by (induction rs) (simp_all add: in_order_Cons)

lemma consume_records_order:
  "consume_records (traced_handle handle) (traced_commit commit) rs (s, tr) = (out, (s', tr')) \<Longrightarrow>
   \<exists>new. tr' = tr @ new \<and> in_order rs new \<and> (out = None \<longrightarrow> new = concat (map done_events rs))"
proof (induction rs arbitrary: s tr)
  case Nil
  then show ?case by simp
next
  case (Cons r rs)
  obtain h s1 where h: "handle (kc_Key r) (kc_Value r) s = (h, s1)"
    by (cases "handle (kc_Key r) (kc_Value r) s")
  show ?case
  proof (cases "h = Returned None")
    case False
    with Cons.prems h
    have "out \<noteq> None" "tr' = tr @ [Handled (kc_Key r) (kc_Value r) h]"
      by (auto simp: traced_pair split: handled.splits option.splits)
    moreover have "in_order (r # rs) [Handled (kc_Key r) (kc_Value r) h]"
      using False unfolding in_order_def cut_off_def by (intro exI [of _ 0]) simp
    ultimately show ?thesis by auto
  next
    case True
    obtain e s2 where c: "commit r s1 = (e, s2)" by (cases "commit r s1")
    show ?thesis
    proof (cases e)
      case (Some err)
      with Cons.prems h True c have "out \<noteq> None"
        "tr' = tr @ [Handled (kc_Key r) (kc_Value r) (Returned None), Committed r (Some err)]"
        by (auto simp: traced_pair)
      moreover have
        "in_order (r # rs) [Handled (kc_Key r) (kc_Value r) (Returned None), Committed r (Some err)]"
        unfolding in_order_def cut_off_def by (intro exI [of _ 0]) simp
      ultimately show ?thesis by auto
    next
      case None
      with Cons.prems h True c
      have "consume_records (traced_handle handle) (traced_commit commit) rs
          (s2, tr @ done_events r) = (out, (s', tr'))"
        by (simp add: traced_pair done_events_def)
      from Cons.IH [OF this] show ?thesis by (auto simp: in_order_Cons)
    qed
  qed
qed

lemma consume_loop_order:
  "consume_loop (traced_handle handle) (traced_commit commit) fs (s, tr) = (out, (s', tr')) \<Longrightarrow>
   \<exists>new. tr' = tr @ new \<and> in_order (concat (map fe_records fs)) new"
proof (induction fs arbitrary: s tr)
  case Nil
  then show ?case by simp
next
  case (Cons f fs)
  obtain o1 s1 tr1 where rec: "consume_records (traced_handle handle) (traced_commit commit)
      (fe_records f) (s, tr) = (o1, (s1, tr1))"
    by (metis prod_cases3)
  from consume_records_order [OF rec] obtain new1 where new1: "tr1 = tr @ new1"
    "in_order (fe_records f) new1" "o1 = None \<Longrightarrow> new1 = concat (map done_events (fe_records f))" by auto
  show ?case
  proof (cases "\<exists>s0 tr0. consume_loop (traced_handle handle) (traced_commit commit) fs (s0, tr0) =
        (out, (s', tr')) \<and> tr0 = tr @ concat (map done_events (fe_records f))")
    case True
    then obtain s0 where "consume_loop (traced_handle handle) (traced_commit commit) fs
      (s0, tr @ concat (map done_events (fe_records f))) = (out, (s', tr'))" by blast
    from Cons.IH [OF this] show ?thesis by (auto simp: in_order_prepend)
  next
    case False
    with Cons.prems rec new1 have "tr' = tr \<or> tr' = tr1"
      by (auto simp: Let_def split: if_splits option.splits)
    with new1 show ?thesis by (auto simp: in_order_append)
  qed
qed

text \<open>Writing the trace does not change the run.\<close>

lemma consume_records_traced:
  "consume_records (traced_handle handle) (traced_commit commit) rs (s, tr) = (out, (s', tr')) \<Longrightarrow>
   consume_records handle commit rs s = (out, s')"
proof (induction rs arbitrary: s tr)
  case Nil
  then show ?case by simp
next
  case (Cons r rs)
  then show ?case
    by (auto simp: traced_pair split: prod.splits handled.splits option.splits)
qed

lemma consume_loop_traced:
  "consume_loop (traced_handle handle) (traced_commit commit) fs (s, tr) = (out, (s', tr')) \<Longrightarrow>
   consume_loop handle commit fs s = (out, s')"
proof (induction fs arbitrary: s tr)
  case Nil
  then show ?case by simp
next
  case (Cons f fs)
  obtain o1 s1 tr1 where rec: "consume_records (traced_handle handle) (traced_commit commit)
      (fe_records f) (s, tr) = (o1, (s1, tr1))"
    by (metis prod_cases3)
  with Cons consume_records_traced [OF rec] show ?case
    by (auto simp: Let_def split: if_splits option.splits)
qed

text \<open>
  C19. A run of the consumer handles the delivered records one after the other in their order, each
  before the next, and commits the offset of a record exactly after its handler has returned nil: the
  trace is a sequence of handled and committed records, cut off at most at one record whose
  handler or commit failed. So a committed offset never covers an unhandled record, and after a
  failure no later record of the run is touched. The trace is only written down, the run is that
  of the plain loop.
\<close>

theorem consume_in_order:
  assumes "consume_loop (traced_handle handle) (traced_commit commit) fs (s, []) = (out, (s', trace))"
  shows "in_order (concat (map fe_records fs)) trace \<and>
    consume_loop handle commit fs s = (out, s')"
  using consume_loop_order [OF assms] consume_loop_traced [OF assms] by auto

definition sample_record :: "int \<Rightarrow> krecord" where
  "sample_record i =
     \<lparr>kc_Topic = ''t'', kc_Partition = 0, kc_Offset = i, kc_Key = ''k'', kc_Value = Doc (JNum i)\<rparr>"

theorem consume_in_order_witness:
  "\<exists>out s' trace. consume_loop (traced_handle (\<lambda>_ p s. (Returned (if p = Doc (JNum 2) then Some (Plain ''x'')
       else None), s))) (traced_commit (\<lambda>_ s. (None, s)))
       [\<lparr>fe_closed = False, fe_errors = [], fe_records = map sample_record [1, 2, 3], fe_ctx = None\<rparr>]
       (0::int, []) = (out, (s', trace)) \<and>
     length trace = 3 \<and> in_order (map sample_record [1, 2, 3]) trace"
proof -
  let ?h = "\<lambda>_ p s. (Returned (if p = Doc (JNum 2) then Some (Plain ''x'') else None), s)"
  let ?fs = "[\<lparr>fe_closed = False, fe_errors = [], fe_records = map sample_record [1, 2, 3],
      fe_ctx = None\<rparr>]"
  obtain out s' trace where run: "consume_loop (traced_handle ?h) (traced_commit (\<lambda>_ s. (None, s)))
      ?fs (0::int, []) = (out, (s', trace))"
    by (rule prod_cases3)
  then have "length trace = 3"
    by (auto simp: traced_pair sample_record_def)
  with consume_in_order [OF run] run show ?thesis by auto
qed

section \<open>Invariants of a run\<close>

text \<open>A handler that keeps an invariant gives a consumer that keeps it, if committing does.\<close>

locale consumer_invariant =
  fixes handle :: "'s record_handler" and I :: "'s \<Rightarrow> bool"
  assumes handle_keeps: "handle key p s = (r, s') \<Longrightarrow> I s \<Longrightarrow> I s'"
begin

lemma consume_records_keeps:
  assumes commit: "\<And>record s e s'. commit record s = (e, s') \<Longrightarrow> I s \<Longrightarrow> I s'"
  shows "consume_records handle commit rs s = (out, s') \<Longrightarrow> I s \<Longrightarrow> I s'"
proof (induction rs arbitrary: s)
  case Nil
  then show ?case by simp
next
  case (Cons r rs)
  obtain h s1 where h: "handle (kc_Key r) (kc_Value r) s = (h, s1)"
    by (cases "handle (kc_Key r) (kc_Value r) s")
  with Cons.prems(2) have s1: "I s1" by (blast dest: handle_keeps)
  obtain e s2 where c: "commit r s1 = (e, s2)" by (cases "commit r s1")
  with s1 have s2: "I s2" by (blast dest: commit)
  show ?case
    using Cons.prems(1) Cons.IH [of s2] h c s1 s2
    by (simp split: handled.splits option.splits)
qed

lemma consume_loop_keeps:
  assumes commit: "\<And>record s e s'. commit record s = (e, s') \<Longrightarrow> I s \<Longrightarrow> I s'"
  shows "consume_loop handle commit fs s = (out, s') \<Longrightarrow> I s \<Longrightarrow> I s'"
proof (induction fs arbitrary: s)
  case Nil
  then show ?case by simp
next
  case (Cons f fs)
  obtain o1 s1 where rec: "consume_records handle commit (fe_records f) s = (o1, s1)"
    by (cases "consume_records handle commit (fe_records f) s")
  have s1: "I s1" by (rule consume_records_keeps [OF commit rec Cons.prems(2)])
  show ?case
    using Cons.prems Cons.IH [of s] Cons.IH [of s1] rec s1
    by (simp add: Let_def split: if_splits option.splits)
qed

lemma Consume_keeps:
  assumes "Consume new_client consumer topic consumerGroup (Some handle) s = (out, s')" "I s"
    and "\<And>brokers commit fs record s e s'. new_client brokers topic consumerGroup = Inr (commit, fs) \<Longrightarrow>
      commit record s = (e, s') \<Longrightarrow> I s \<Longrightarrow> I s'"
  shows "I s'"
proof (cases "\<exists>brokers commit fs. new_client brokers topic consumerGroup = Inr (commit, fs) \<and>
    consume_loop handle commit fs s = (out, s')")
  case True
  then show ?thesis using assms(2,3) consume_loop_keeps by metis
next
  case False
  with assms(1,2) show ?thesis
    by (auto simp: Consume_def split: option.splits if_splits sum.splits)
qed

end

end
