(* ===== verification/Store.thy ===== *)
theory Store
  imports Database
begin

text \<open>
  \<open>internal/store/store.go\<close>: the queries and transactions of \<open>pgxStore\<close>. Every method takes the
  column types \<open>pg\<close>, and returns its error (\<open>None\<close> for \<open>nil\<close>) or its result with the new world.
\<close>

section \<open>Statements\<close>

text \<open>
  The values of \<open>INSERT INTO transactions\<close> as the columns store them. The \<open>JSONB\<close> of the metadata is the same
  map, whatever the order of its entries.
\<close>

definition txn_row :: "pgtypes \<Rightarrow> transaction \<Rightarrow> goerr + transaction" where
  "txn_row pg t =
     (case as_uuid pg (PaymentID t) of
        Inl e \<Rightarrow> Inl e
      | Inr u \<Rightarrow>
          (case as_char3 pg (Currency (Amount t)) of
             Inl e \<Rightarrow> Inl e
           | Inr c \<Rightarrow>
               Inr (t\<lparr>PaymentID := u, Amount := (Amount t)\<lparr>Currency := c\<rparr>,
                      CreatedAt := ts_in pg (CreatedAt t), UpdatedAt := ts_in pg (UpdatedAt t)\<rparr>)))"

definition insert_txn :: "pgtypes \<Rightarrow> transaction \<Rightarrow> world \<Rightarrow> goerr + unit \<times> world" where
  "insert_txn pg t w =
     (case txn_row pg t of
        Inl e \<Rightarrow> Inl e
      | Inr row \<Rightarrow>
          if PaymentID row \<in> PaymentID ` set (txns w)
          then reject pg (DuplicateKey ''transactions_pkey'')
          else if IdempotencyKey row \<in> IdempotencyKey ` set (txns w)
          then reject pg (DuplicateKey ''idx_txn_idempotency'')
          else Inr ((), w\<lparr>txns := txns w @ [row]\<rparr>))"

definition insert_outbox ::
  "pgtypes \<Rightarrow> string \<Rightarrow> string \<Rightarrow> string \<Rightarrow> payload \<Rightarrow> time \<Rightarrow> world \<Rightarrow> goerr + unit \<times> world" where
  "insert_outbox pg aggregate topic key p created w =
     (case as_uuid pg aggregate of
        Inl e \<Rightarrow> Inl e
      | Inr u \<Rightarrow>
          (case as_jsonb pg p of
             Inl e \<Rightarrow> Inl e
           | Inr j \<Rightarrow>
               Inr ((), w\<lparr>outbox := outbox w @
                           [\<lparr>ob_id = outbox_seq w, ob_aggregate_id = u, ob_topic = topic,
                             ob_partition_key = key, ob_payload = j,
                             ob_created_at = ts_in pg created, ob_published_at = None\<rparr>],
                         outbox_seq := outbox_seq w + 1\<rparr>)))"

section \<open>Reading and saving\<close>

definition GetByPaymentID ::
  "pgtypes \<Rightarrow> string \<Rightarrow> world \<Rightarrow> (goerr + transaction) \<times> world" where
  "GetByPaymentID pg paymentID w =
     (case call (\<lambda>w. case as_uuid pg paymentID of
                   Inl e \<Rightarrow> Inl e
                 | Inr u \<Rightarrow>
                     (case find (\<lambda>r. PaymentID r = u) (txns w) of
                        None \<Rightarrow> Inl (Sentinel NoRows)
                      | Some r \<Rightarrow> Inr (r, w))) w of
        (Inr r, w1) \<Rightarrow> (Inr r, w1)
      | (Inl err, w1) \<Rightarrow>
          if errors_is err NoRows
          then (Inl (Plain (''transaction not found for payment_id='' @ paymentID)), w1)
          else (Inl (Wrap ''query transaction by payment_id: '' err), w1))"

definition GetByIdempotencyKey ::
  "string \<Rightarrow> world \<Rightarrow> (goerr + transaction) \<times> world" where
  "GetByIdempotencyKey key w =
     (case call (\<lambda>w. case find (\<lambda>r. IdempotencyKey r = key) (txns w) of
                        None \<Rightarrow> Inl (Sentinel NoRows)
                      | Some r \<Rightarrow> Inr (r, w)) w of
        (Inr r, w1) \<Rightarrow> (Inr r, w1)
      | (Inl err, w1) \<Rightarrow>
          if errors_is err NoRows
          then (Inl (Plain (''transaction not found for idempotency_key='' @ key)), w1)
          else (Inl (Wrap ''query transaction by idempotency_key: '' err), w1))"

definition Save :: "pgtypes \<Rightarrow> transaction \<Rightarrow> world \<Rightarrow> goerr option \<times> world" where
  "Save pg t w =
     (case call (insert_txn pg t) w of
        (Inl err, w1) \<Rightarrow> (Some (Wrap ''insert transaction: '' err), w1)
      | (Inr _, w1) \<Rightarrow> (None, w1))"

text \<open>
  The deferred function commits when no statement failed; the error of \<open>Commit\<close> is dropped.
\<close>

definition SaveWithOutbox ::
  "pgtypes \<Rightarrow> transaction \<Rightarrow> payload \<Rightarrow> world \<Rightarrow> goerr option \<times> world" where
  "SaveWithOutbox pg t outboxPayload w =
     (case tx_begin w of
        (Inl err, w0) \<Rightarrow> (Some (Wrap ''begin transaction: '' err), w0)
      | (Inr _, w0) \<Rightarrow>
          (case call (insert_txn pg t) w0 of
             (Inl err, w1) \<Rightarrow> (Some (Wrap ''insert transaction: '' err), tx_rollback w0 w1)
           | (Inr _, w1) \<Rightarrow>
               (case call (insert_outbox pg (PaymentID t) ''payments.received'' (AccountID t)
                             outboxPayload (CreatedAt t)) w1 of
                  (Inl err, w2) \<Rightarrow> (Some (Wrap ''insert outbox: '' err), tx_rollback w0 w2)
                | (Inr _, w2) \<Rightarrow> (None, snd (tx_commit w0 w2)))))"

section \<open>State changes\<close>

text \<open>The guarded update, with the number of rows it changed.\<close>

definition update_state_rows ::
  "pgtypes \<Rightarrow> time \<Rightarrow> string \<Rightarrow> state \<Rightarrow> state \<Rightarrow> world \<Rightarrow> goerr + nat \<times> world" where
  "update_state_rows pg now paymentID from to w =
     (case as_uuid pg paymentID of
        Inl e \<Rightarrow> Inl e
      | Inr u \<Rightarrow>
          let hit = (\<lambda>r. PaymentID r = u \<and> State r = from) in
          Inr (length (filter hit (txns w)),
               w\<lparr>txns := update_where hit (\<lambda>r. r\<lparr>State := to, UpdatedAt := now\<rparr>) (txns w)\<rparr>))"

definition select_state :: "pgtypes \<Rightarrow> string \<Rightarrow> world \<Rightarrow> goerr + state \<times> world" where
  "select_state pg paymentID w =
     (case as_uuid pg paymentID of
        Inl e \<Rightarrow> Inl e
      | Inr u \<Rightarrow>
          (case find (\<lambda>r. PaymentID r = u) (txns w) of
             None \<Rightarrow> Inl (Sentinel NoRows)
           | Some r \<Rightarrow> Inr (State r, w)))"

definition insert_transition ::
  "pgtypes \<Rightarrow> time \<Rightarrow> string \<Rightarrow> state \<Rightarrow> state \<Rightarrow> world \<Rightarrow> goerr + unit \<times> world" where
  "insert_transition pg now paymentID from to w =
     (case as_uuid pg paymentID of
        Inl e \<Rightarrow> Inl e
      | Inr u \<Rightarrow>
          Inr ((), w\<lparr>transitions := transitions w @
                      [\<lparr>tr_payment_id = u, tr_from = from, tr_to = to, tr_at = now\<rparr>]\<rparr>))"

definition stale_error :: "string \<Rightarrow> state \<Rightarrow> state \<Rightarrow> state \<Rightarrow> goerr" where
  "stale_error paymentID from to current =
     Plain (''UpdateState: stale transition '' @ from @ ''->'' @ to @ '': current state is '' @
            current @ '' (payment '' @ paymentID @ '')'')"

definition UpdateState ::
  "pgtypes \<Rightarrow> time \<Rightarrow> string \<Rightarrow> state \<Rightarrow> state \<Rightarrow> world \<Rightarrow> goerr option \<times> world" where
  "UpdateState pg now paymentID from to w =
     (case Transition from to of
        Some err \<Rightarrow> (Some (Wrap ''UpdateState: '' err), w)
      | None \<Rightarrow>
          (case tx_begin w of
             (Inl err, w0) \<Rightarrow> (Some (Wrap ''UpdateState: begin tx: '' err), w0)
           | (Inr _, w0) \<Rightarrow>
               (case call (update_state_rows pg now paymentID from to) w0 of
                  (Inl err, w1) \<Rightarrow>
                    (Some (Wrap ''UpdateState: update transactions: '' err), tx_rollback w0 w1)
                | (Inr rows, w1) \<Rightarrow>
                    if rows = 0 then
                      (case call (select_state pg paymentID) w1 of
                         (Inl err, w2) \<Rightarrow>
                           if errors_is err NoRows
                           then (Some (Plain (''UpdateState: payment '' @ paymentID @ '' not found'')),
                                 tx_rollback w0 w2)
                           else (Some (Wrap ''UpdateState: check current state: '' err),
                                 tx_rollback w0 w2)
                       | (Inr current, w2) \<Rightarrow>
                           (Some (stale_error paymentID from to current), tx_rollback w0 w2))
                    else
                      (case call (insert_transition pg now paymentID from to) w1 of
                         (Inl err, w2) \<Rightarrow>
                           (Some (Wrap ''UpdateState: insert state_transitions: '' err),
                            tx_rollback w0 w2)
                       | (Inr _, w2) \<Rightarrow>
                           (case tx_commit w0 w2 of
                              (Some err, w3) \<Rightarrow> (Some (Wrap ''UpdateState: commit: '' err), w3)
                            | (None, w3) \<Rightarrow> (None, w3))))))"

section \<open>What the statements do\<close>

lemma insert_txn_effect:
  "insert_txn pg t w = Inr (x, w') \<longleftrightarrow>
     (\<exists>row. txn_row pg t = Inr row \<and> PaymentID row \<notin> PaymentID ` set (txns w) \<and>
        IdempotencyKey row \<notin> IdempotencyKey ` set (txns w) \<and>
        w' = w\<lparr>txns := txns w @ [row]\<rparr>)"
  by (auto simp: insert_txn_def reject_def split: sum.splits)

definition outbox_entry ::
  "pgtypes \<Rightarrow> int \<Rightarrow> string \<Rightarrow> string \<Rightarrow> string \<Rightarrow> json \<Rightarrow> time \<Rightarrow> outbox_row" where
  "outbox_entry pg i aggregate topic key j created =
     \<lparr>ob_id = i, ob_aggregate_id = aggregate, ob_topic = topic, ob_partition_key = key,
      ob_payload = jsonb (member_rank pg) j, ob_created_at = ts_in pg created, ob_published_at = None\<rparr>"

lemma outbox_entry_simps [simp]:
  "ob_id (outbox_entry pg i a t k j c) = i"
  "ob_aggregate_id (outbox_entry pg i a t k j c) = a"
  "ob_topic (outbox_entry pg i a t k j c) = t"
  "ob_partition_key (outbox_entry pg i a t k j c) = k"
  "ob_payload (outbox_entry pg i a t k j c) = jsonb (member_rank pg) j"
  "ob_published_at (outbox_entry pg i a t k j c) = None"
  by (simp_all add: outbox_entry_def)

lemma as_jsonb_Inr: "as_jsonb pg p = Inr j \<longleftrightarrow> (\<exists>d. p = Doc d \<and> j = jsonb (member_rank pg) d)"
  by (auto simp: as_jsonb_def reject_def split: payload.splits)

lemma as_uuid_Inr: "as_uuid pg s = Inr u \<longleftrightarrow> uuid_in pg s = Some u"
  by (auto simp: as_uuid_def reject_def split: option.splits)

lemma insert_outbox_effect:
  "insert_outbox pg a topic k p c w = Inr (x, w') \<longleftrightarrow>
     (\<exists>u j. uuid_in pg a = Some u \<and> p = Doc j \<and>
        w' = w\<lparr>outbox := outbox w @ [outbox_entry pg (outbox_seq w) u topic k j c],
               outbox_seq := outbox_seq w + 1\<rparr>)"
  by (auto simp: insert_outbox_def outbox_entry_def as_uuid_def as_jsonb_def reject_def
      split: option.splits payload.splits)

lemma txn_row_fields:
  "txn_row pg t = Inr row \<Longrightarrow>
     uuid_in pg (PaymentID t) = Some (PaymentID row) \<and> IdempotencyKey row = IdempotencyKey t \<and>
     AccountID row = AccountID t \<and> State row = State t \<and>
     MinorUnits (Amount row) = MinorUnits (Amount t) \<and>
     char3_in pg (Currency (Amount t)) = Some (Currency (Amount row)) \<and>
     CreatedAt row = ts_in pg (CreatedAt t)"
  by (auto simp: txn_row_def as_uuid_def as_char3_def reject_def split: sum.splits option.splits)

section \<open>SaveWithOutbox is all or nothing\<close>

text \<open>The world after a committed \<open>SaveWithOutbox\<close>.\<close>

definition saved_world ::
  "pgtypes \<Rightarrow> transaction \<Rightarrow> transaction \<Rightarrow> json \<Rightarrow> world \<Rightarrow> world" where
  "saved_world pg t row j w =
     w\<lparr>txns := txns w @ [row],
       outbox := outbox w @
         [outbox_entry pg (outbox_seq w) (PaymentID row) ''payments.received'' (AccountID t) j
            (CreatedAt t)],
       outbox_seq := outbox_seq w + 1\<rparr>"

definition insertable :: "pgtypes \<Rightarrow> transaction \<Rightarrow> transaction \<Rightarrow> world \<Rightarrow> bool" where
  "insertable pg t row w \<longleftrightarrow>
     txn_row pg t = Inr row \<and> PaymentID row \<notin> PaymentID ` set (txns w) \<and>
     IdempotencyKey row \<notin> IdempotencyKey ` set (txns w)"

lemma SaveWithOutbox_cases:
  assumes run: "SaveWithOutbox pg t p w = (r, w')"
  obtains (unchanged) "idle w w'"
    | (saved) row j s where "r = None" "p = Doc j" "insertable pg t row w"
        "w' = (saved_world pg t row j w)\<lparr>script := s\<rparr>"
proof -
  obtain b w0 where b: "tx_begin w = (b, w0)" by (cases "tx_begin w")
  then obtain s0 where w0: "w0 = w\<lparr>script := s0\<rparr>" by (auto dest: tx_begin_world)
  obtain r1 w1 where c1: "call (insert_txn pg t) w0 = (r1, w1)"
    by (cases "call (insert_txn pg t) w0")
  let ?ob = "insert_outbox pg (PaymentID t) ''payments.received'' (AccountID t) p (CreatedAt t)"
  obtain r2 w2 where c2: "call ?ob w1 = (r2, w2)" by (cases "call ?ob w1")
  have seq1: "outbox_seq w0 \<le> outbox_seq w1"
    using c1 by (rule call_seq) (auto simp: insert_txn_effect)
  have seq2: "outbox_seq w1 \<le> outbox_seq w2"
    using c2 by (rule call_seq) (auto simp: insert_outbox_effect)
  have idle0: "idle w w0" using w0 by simp
  show ?thesis
  proof (cases "\<exists>x y z. b = Inr x \<and> r1 = Inr y \<and> r2 = Inr z")
    case False
    with run b c1 c2 have "w' = w0 \<or> w' = tx_rollback w0 w1 \<or> w' = tx_rollback w0 w2"
      unfolding SaveWithOutbox_def by (auto split: sum.splits)
    then have "idle w w'" using idle0 seq1 seq2 by (auto intro: idle_rollback)
    then show ?thesis by (rule unchanged)
  next
    case True
    then obtain x y z where ok: "b = Inr x" "r1 = Inr y" "r2 = Inr z" by blast
    with run b c1 c2 have r: "r = None" and w': "w' = snd (tx_commit w0 w2)"
      unfolding SaveWithOutbox_def by auto
    from c1 ok obtain s1 where "insert_txn pg t (w0\<lparr>script := s1\<rparr>) = Inr (y, w1)"
      by (auto elim: call_success)
    then obtain row where row: "insertable pg t row w"
      and w1: "w1 = w\<lparr>script := s1, txns := txns w @ [row]\<rparr>"
      using w0 by (auto simp: insert_txn_effect insertable_def)
    from c2 ok obtain s2 where "?ob (w1\<lparr>script := s2\<rparr>) = Inr (z, w2)"
      by (auto elim: call_success)
    then obtain u j where u: "uuid_in pg (PaymentID t) = Some u" and j: "p = Doc j"
      and w2: "w2 = w1\<lparr>script := s2,
        outbox := outbox w1 @ [outbox_entry pg (outbox_seq w1) u ''payments.received''
          (AccountID t) j (CreatedAt t)], outbox_seq := outbox_seq w1 + 1\<rparr>"
      by (auto simp: insert_outbox_effect)
    from row u have u': "u = PaymentID row" by (auto simp: insertable_def dest: txn_row_fields)
    obtain rc wc where commit: "tx_commit w0 w2 = (rc, wc)" by (cases "tx_commit w0 w2")
    with w' have "w' = wc" by simp
    from commit show ?thesis
    proof (cases rule: tx_commit_cases)
      case (committed s)
      have "w' = (saved_world pg t row j w)\<lparr>script := s\<rparr>"
        using committed \<open>w' = wc\<close> w2 w1 u' by (simp add: saved_world_def)
      with r j row show ?thesis by (rule saved)
    next
      case (aborted s)
      then have "idle w w'"
        using \<open>w' = wc\<close> idle0 seq1 seq2 by (auto intro!: idle_rollback)
      then show ?thesis by (rule unchanged)
    qed
  qed
qed

text \<open>
  C10. However the calls to the database fail, \<open>SaveWithOutbox\<close> never leaves half of its work: either
  no table changes, or exactly one transaction row and one unpublished outbox row for that
  payment, keyed by the account and carrying the payload, are added and nothing else changes.
\<close>

theorem SaveWithOutbox_atomic:
  assumes "SaveWithOutbox pg t p w = (r, w')"
  shows "visible w' = visible w \<or>
    (\<exists>row ob. r = None \<and> visible w' = visible (w\<lparr>txns := txns w @ [row], outbox := outbox w @ [ob]\<rparr>) \<and>
       txn_row pg t = Inr row \<and> ob_aggregate_id ob = PaymentID row \<and>
       ob_topic ob = ''payments.received'' \<and> ob_partition_key ob = AccountID row \<and>
       (\<exists>j. p = Doc j \<and> ob_payload ob = jsonb (member_rank pg) j) \<and> ob_published_at ob = None)"
  using assms
proof (cases rule: SaveWithOutbox_cases)
  case unchanged
  then show ?thesis by (simp add: idle_visible)
next
  case (saved row j s)
  let ?ob = "outbox_entry pg (outbox_seq w) (PaymentID row) ''payments.received'' (AccountID t) j
    (CreatedAt t)"
  have "txn_row pg t = Inr row" using saved by (simp add: insertable_def)
  moreover from this have "AccountID row = AccountID t" by (simp add: txn_row_fields)
  moreover have "visible w' = visible (w\<lparr>txns := txns w @ [row], outbox := outbox w @ [?ob]\<rparr>)"
    using saved by (simp add: saved_world_def visible_def)
  ultimately show ?thesis using saved by auto
qed

text \<open>Column types and a payment to evaluate the model with.\<close>

definition sample_pg :: pgtypes where
  "sample_pg =
     \<lparr>uuid_in = (\<lambda>s. if s = [] then None else Some s),
      char3_in = (\<lambda>s. if length s \<le> 3 then Some (s @ replicate (3 - length s) (CHR '' '')) else None),
      ts_in = (\<lambda>t. t div 1000 * 1000), collate = (\<lambda>s. s), member_rank = length,
      reject_text = (\<lambda>_. ''rejected'')\<rparr>"

definition sample_txn :: "string \<Rightarrow> string \<Rightarrow> transaction" where
  "sample_txn pid key =
     \<lparr>PaymentID = pid, IdempotencyKey = key, Source = SourceCard, ExternalTxnID = ''ext'',
      AccountID = ''acct'', Amount = \<lparr>MinorUnits = 2500, Currency = ''USD''\<rparr>,
      State = StateValidated, SchemaVersion = 1, Metadata = None, CreatedAt = 0, UpdatedAt = 0\<rparr>"

theorem SaveWithOutbox_atomic_witness:
  "\<exists>r w'. SaveWithOutbox sample_pg (sample_txn ''p'' ''k'') (Doc JNull)
       (empty_world\<lparr>script := [Done, Done, Refused ''down'']\<rparr>) = (r, w') \<and>
     visible w' = visible empty_world"
proof -
  let ?w = "empty_world\<lparr>script := [Done, Done, Refused ''down'']\<rparr>"
  obtain r w' where run: "SaveWithOutbox sample_pg (sample_txn ''p'' ''k'') (Doc JNull) ?w = (r, w')"
    by (cases "SaveWithOutbox sample_pg (sample_txn ''p'' ''k'') (Doc JNull) ?w")
  then have "r \<noteq> None"
    by (auto simp: SaveWithOutbox_def tx_begin_def call_def pop_def insert_txn_def txn_row_def
        as_uuid_def as_char3_def sample_pg_def sample_txn_def empty_world_def)
  with SaveWithOutbox_atomic [OF run] run show ?thesis by auto
qed

text \<open>Without failures the save succeeds exactly when the row fits the schema.\<close>

lemma SaveWithOutbox_clean:
  assumes "script w = []"
  shows "fst (SaveWithOutbox pg t p w) = None \<longleftrightarrow>
    (\<exists>row j. insertable pg t row w \<and> p = Doc j)"
    and "insertable pg t row w \<Longrightarrow> p = Doc j \<Longrightarrow>
      SaveWithOutbox pg t p w = (None, saved_world pg t row j w)"
proof -
  have step: "call (insert_txn pg t) w = (Inr (), w\<lparr>txns := txns w @ [row]\<rparr>)"
    if "insertable pg t row w" for row
  proof -
    have "insert_txn pg t w = Inr ((), w\<lparr>txns := txns w @ [row]\<rparr>)"
      using that by (simp add: insert_txn_effect insertable_def)
    with assms show ?thesis by (simp add: call_nil)
  qed
  show ok: "insertable pg t row w \<Longrightarrow> p = Doc j \<Longrightarrow>
      SaveWithOutbox pg t p w = (None, saved_world pg t row j w)" for row j
  proof -
    assume row: "insertable pg t row w" and p: "p = Doc j"
    then have u: "uuid_in pg (PaymentID t) = Some (PaymentID row)"
      by (auto simp: insertable_def dest: txn_row_fields)
    have "insert_outbox pg (PaymentID t) ''payments.received'' (AccountID t) p (CreatedAt t)
        (w\<lparr>txns := txns w @ [row]\<rparr>) = Inr ((), saved_world pg t row j w)"
      using u p by (simp add: insert_outbox_effect saved_world_def)
    moreover have "script (saved_world pg t row j w) = []"
      using assms by (simp add: saved_world_def)
    ultimately show ?thesis
      using step [OF row] assms
      by (simp add: SaveWithOutbox_def tx_begin_def call_nil tx_commit_def pop_nil)
  qed
  show "fst (SaveWithOutbox pg t p w) = None \<longleftrightarrow> (\<exists>row j. insertable pg t row w \<and> p = Doc j)"
  proof
    assume none: "fst (SaveWithOutbox pg t p w) = None"
    show "\<exists>row j. insertable pg t row w \<and> p = Doc j"
    proof (cases "insert_txn pg t w")
      case (Inl e)
      with none assms show ?thesis
        by (simp add: SaveWithOutbox_def tx_begin_def call_nil)
    next
      case (Inr yw)
      then obtain row where row: "insertable pg t row w"
        by (cases yw) (auto simp: insert_txn_effect insertable_def)
      have "\<exists>j. p = Doc j"
      proof (rule ccontr)
        assume "\<nexists>j. p = Doc j"
        then obtain e where e: "insert_outbox pg (PaymentID t) ''payments.received'' (AccountID t) p
            (CreatedAt t) (w\<lparr>txns := txns w @ [row]\<rparr>) = Inl e"
          using insert_outbox_effect [of pg "PaymentID t" "''payments.received''" "AccountID t" p
              "CreatedAt t" "w\<lparr>txns := txns w @ [row]\<rparr>"]
          by (cases "insert_outbox pg (PaymentID t) ''payments.received'' (AccountID t) p
            (CreatedAt t) (w\<lparr>txns := txns w @ [row]\<rparr>)") (metis, metis surj_pair)
        with none assms step [OF row] show False
          by (simp add: SaveWithOutbox_def tx_begin_def call_nil)
      qed
      with row show ?thesis by blast
    qed
  qed (use ok in auto)
qed

text \<open>
  C37. The error of \<open>Commit\<close> is dropped: when the server refuses to commit, \<open>SaveWithOutbox\<close> still
  reports success, for every payment that fits the schema, although neither row exists.
\<close>

theorem SaveWithOutbox_silent_loss:
  assumes "insertable pg t row w" "p = Doc j" "script w = [Done, Done, Done, Refused msg]"
  shows "\<exists>w'. SaveWithOutbox pg t p w = (None, w') \<and> visible w' = visible w"
proof -
  have u: "uuid_in pg (PaymentID t) = Some (PaymentID row)"
    using assms(1) by (auto simp: insertable_def dest: txn_row_fields)
  have "insert_txn pg t (w\<lparr>script := s\<rparr>) =
      Inr ((), w\<lparr>script := s, txns := txns w @ [row]\<rparr>)" for s
    using assms(1) by (simp add: insert_txn_effect insertable_def)
  moreover have "insert_outbox pg (PaymentID t) topic k p c w1 = Inr ((),
      w1\<lparr>outbox := outbox w1 @ [outbox_entry pg (outbox_seq w1) (PaymentID row) topic k j c],
         outbox_seq := outbox_seq w1 + 1\<rparr>)" for topic k c w1
    using u assms(2) by (simp add: insert_outbox_effect)
  ultimately show ?thesis
    by (simp add: SaveWithOutbox_def tx_begin_def call_def pop_def assms(3) tx_commit_def)
qed

theorem SaveWithOutbox_silent_loss_witness:
  "\<exists>w'. SaveWithOutbox sample_pg (sample_txn ''p'' ''k'') (Doc JNull)
       (empty_world\<lparr>script := [Done, Done, Done, Refused ''down'']\<rparr>) = (None, w') \<and>
     visible w' = visible empty_world"
proof -
  have "insertable sample_pg (sample_txn ''p'' ''k'') (sample_txn ''p'' ''k'')
      (empty_world\<lparr>script := [Done, Done, Done, Refused ''down'']\<rparr>)"
    by (simp add: insertable_def txn_row_def as_uuid_def as_char3_def sample_pg_def sample_txn_def
        empty_world_def)
  from SaveWithOutbox_silent_loss [OF this refl] show ?thesis by auto
qed

section \<open>UpdateState is a guarded move\<close>

definition moved_world ::
  "time \<Rightarrow> string \<Rightarrow> state \<Rightarrow> state \<Rightarrow> world \<Rightarrow> world" where
  "moved_world now u from to w =
     w\<lparr>txns := update_where (\<lambda>r. PaymentID r = u \<and> State r = from)
                 (\<lambda>r. r\<lparr>State := to, UpdatedAt := now\<rparr>) (txns w),
       transitions := transitions w @
         [\<lparr>tr_payment_id = u, tr_from = from, tr_to = to, tr_at = now\<rparr>]\<rparr>"

lemma update_state_rows_effect:
  "update_state_rows pg now pid from to w = Inr (n, w') \<longleftrightarrow>
     (\<exists>u. uuid_in pg pid = Some u \<and>
        n = length (filter (\<lambda>r. PaymentID r = u \<and> State r = from) (txns w)) \<and>
        w' = w\<lparr>txns := update_where (\<lambda>r. PaymentID r = u \<and> State r = from)
                 (\<lambda>r. r\<lparr>State := to, UpdatedAt := now\<rparr>) (txns w)\<rparr>)"
  unfolding update_state_rows_def as_uuid_Inr [symmetric] by (auto simp: Let_def split: sum.splits)

lemma insert_transition_effect:
  "insert_transition pg now pid from to w = Inr (x, w') \<longleftrightarrow>
     (\<exists>u. uuid_in pg pid = Some u \<and>
        w' = w\<lparr>transitions := transitions w @
          [\<lparr>tr_payment_id = u, tr_from = from, tr_to = to, tr_at = now\<rparr>]\<rparr>)"
  unfolding insert_transition_def as_uuid_Inr [symmetric] by (auto split: sum.splits)

lemma select_state_effect:
  "select_state pg pid w = Inr (s, w') \<Longrightarrow> w' = w"
  by (auto simp: select_state_def split: sum.splits option.splits)

lemma UpdateState_cases:
  assumes run: "UpdateState pg now pid from to w = (r, w')"
  obtains (unchanged) "r \<noteq> None" "idle w w'"
    | (moved) u s where "Transition from to = None" "uuid_in pg pid = Some u"
        "\<exists>row \<in> set (txns w). PaymentID row = u \<and> State row = from"
        "w' = (moved_world now u from to w)\<lparr>script := s\<rparr>"
        "r = None \<or> (\<exists>e. r = Some (Wrap ''UpdateState: commit: '' e))"
proof -
  obtain b w0 where b: "tx_begin w = (b, w0)" by (cases "tx_begin w")
  then obtain s0 where w0: "w0 = w\<lparr>script := s0\<rparr>" by (auto dest: tx_begin_world)
  let ?up = "update_state_rows pg now pid from to"
  let ?ins = "insert_transition pg now pid from to"
  obtain r1 w1 where c1: "call ?up w0 = (r1, w1)" by (cases "call ?up w0")
  obtain rs ws where cs: "call (select_state pg pid) w1 = (rs, ws)"
    by (cases "call (select_state pg pid) w1")
  obtain r2 w2 where c2: "call ?ins w1 = (r2, w2)" by (cases "call ?ins w1")
  obtain rc wc where cc: "tx_commit w0 w2 = (rc, wc)" by (cases "tx_commit w0 w2")
  have seq1: "outbox_seq w0 \<le> outbox_seq w1"
    using c1 by (rule call_seq) (auto simp: update_state_rows_effect)
  have seqs: "outbox_seq w1 \<le> outbox_seq ws"
    using cs by (rule call_seq) (auto dest: select_state_effect)
  have seq2: "outbox_seq w1 \<le> outbox_seq w2"
    using c2 by (rule call_seq) (auto simp: insert_transition_effect)
  have idle0: "idle w w0" using w0 by simp
  have idles: "idle w (tx_rollback w0 w1)" "idle w (tx_rollback w0 ws)" "idle w (tx_rollback w0 w2)"
    using idle0 seq1 seqs seq2 by (auto intro: idle_rollback)
  show ?thesis
  proof (cases "\<exists>x n z. Transition from to = None \<and> b = Inr x \<and> r1 = Inr n \<and> n \<noteq> 0 \<and> r2 = Inr z")
    case False
    have "r \<noteq> None \<and> w' \<in> {w, w0, tx_rollback w0 w1, tx_rollback w0 ws, tx_rollback w0 w2}"
      using False run b c1 cs c2 cc unfolding UpdateState_def
      by (auto split: option.splits sum.splits if_splits)
    then have "r \<noteq> None" "idle w w'" using idle0 idles by auto
    then show ?thesis by (rule unchanged)
  next
    case True
    then obtain x n z where ok: "Transition from to = None" "b = Inr x" "r1 = Inr n" "n \<noteq> 0"
      "r2 = Inr z" by blast
    with run b c1 c2 cc
    have r: "r = map_option (Wrap ''UpdateState: commit: '') rc" and w': "w' = wc"
      unfolding UpdateState_def by (auto split: option.splits)
    from c1 ok obtain s1 where "?up (w0\<lparr>script := s1\<rparr>) = Inr (n, w1)" by (auto elim: call_success)
    then obtain u where u: "uuid_in pg pid = Some u"
      and n: "n = length (filter (\<lambda>r. PaymentID r = u \<and> State r = from) (txns w))"
      and w1: "w1 = w\<lparr>script := s1, txns := update_where (\<lambda>r. PaymentID r = u \<and> State r = from)
                 (\<lambda>r. r\<lparr>State := to, UpdatedAt := now\<rparr>) (txns w)\<rparr>"
      using w0 by (auto simp: update_state_rows_effect)
    have hit: "\<exists>row \<in> set (txns w). PaymentID row = u \<and> State row = from"
      using n ok(4) by (auto simp: filter_empty_conv)
    from c2 ok obtain s2 where "?ins (w1\<lparr>script := s2\<rparr>) = Inr (z, w2)" by (auto elim: call_success)
    with u w1 have w2: "w2 = (moved_world now u from to w)\<lparr>script := s2\<rparr>"
      by (auto simp: insert_transition_effect moved_world_def)
    from cc show ?thesis
    proof (cases rule: tx_commit_cases)
      case (committed s)
      with w' w2 have "w' = (moved_world now u from to w)\<lparr>script := s\<rparr>" by simp
      moreover have "r = None \<or> (\<exists>e. r = Some (Wrap ''UpdateState: commit: '' e))"
        using r by (cases rc) auto
      ultimately show ?thesis using ok(1) u hit by (intro moved)
    next
      case (aborted s)
      then have "idle w w'"
        using w' idle0 seq1 seq2 by (auto intro!: idle_rollback)
      moreover have "r \<noteq> None" using aborted(2) r by auto
      ultimately show ?thesis by (intro unchanged)
    qed
  qed
qed

lemma update_where_unique:
  assumes "distinct (map PaymentID rows)" "row \<in> set rows" "PaymentID row = u" "State row = from"
  obtains before after where "rows = before @ row # after"
    "update_where (\<lambda>r. PaymentID r = u \<and> State r = from) f rows = before @ f row # after"
proof -
  obtain before after where rows: "rows = before @ row # after"
    using assms(2) by (auto dest: split_list)
  with assms(1,3) have "\<forall>r \<in> set before. PaymentID r \<noteq> u" "\<forall>r \<in> set after. PaymentID r \<noteq> u"
    by (auto simp: image_iff)
  then have "update_where (\<lambda>r. PaymentID r = u \<and> State r = from) f rows = before @ f row # after"
    using assms(3,4) by (simp add: rows update_where_none)
  with rows that show ?thesis by blast
qed

text \<open>
  C11. However the database calls fail, \<open>UpdateState\<close> either changes nothing another process can see
  and reports an error, or moves exactly one payment along an edge of the lifecycle, from the state
  the caller named, and adds exactly one audit row with that move.
\<close>

theorem UpdateState_guarded:
  assumes unique: "distinct (map PaymentID (txns w))"
    and run: "UpdateState pg now pid from to w = (r, w')"
  shows "(r \<noteq> None \<and> visible w' = visible w) \<or>
    (\<exists>a b u before row after.
       from = state_text a \<and> to = state_text b \<and> lifecycle_edge a b \<and>
       uuid_in pg pid = Some u \<and> txns w = before @ row # after \<and>
       PaymentID row = u \<and> State row = from \<and>
       visible w' = visible (w\<lparr>
         txns := before @ row\<lparr>State := to, UpdatedAt := now\<rparr> # after,
         transitions := transitions w @
           [\<lparr>tr_payment_id = u, tr_from = from, tr_to = to, tr_at = now\<rparr>]\<rparr>))"
  using run
proof (cases rule: UpdateState_cases)
  case unchanged
  then show ?thesis by (simp add: idle_visible)
next
  case (moved u s)
  then obtain row where row: "row \<in> set (txns w)" "PaymentID row = u" "State row = from" by blast
  obtain before after where split: "txns w = before @ row # after"
    and upd: "update_where (\<lambda>r. PaymentID r = u \<and> State r = from)
       (\<lambda>r. r\<lparr>State := to, UpdatedAt := now\<rparr>) (txns w) =
     before @ row\<lparr>State := to, UpdatedAt := now\<rparr> # after"
    by (rule update_where_unique [OF unique row])
  obtain a b where edge: "from = state_text a" "to = state_text b" "lifecycle_edge a b"
    using moved(1) Transition_vocabulary Transition_text by metis
  have "visible w' = visible (w\<lparr>
      txns := before @ row\<lparr>State := to, UpdatedAt := now\<rparr> # after,
      transitions := transitions w @
        [\<lparr>tr_payment_id = u, tr_from = from, tr_to = to, tr_at = now\<rparr>]\<rparr>)"
    using moved(4) upd by (simp only: moved_world_def visible_script)
  with edge moved(2) split row(2,3) show ?thesis by blast
qed

definition one_payment :: "string \<Rightarrow> world" where
  "one_payment s = empty_world\<lparr>txns := [(sample_txn ''p'' ''k'')\<lparr>State := s\<rparr>]\<rparr>"

lemma UpdateState_one_payment:
  "UpdateState sample_pg 9 ''p'' StateValidated StateCaptured (one_payment StateValidated) =
     (None, moved_world 9 ''p'' StateValidated StateCaptured (one_payment StateValidated))"
  by (simp add: UpdateState_def Transition_def map_of_allowed state_defs tx_begin_def call_nil
      one_payment_def empty_world_def update_state_rows_def as_uuid_def sample_pg_def
      sample_txn_def insert_transition_def tx_commit_def pop_nil moved_world_def)

theorem UpdateState_guarded_witness:
  "visible (moved_world 9 ''p'' StateValidated StateCaptured (one_payment StateValidated)) \<noteq>
     visible (one_payment StateValidated) \<and>
   (\<exists>a b. StateValidated = state_text a \<and> StateCaptured = state_text b \<and> lifecycle_edge a b)"
proof -
  have "distinct (map PaymentID (txns (one_payment StateValidated)))"
    by (simp add: one_payment_def)
  from UpdateState_guarded [OF this UpdateState_one_payment]
  have "\<exists>a b. StateValidated = state_text a \<and> StateCaptured = state_text b \<and> lifecycle_edge a b"
    by blast
  moreover have "transitions (visible (moved_world 9 ''p'' StateValidated StateCaptured
      (one_payment StateValidated))) \<noteq> transitions (visible (one_payment StateValidated))"
    by (simp add: moved_world_def one_payment_def visible_def)
  ultimately show ?thesis by metis
qed

text \<open>
  The state column is the concurrency guard: when one caller has moved a payment out of a state,
  every other caller that still expects that state gets an error and changes nothing, whatever it
  asks for and whatever fails.
\<close>

theorem UpdateState_loser_fails:
  assumes unique: "distinct (map PaymentID (txns w))"
    and winner: "UpdateState pg now pid from to w = (None, w1)"
    and loser: "UpdateState pg now' pid from to' (w1\<lparr>script := s\<rparr>) = (r, w2)"
  shows "r \<noteq> None \<and> visible w2 = visible w1"
  using loser
proof (cases rule: UpdateState_cases)
  case unchanged
  then show ?thesis by (simp add: idle_visible)
next
  case (moved u s2)
  from winner have "\<exists>s1. Transition from to = None \<and> w1 = (moved_world now u from to w)\<lparr>script := s1\<rparr>"
  proof (cases rule: UpdateState_cases)
    case (moved u' s1)
    with \<open>uuid_in pg pid = Some u\<close> show ?thesis by auto
  qed simp
  then obtain s1 where legal: "Transition from to = None"
    and w1: "w1 = (moved_world now u from to w)\<lparr>script := s1\<rparr>"
    by blast
  from moved(3) w1 obtain row where "row \<in> set (update_where
      (\<lambda>r. PaymentID r = u \<and> State r = from) (\<lambda>r. r\<lparr>State := to, UpdatedAt := now\<rparr>) (txns w))"
    "PaymentID row = u" "State row = from"
    by (auto simp: moved_world_def)
  moreover from this(1) obtain r0 where "row =
      (if PaymentID r0 = u \<and> State r0 = from then r0\<lparr>State := to, UpdatedAt := now\<rparr> else r0)"
    unfolding set_update_where by blast
  ultimately have "from = to"
    by (cases "PaymentID r0 = u \<and> State r0 = from") simp_all
  with legal show ?thesis by (simp add: Transition_irrefl)
qed

theorem UpdateState_loser_fails_witness:
  "\<exists>r w2. UpdateState sample_pg 10 ''p'' StateValidated StateFailed
     (moved_world 9 ''p'' StateValidated StateCaptured (one_payment StateValidated)
        \<lparr>script := [Done, Lost ''reset'']\<rparr>) = (r, w2) \<and> r \<noteq> None"
proof -
  let ?w1 = "moved_world 9 ''p'' StateValidated StateCaptured (one_payment StateValidated)"
  obtain r w2 where loser: "UpdateState sample_pg 10 ''p'' StateValidated StateFailed
      (?w1\<lparr>script := [Done, Lost ''reset'']\<rparr>) = (r, w2)"
    by (cases "UpdateState sample_pg 10 ''p'' StateValidated StateFailed
      (?w1\<lparr>script := [Done, Lost ''reset'']\<rparr>)")
  have "distinct (map PaymentID (txns (one_payment StateValidated)))"
    by (simp add: one_payment_def)
  from UpdateState_loser_fails [OF this UpdateState_one_payment loser] loser
  show ?thesis by blast
qed

text \<open>Without failures the outcome is a function of the table: moved, not found, or stale.\<close>

lemma tx_rollback_self: "script w = script base \<Longrightarrow> outbox_seq w = outbox_seq base \<Longrightarrow>
  tx_rollback base w = base"
  by (simp add: tx_rollback_def)

lemma UpdateState_clean:
  assumes "script w = []" "Transition from to = None" "uuid_in pg pid = Some u"
  shows "UpdateState pg now pid from to w =
    (if \<exists>row \<in> set (txns w). PaymentID row = u \<and> State row = from
     then (None, moved_world now u from to w)
     else case find (\<lambda>r. PaymentID r = u) (txns w) of
       None \<Rightarrow> (Some (Plain (''UpdateState: payment '' @ pid @ '' not found'')), w)
     | Some row \<Rightarrow> (Some (stale_error pid from to (State row)), w))"
proof -
  have began: "tx_begin w = (Inr (), w)"
    using assms(1) by (simp add: tx_begin_def call_nil)
  let ?hit = "\<lambda>r. PaymentID r = u \<and> State r = from"
  let ?w1 = "w\<lparr>txns := update_where ?hit (\<lambda>r. r\<lparr>State := to, UpdatedAt := now\<rparr>) (txns w)\<rparr>"
  have up: "call (update_state_rows pg now pid from to) w = (Inr (length (filter ?hit (txns w))), ?w1)"
    using assms(1,3) update_state_rows_effect [of pg now pid "from" to w
        "length (filter ?hit (txns w))" ?w1] by (simp add: call_nil)
  show ?thesis
  proof (cases "\<exists>row \<in> set (txns w). ?hit row")
    case True
    then have "filter ?hit (txns w) \<noteq> []" by (auto simp: filter_empty_conv)
    moreover have "call (insert_transition pg now pid from to) ?w1 =
        (Inr (), moved_world now u from to w)"
      using assms(1,3) insert_transition_effect [of pg now pid "from" to ?w1 "()"
          "moved_world now u from to w"] by (simp add: call_nil moved_world_def)
    moreover have "tx_commit w (moved_world now u from to w) = (None, moved_world now u from to w)"
      using assms(1) by (simp add: tx_commit_def pop_nil moved_world_def)
    ultimately show ?thesis
      using True assms(2) began up by (simp add: UpdateState_def)
  next
    case False
    then have none: "filter ?hit (txns w) = []" by (auto simp: filter_empty_conv)
    have same: "?w1 = w" using False by (simp add: update_where_none)
    have undo: "tx_rollback w w = w" by (simp add: tx_rollback_self)
    show ?thesis
    proof (cases "find (\<lambda>r. PaymentID r = u) (txns w)")
      case None
      then have "call (select_state pg pid) w = (Inl (Sentinel NoRows), w)"
        using assms(1,3) by (simp add: call_nil select_state_def as_uuid_def)
      with None False none same undo assms(2) began up show ?thesis
        by (simp add: UpdateState_def)
    next
      case (Some row)
      then have "call (select_state pg pid) w = (Inr (State row), w)"
        using assms(1,3) by (simp add: call_nil select_state_def as_uuid_def)
      with Some False none same undo assms(2) began up show ?thesis
        by (simp add: UpdateState_def)
    qed
  qed
qed

section \<open>Keys stay unique\<close>

definition keys_inv :: "world \<Rightarrow> bool" where
  "keys_inv w \<longleftrightarrow>
     distinct (map PaymentID (txns w)) \<and> distinct (map IdempotencyKey (txns w)) \<and>
     sorted_wrt (<) (map ob_id (outbox w)) \<and> (\<forall>r \<in> set (outbox w). ob_id r < outbox_seq w)"

interpretation keys: world_invariant keys_inv
  by unfold_locales (fastforce simp: keys_inv_def)+

lemma keys_saved_world:
  "keys_inv w \<Longrightarrow> insertable pg t row w \<Longrightarrow> keys_inv (saved_world pg t row j w)"
  by (fastforce simp: keys_inv_def insertable_def saved_world_def sorted_wrt_append)

lemma keys_moved_world: "keys_inv w \<Longrightarrow> keys_inv (moved_world now u from to w)"
  by (simp add: keys_inv_def moved_world_def map_update_where)

lemma SaveWithOutbox_keys [inv_intros]:
  assumes "SaveWithOutbox pg t p w = (r, w')" "keys_inv w"
  shows "keys_inv w'"
  using assms(1)
  by (cases rule: SaveWithOutbox_cases) (use assms(2) keys.idle_keeps keys_saved_world in auto)

lemma UpdateState_keys [inv_intros]:
  assumes "UpdateState pg now pid from to w = (r, w')" "keys_inv w"
  shows "keys_inv w'"
  using assms(1)
  by (cases rule: UpdateState_cases) (use assms(2) keys.idle_keeps keys_moved_world in auto)

lemma Save_keys [inv_intros]:
  assumes "Save pg t w = (r, w')" "keys_inv w"
  shows "keys_inv w'"
proof -
  obtain b w1 where "call (insert_txn pg t) w = (b, w1)" by (cases "call (insert_txn pg t) w")
  moreover from this assms(2) have "keys_inv w1"
    by (rule keys.call_keeps) (fastforce simp: insert_txn_effect keys_inv_def)
  ultimately show ?thesis using assms(1) by (auto simp: Save_def split: sum.splits)
qed

section \<open>What was saved is found\<close>

text \<open>
  C36. A payment saved without failures is found again, by its id and by its idempotency key, as the
  row the columns hold.
\<close>

theorem saved_payment_is_found:
  assumes keys: "keys_inv w" and clean: "script w = []"
    and saved: "SaveWithOutbox pg t p w = (None, w')"
  shows "\<exists>row. txn_row pg t = Inr row \<and> GetByPaymentID pg (PaymentID t) w' = (Inr row, w') \<and>
    GetByIdempotencyKey (IdempotencyKey t) w' = (Inr row, w')"
proof -
  from saved have "fst (SaveWithOutbox pg t p w) = None" by simp
  then obtain row j where row: "insertable pg t row w" and "p = Doc j"
    using SaveWithOutbox_clean(1) [OF clean] by blast
  then have w': "w' = saved_world pg t row j w"
    using SaveWithOutbox_clean(2) [OF clean] saved by simp
  have fields: "uuid_in pg (PaymentID t) = Some (PaymentID row)"
    "IdempotencyKey row = IdempotencyKey t"
    using row by (auto simp: insertable_def dest: txn_row_fields)
  have find: "find P (xs @ [row]) = Some row" if "P row" "\<forall>x \<in> set xs. \<not> P x"
    for P and xs :: "transaction list"
    using that by (induction xs) auto
  have "find (\<lambda>r. PaymentID r = PaymentID row) (txns w') = Some row"
    "find (\<lambda>r. IdempotencyKey r = IdempotencyKey t) (txns w') = Some row"
    using row fields(2) by (auto simp: w' saved_world_def insertable_def image_iff intro!: find)
  moreover have "script w' = []" using clean by (simp add: w' saved_world_def)
  ultimately show ?thesis
    using row fields(1)
    by (simp add: GetByPaymentID_def GetByIdempotencyKey_def call_nil as_uuid_def insertable_def)
qed

theorem saved_payment_is_found_witness:
  "\<exists>w'. SaveWithOutbox sample_pg (sample_txn ''p'' ''k'') (Doc JNull) empty_world = (None, w') \<and>
     GetByIdempotencyKey ''k'' w' = (Inr (sample_txn ''p'' ''k''), w')"
proof -
  have ins: "insertable sample_pg (sample_txn ''p'' ''k'') (sample_txn ''p'' ''k'') empty_world"
    by (simp add: insertable_def txn_row_def as_uuid_def as_char3_def sample_pg_def sample_txn_def
        empty_world_def)
  have clean: "script empty_world = []" and keys: "keys_inv empty_world"
    by (simp_all add: empty_world_def keys_inv_def)
  note saved = SaveWithOutbox_clean(2) [OF clean ins refl, of JNull]
  from saved_payment_is_found [OF keys clean saved] ins saved
  show ?thesis by (auto simp: insertable_def sample_txn_def)
qed

end
