(* ===== verification/Ledger.thy ===== *)
theory Ledger
  imports Store
begin

text \<open>
  \<open>internal/ledger/ledger.go\<close>: double entry posting.

  \<^item> The ledger transaction and the transaction inside \<open>UpdateState\<close> run on two connections. The legs
    inserted but not committed are the list \<open>pending\<close>; \<open>UpdateState\<close> works on the world without
    them, and the deferred commit adds them at the end.
  \<^item> \<open>ON CONFLICT (payment_id, direction) DO NOTHING\<close> relies on the unique index of migration 2.
  \<^item> The deferred commit runs after the result is fixed, so its error is lost, as in the code.
\<close>

section \<open>The operation\<close>

definition ledger_conflict :: "string \<Rightarrow> string \<Rightarrow> ledger_row list \<Rightarrow> bool" where
  "ledger_conflict u direction rows \<longleftrightarrow>
     (\<exists>r \<in> set rows. lg_payment_id r = u \<and> lg_direction r = direction)"

text \<open>The insert returns the number of affected rows and the rows pending after it.\<close>

definition insert_leg ::
  "pgtypes \<Rightarrow> string \<Rightarrow> string \<Rightarrow> string \<Rightarrow> money \<Rightarrow> ledger_row list \<Rightarrow> world \<Rightarrow>
   goerr + (nat \<times> ledger_row list) \<times> world" where
  "insert_leg pg paymentID account direction m pending w =
     (case as_uuid pg paymentID of
        Inl e \<Rightarrow> Inl e
      | Inr u \<Rightarrow>
          (case as_char3 pg (Currency m) of
             Inl e \<Rightarrow> Inl e
           | Inr c \<Rightarrow>
               if ledger_conflict u direction (ledger w @ pending) then Inr ((0, pending), w)
               else
                 Inr ((1, pending @ [\<lparr>lg_payment_id = u, lg_account = account,
                                      lg_direction = direction, lg_amount_minor = MinorUnits m,
                                      lg_currency = c\<rparr>]), w)))"

text \<open>The deferred function: the transaction is open, and \<open>err\<close> is nil.\<close>

definition commit_legs :: "ledger_row list \<Rightarrow> world \<Rightarrow> world" where
  "commit_legs pending w = snd (tx_commit w (w\<lparr>ledger := ledger w @ pending\<rparr>))"

definition Post :: "pgtypes \<Rightarrow> time \<Rightarrow> transaction \<Rightarrow> world \<Rightarrow> goerr option \<times> world" where
  "Post pg now trx w =
     (let update = (\<lambda>to w. UpdateState pg now (PaymentID trx) StateValidated to w)
      in if sint (MinorUnits (Amount trx)) \<le> 0 then
           (Some (Plain (''amount must be positive, got '' @ show_int (sint (MinorUnits (Amount trx))))), w)
         else
           case tx_begin w of
             (Inl err, w1) \<Rightarrow> (Some err, snd (update StateFailed w1))
           | (Inr _, w1) \<Rightarrow>
               (case call (insert_leg pg (PaymentID trx) (AccountID trx) ''DEBIT'' (Amount trx) []) w1 of
                  (Inl err, w2) \<Rightarrow> (Some (Wrap ''insert debit: '' err), snd (update StateFailed w2))
                | (Inr (debitTag, pending), w2) \<Rightarrow>
                    (case call (insert_leg pg (PaymentID trx) ''clearing_account'' ''CREDIT''
                                  (Amount trx) pending) w2 of
                       (Inl err, w3) \<Rightarrow>
                         (Some (Wrap ''insert credit: '' err), snd (update StateFailed w3))
                     | (Inr (creditTag, pending), w3) \<Rightarrow>
                         let finish = (if debitTag = 0 \<and> creditTag = 0 then (\<lambda>w. w)
                                       else commit_legs pending)
                         in (case update StateCaptured w3 of
                               (Some err, w4) \<Rightarrow>
                                 if contains (error_text err) ''stale transition'' \<and>
                                    contains (error_text err) StateCaptured
                                 then (None, finish w4)
                                 else (Some (Wrap ''update state to CAPTURED: '' err), finish w4)
                             | (None, w4) \<Rightarrow> (None, finish w4)))))"

section \<open>The legs a posting adds\<close>

definition leg :: "string \<Rightarrow> string \<Rightarrow> string \<Rightarrow> string \<Rightarrow> transaction \<Rightarrow> ledger_row" where
  "leg u c account direction t =
     \<lparr>lg_payment_id = u, lg_account = account, lg_direction = direction,
      lg_amount_minor = MinorUnits (Amount t), lg_currency = c\<rparr>"

definition both_legs :: "string \<Rightarrow> string \<Rightarrow> transaction \<Rightarrow> ledger_row list" where
  "both_legs u c t = [leg u c (AccountID t) ''DEBIT'' t, leg u c ''clearing_account'' ''CREDIT'' t]"

definition new_legs :: "string \<Rightarrow> string \<Rightarrow> transaction \<Rightarrow> ledger_row list \<Rightarrow> ledger_row list" where
  "new_legs u c t rows =
     filter (\<lambda>l. \<not> ledger_conflict u (lg_direction l) rows) (both_legs u c t)"

definition post_verdict :: "goerr option \<Rightarrow> goerr option" where
  "post_verdict r =
     (case r of
        None \<Rightarrow> None
      | Some err \<Rightarrow>
          if contains (error_text err) ''stale transition'' \<and> contains (error_text err) StateCaptured
          then None else Some (Wrap ''update state to CAPTURED: '' err))"

lemma ledger_conflict_append [simp]:
  "ledger_conflict u d (xs @ ys) \<longleftrightarrow> ledger_conflict u d xs \<or> ledger_conflict u d ys"
  by (auto simp: ledger_conflict_def)

lemma ledger_conflict_Nil [simp]: "\<not> ledger_conflict u d []"
  by (simp add: ledger_conflict_def)

lemma new_legs_twice: "new_legs u c t (rows @ new_legs u c t rows) = []"
proof -
  have "ledger_conflict u (lg_direction l) (rows @ new_legs u c t rows)"
    if "l \<in> set (both_legs u c t)" for l
  proof (cases "ledger_conflict u (lg_direction l) rows")
    case False
    with that have "l \<in> set (new_legs u c t rows)" by (simp add: new_legs_def)
    moreover have "lg_payment_id l = u" using that by (auto simp: both_legs_def leg_def)
    ultimately have "ledger_conflict u (lg_direction l) (new_legs u c t rows)"
      unfolding ledger_conflict_def by blast
    then show ?thesis by simp
  qed simp
  then show ?thesis by (subst new_legs_def) (rule filter_none, blast)
qed

lemma insert_leg_call:
  assumes "call (insert_leg pg pid account direction m pending) w = (x, w')"
  shows "idle w w'"
    and "x = Inr (n, pending') \<Longrightarrow> \<exists>u c. uuid_in pg pid = Some u \<and> char3_in pg (Currency m) = Some c \<and>
      (if ledger_conflict u direction (ledger w @ pending) then n = 0 \<and> pending' = pending
       else n = 1 \<and> pending' = pending @ [\<lparr>lg_payment_id = u, lg_account = account,
         lg_direction = direction, lg_amount_minor = MinorUnits m, lg_currency = c\<rparr>])"
proof -
  have same: "w1 = w2" if "insert_leg pg pid account direction m pending w1 = Inr (y, w2)" for y w1 w2
    using that by (auto simp: insert_leg_def split: sum.splits if_splits)
  show "idle w w'"
    using assms by (cases rule: call_cases) (auto dest: same)
  show "\<exists>u c. uuid_in pg pid = Some u \<and> char3_in pg (Currency m) = Some c \<and>
      (if ledger_conflict u direction (ledger w @ pending) then n = 0 \<and> pending' = pending
       else n = 1 \<and> pending' = pending @ [\<lparr>lg_payment_id = u, lg_account = account,
         lg_direction = direction, lg_amount_minor = MinorUnits m, lg_currency = c\<rparr>])"
    if "x = Inr (n, pending')"
  proof -
    from assms that obtain s where
      "insert_leg pg pid account direction m pending (w\<lparr>script := s\<rparr>) = Inr ((n, pending'), w')"
      by (auto elim: call_success)
    then show ?thesis
      by (auto simp: insert_leg_def as_uuid_def as_char3_def reject_def
          split: sum.splits option.splits if_splits)
  qed
qed

lemma commit_legs_cases:
  obtains (kept) s where "commit_legs pending w = w\<lparr>ledger := ledger w @ pending, script := s\<rparr>"
    | (lost) "idle w (commit_legs pending w)"
proof -
  obtain r w' where c: "tx_commit w (w\<lparr>ledger := ledger w @ pending\<rparr>) = (r, w')"
    by (cases "tx_commit w (w\<lparr>ledger := ledger w @ pending\<rparr>)")
  then have w': "commit_legs pending w = w'" by (simp add: commit_legs_def)
  from c show ?thesis
  proof (cases rule: tx_commit_cases)
    case (committed s)
    with w' kept show ?thesis by simp
  next
    case (aborted s)
    with w' lost show ?thesis by (simp add: tx_rollback_def)
  qed
qed

text \<open>
  Every run of \<open>Post\<close> is one of four: the amount is refused; the ledger transaction fails and the
  payment is moved to FAILED; both legs were there; or the missing legs are inserted, the
  payment is moved to CAPTURED and the legs are committed or lost.
\<close>

lemma Post_cases:
  assumes "Post pg now t w = (r, w')"
  obtains (refused) "sint (MinorUnits (Amount t)) \<le> 0" "r \<noteq> None" "w' = w"
    | (failed) w1 x where "0 < sint (MinorUnits (Amount t))" "r \<noteq> None" "idle w w1"
        "UpdateState pg now (PaymentID t) StateValidated StateFailed w1 = (x, w')"
    | (posted) w1 x w2 u c where "0 < sint (MinorUnits (Amount t))" "r = post_verdict x" "idle w w1"
        "UpdateState pg now (PaymentID t) StateValidated StateCaptured w1 = (x, w2)"
        "uuid_in pg (PaymentID t) = Some u" "char3_in pg (Currency (Amount t)) = Some c"
        "w' = (if new_legs u c t (ledger w) = [] then w2 else commit_legs (new_legs u c t (ledger w)) w2)"
proof (cases "sint (MinorUnits (Amount t)) \<le> 0")
  case True
  with assms refused show ?thesis by (auto simp: Post_def)
next
  case False
  then have pos: "0 < sint (MinorUnits (Amount t))" by simp
  obtain b w1 where b: "tx_begin w = (b, w1)" by (cases "tx_begin w")
  then have i1: "idle w w1" by (rule tx_begin_idle)
  let ?debit = "insert_leg pg (PaymentID t) (AccountID t) ''DEBIT'' (Amount t) []"
  obtain d w2 where d: "call ?debit w1 = (d, w2)" by (cases "call ?debit w1")
  then have i2: "idle w w2" using i1 insert_leg_call(1) idle_trans by blast
  show ?thesis
  proof (cases b)
    case (Inl err)
    with assms b pos show ?thesis
      by (intro failed [of w1 "fst (UpdateState pg now (PaymentID t) StateValidated StateFailed w1)"])
        (auto simp: Post_def Let_def i1)
  next
    case began: (Inr y)
    show ?thesis
    proof (cases d)
      case (Inl err)
      with assms b began d pos show ?thesis
        by (intro failed [of w2 "fst (UpdateState pg now (PaymentID t) StateValidated StateFailed w2)"])
          (auto simp: Post_def Let_def i2)
    next
      case (Inr dt)
      obtain n pending where dt: "dt = (n, pending)" by (cases dt)
      let ?credit = "insert_leg pg (PaymentID t) ''clearing_account'' ''CREDIT'' (Amount t) pending"
      obtain cr w3 where cr: "call ?credit w2 = (cr, w3)" by (cases "call ?credit w2")
      then have i3: "idle w w3" using i2 insert_leg_call(1) idle_trans by blast
      show ?thesis
      proof (cases cr)
        case (Inl err)
        with assms b began d Inr dt cr pos show ?thesis
          by (intro failed [of w3 "fst (UpdateState pg now (PaymentID t) StateValidated StateFailed w3)"])
            (auto simp: Post_def Let_def i3)
      next
        case credited: (Inr ct)
        obtain m pending2 where ct: "ct = (m, pending2)" by (cases ct)
        obtain x w4 where x: "UpdateState pg now (PaymentID t) StateValidated StateCaptured w3 = (x, w4)"
          by (cases "UpdateState pg now (PaymentID t) StateValidated StateCaptured w3")
        from insert_leg_call(2) [OF d, of n pending] Inr dt idle_tables(3) [OF i1]
        obtain u c where u: "uuid_in pg (PaymentID t) = Some u" "char3_in pg (Currency (Amount t)) = Some c"
          and n: "if ledger_conflict u ''DEBIT'' (ledger w) then n = 0 \<and> pending = []
                  else n = 1 \<and> pending = [leg u c (AccountID t) ''DEBIT'' t]"
          by (auto simp: leg_def)
        from insert_leg_call(2) [OF cr, of m pending2] credited ct idle_tables(3) [OF i2] u n
        have m: "if ledger_conflict u ''CREDIT'' (ledger w) then m = 0 \<and> pending2 = pending
                 else m = 1 \<and> pending2 = pending @ [leg u c ''clearing_account'' ''CREDIT'' t]"
          by (auto simp: leg_def ledger_conflict_def split: if_splits)
        have p2: "pending2 = new_legs u c t (ledger w)" "n = 0 \<and> m = 0 \<longleftrightarrow> new_legs u c t (ledger w) = []"
          using n m by (auto simp: new_legs_def both_legs_def leg_def split: if_splits)
        show ?thesis
          using assms b began d Inr dt cr credited ct x pos p2
          by (intro posted [OF pos _ i3 x u])
            (auto simp: Post_def Let_def post_verdict_def split: option.splits if_splits)
      qed
    qed
  qed
qed

section \<open>Double entry\<close>

text \<open>
  The specification: the ledger is a list of entries, one per payment, each written as a debit of
  the account and a credit of the clearing account over the same positive amount.
\<close>

type_synonym entry = "string \<times> string \<times> int64 \<times> string"

fun entry_rows :: "entry \<Rightarrow> ledger_row list" where
  "entry_rows (u, account, m, c) =
     [\<lparr>lg_payment_id = u, lg_account = account, lg_direction = ''DEBIT'', lg_amount_minor = m,
       lg_currency = c\<rparr>,
      \<lparr>lg_payment_id = u, lg_account = ''clearing_account'', lg_direction = ''CREDIT'',
       lg_amount_minor = m, lg_currency = c\<rparr>]"

definition double_entry :: "entry list \<Rightarrow> ledger_row list \<Rightarrow> bool" where
  "double_entry es rows \<longleftrightarrow>
     rows = concat (map entry_rows es) \<and> distinct (map fst es) \<and>
     (\<forall>(u, account, m, c) \<in> set es. 0 < sint m)"

definition ledger_inv :: "world \<Rightarrow> bool" where
  "ledger_inv w \<longleftrightarrow> (\<exists>es. double_entry es (ledger w))"

interpretation ledger: world_invariant ledger_inv
  by unfold_locales (simp_all add: ledger_inv_def)

lemma ledger_inv_cong: "ledger w' = ledger w \<Longrightarrow> ledger_inv w' \<longleftrightarrow> ledger_inv w"
  by (simp add: ledger_inv_def)

lemma entry_conflict:
  "ledger_conflict u d (concat (map entry_rows es)) \<longleftrightarrow>
   u \<in> fst ` set es \<and> (d = ''DEBIT'' \<or> d = ''CREDIT'')"
proof (induction es)
  case Nil
  then show ?case by simp
next
  case (Cons e es)
  obtain v a m c where "e = (v, a, m, c)" by (cases e)
  with Cons show ?case by (auto simp: ledger_conflict_def)
qed

lemma double_entry_new_legs:
  assumes "double_entry es rows"
  shows "new_legs u c t rows = (if u \<in> fst ` set es then [] else both_legs u c t)"
  using assms by (auto simp: double_entry_def new_legs_def both_legs_def leg_def entry_conflict)

lemma double_entry_add:
  assumes "double_entry es rows" "0 < sint (MinorUnits (Amount t))"
  shows "\<exists>es'. double_entry es' (rows @ new_legs u c t rows)"
proof (cases "u \<in> fst ` set es")
  case True
  with assms double_entry_new_legs show ?thesis by auto
next
  case False
  let ?e = "(u, AccountID t, MinorUnits (Amount t), c)"
  have "double_entry (es @ [?e]) (rows @ both_legs u c t)"
    using assms False by (auto simp: double_entry_def both_legs_def leg_def)
  with False double_entry_new_legs [OF assms(1)] show ?thesis by auto
qed

lemma UpdateState_ledger:
  assumes "UpdateState pg now pid from to w = (r, w')"
  shows "ledger w' = ledger w"
  using assms by (cases rule: UpdateState_cases) (auto simp: idle_tables moved_world_def)

lemma UpdateState_ledger_inv [inv_intros]:
  "UpdateState pg now pid from to w = (r, w') \<Longrightarrow> ledger_inv w \<Longrightarrow> ledger_inv w'"
  using UpdateState_ledger ledger_inv_cong by blast

lemma SaveWithOutbox_ledger_inv [inv_intros]:
  assumes "SaveWithOutbox pg t p w = (r, w')" "ledger_inv w"
  shows "ledger_inv w'"
  using assms(1)
  by (cases rule: SaveWithOutbox_cases)
    (use assms(2) ledger.idle_keeps in \<open>auto simp: saved_world_def ledger_inv_def\<close>)

lemma Post_ledger:
  assumes "Post pg now t w = (r, w')"
  shows "ledger w' = ledger w \<or>
    (\<exists>u c. uuid_in pg (PaymentID t) = Some u \<and> 0 < sint (MinorUnits (Amount t)) \<and>
       ledger w' = ledger w @ new_legs u c t (ledger w))"
  using assms
proof (cases rule: Post_cases)
  case (failed w1 x)
  then show ?thesis using UpdateState_ledger idle_tables(3) by metis
next
  case (posted w1 x w2 u c)
  have "ledger w2 = ledger w" using posted(3,4) UpdateState_ledger idle_tables(3) by metis
  with posted show ?thesis
    by (cases rule: commit_legs_cases [of "new_legs u c t (ledger w)" w2]) (auto dest: idle_tables(3))
qed simp

lemma Post_ledger_inv [inv_intros]:
  assumes "Post pg now t w = (r, w')" "ledger_inv w"
  shows "ledger_inv w'"
  using Post_ledger [OF assms(1)] assms(2) double_entry_add by (auto simp: ledger_inv_def)

definition signed_minor :: "ledger_row \<Rightarrow> int" where
  "signed_minor r =
     (if lg_direction r = ''DEBIT'' then sint (lg_amount_minor r) else - sint (lg_amount_minor r))"

definition net :: "string \<Rightarrow> ledger_row list \<Rightarrow> int" where
  "net u rows = sum_list (map signed_minor (filter (\<lambda>r. lg_payment_id r = u) rows))"

lemma entry_net: "net u (concat (map entry_rows es)) = 0"
proof (induction es)
  case Nil
  then show ?case by (simp add: net_def)
next
  case (Cons e es)
  obtain v a m c where "e = (v, a, m, c)" by (cases e)
  with Cons show ?case by (simp add: net_def signed_minor_def)
qed

lemma entry_legs:
  "distinct (map fst es) \<Longrightarrow> length (filter (\<lambda>r. lg_payment_id r = u) (concat (map entry_rows es))) =
     (if u \<in> fst ` set es then 2 else 0)"
proof (induction es)
  case Nil
  then show ?case by simp
next
  case (Cons e es)
  obtain v a m c where "e = (v, a, m, c)" by (cases e)
  with Cons show ?case by auto
qed

fun post_all :: "pgtypes \<Rightarrow> (time \<times> transaction) list \<Rightarrow> world \<Rightarrow> world" where
  "post_all pg [] w = w"
| "post_all pg ((now, t) # ts) w = post_all pg ts (snd (Post pg now t w))"

lemma post_all_ledger_inv: "ledger_inv w \<Longrightarrow> ledger_inv (post_all pg ts w)"
  by (induction ts arbitrary: w) (auto simp: Post_ledger_inv [OF surjective_pairing])

text \<open>
  Whatever payments are posted, in any order and any number of times, and however the database
  calls fail in between, the legs of every payment sum to zero, and a payment has either no legs
  or exactly one debit and one credit.
\<close>

theorem ledger_zero_sum:
  assumes "ledger w = []"
  shows "net u (ledger (post_all pg ts w)) = 0 \<and>
    length (filter (\<lambda>r. lg_payment_id r = u) (ledger (post_all pg ts w))) \<in> {0, 2}"
proof -
  have "ledger_inv w"
    using assms by (auto simp: ledger_inv_def double_entry_def intro: exI [of _ "[]"])
  then have "ledger_inv (post_all pg ts w)" by (rule post_all_ledger_inv)
  then obtain es where "double_entry es (ledger (post_all pg ts w))"
    by (auto simp: ledger_inv_def)
  then show ?thesis using entry_net [of u es] entry_legs [of es u]
    by (simp add: double_entry_def)
qed

theorem ledger_zero_sum_witness:
  "net ''p'' (ledger (post_all sample_pg [(5, sample_txn ''p'' ''k''), (6, sample_txn ''p'' ''k'')]
     (one_payment StateValidated))) = 0"
  using ledger_zero_sum [of "one_payment StateValidated"]
  by (simp add: one_payment_def empty_world_def del: post_all.simps)

section \<open>Posting without failures\<close>

lemma commit_legs_clean:
  "script w = [] \<Longrightarrow> commit_legs pending w = w\<lparr>ledger := ledger w @ pending\<rparr>"
  by (simp add: commit_legs_def tx_commit_def pop_nil)

lemma Post_clean:
  assumes "script w = []" "0 < sint (MinorUnits (Amount t))" "uuid_in pg (PaymentID t) = Some u"
    and "char3_in pg (Currency (Amount t)) = Some c"
    and "UpdateState pg now (PaymentID t) StateValidated StateCaptured w = (x, w2)" "script w2 = []"
  shows "Post pg now t w =
    (post_verdict x, w2\<lparr>ledger := ledger w @ new_legs u c t (ledger w)\<rparr>)"
proof -
  have same: "ledger w2 = ledger w" using assms(5) by (rule UpdateState_ledger)
  have began: "tx_begin w = (Inr (), w)" using assms(1) by (simp add: tx_begin_def call_nil)
  have leg: "call (insert_leg pg (PaymentID t) account d (Amount t) pending) w =
      (Inr (if ledger_conflict u d (ledger w @ pending) then (0, pending)
            else (1, pending @ [leg u c account d t])), w)" for account d pending
    using assms(1,3,4)
    by (simp add: call_nil insert_leg_def as_uuid_def as_char3_def leg_def)
  have finish: "commit_legs pending w2 = w2\<lparr>ledger := ledger w @ pending\<rparr>" for pending
    using commit_legs_clean [OF assms(6)] same by simp
  have keep: "w2\<lparr>ledger := ledger w\<rparr> = w2" using same by simp
  have dir: "lg_direction (leg u c account d t) = d" for account d by (simp add: leg_def)
  have other: "\<not> ledger_conflict u ''CREDIT'' [leg u c account ''DEBIT'' t]" for account
    by (simp add: ledger_conflict_def leg_def)
  consider "ledger_conflict u ''DEBIT'' (ledger w)" "ledger_conflict u ''CREDIT'' (ledger w)"
    | "ledger_conflict u ''DEBIT'' (ledger w)" "\<not> ledger_conflict u ''CREDIT'' (ledger w)"
    | "\<not> ledger_conflict u ''DEBIT'' (ledger w)" "ledger_conflict u ''CREDIT'' (ledger w)"
    | "\<not> ledger_conflict u ''DEBIT'' (ledger w)" "\<not> ledger_conflict u ''CREDIT'' (ledger w)"
    by blast
  then show ?thesis
    using assms(2,5) began leg finish keep
    by cases (simp_all add: Post_def Let_def new_legs_def both_legs_def post_verdict_def dir other
        split: option.split)
qed

lemma captured_edge: "Transition StateValidated StateCaptured = None"
  by (simp add: Transition_def allowed_def StateValidated_def StateCaptured_def StateReceived_def)

text \<open>The text of the stale error names both states of the attempted move.\<close>

lemma stale_verdict: "post_verdict (Some (stale_error pid StateValidated StateCaptured current)) = None"
proof -
  let ?t = "error_text (stale_error pid StateValidated StateCaptured current)"
  have "?t = ''UpdateState: '' @ ''stale transition'' @ '' VALIDATED->CAPTURED: current state is '' @
      current @ '' (payment '' @ pid @ '')''"
    by (simp add: stale_error_def StateValidated_def StateCaptured_def)
  then have "contains ?t ''stale transition''" unfolding contains_iff by blast
  moreover have "?t = ''UpdateState: stale transition VALIDATED->'' @ ''CAPTURED'' @
      '': current state is '' @ current @ '' (payment '' @ pid @ '')''"
    by (simp add: stale_error_def StateValidated_def StateCaptured_def)
  then have "contains ?t StateCaptured" unfolding contains_iff StateCaptured_def by blast
  ultimately show ?thesis by (simp add: post_verdict_def)
qed

lemma moved_world_left:
  "from \<noteq> to \<Longrightarrow> \<forall>r \<in> set (txns (moved_world now u from to w)). PaymentID r = u \<longrightarrow> State r \<noteq> from"
proof (intro ballI impI)
  fix r assume "from \<noteq> to" "r \<in> set (txns (moved_world now u from to w))" "PaymentID r = u"
  moreover from this(2) have "r \<in> set (update_where (\<lambda>r. PaymentID r = u \<and> State r = from)
      (\<lambda>r. r\<lparr>State := to, UpdatedAt := now\<rparr>) (txns w))" by (simp add: moved_world_def)
  then obtain r0
    where "r = (if PaymentID r0 = u \<and> State r0 = from then r0\<lparr>State := to, UpdatedAt := now\<rparr> else r0)"
    unfolding set_update_where by blast
  ultimately show "State r \<noteq> from" by (cases "PaymentID r0 = u \<and> State r0 = from") simp_all
qed

lemma script_moved_world [simp]: "script (moved_world now u from to w) = script w"
  by (simp add: moved_world_def)

text \<open>The state half of a posting without failures: the payment is moved, or left alone because
  its state is not VALIDATED, or unknown.\<close>

lemma capture_clean:
  assumes "script w = []" "uuid_in pg pid = Some u"
    and "UpdateState pg now pid StateValidated StateCaptured w = (x, w2)"
  shows "script w2 = []"
    and "\<exists>row \<in> set (txns w). PaymentID row = u \<and> State row = StateValidated \<Longrightarrow>
      x = None \<and> w2 = moved_world now u StateValidated StateCaptured w"
    and "\<forall>row \<in> set (txns w). PaymentID row = u \<longrightarrow> State row \<noteq> StateValidated \<Longrightarrow>
      w2 = w \<and> x = Some (case find (\<lambda>r. PaymentID r = u) (txns w) of
        None \<Rightarrow> Plain (''UpdateState: payment '' @ pid @ '' not found'')
      | Some row \<Rightarrow> stale_error pid StateValidated StateCaptured (State row))"
    and "\<exists>row \<in> set (txns w). PaymentID row = u \<Longrightarrow> post_verdict x = None"
proof -
  note run = UpdateState_clean [OF assms(1) captured_edge assms(2), of now]
  show hit: "x = None \<and> w2 = moved_world now u StateValidated StateCaptured w"
    if "\<exists>row \<in> set (txns w). PaymentID row = u \<and> State row = StateValidated"
    using run assms(3) that by simp
  show miss: "w2 = w \<and> x = Some (case find (\<lambda>r. PaymentID r = u) (txns w) of
        None \<Rightarrow> Plain (''UpdateState: payment '' @ pid @ '' not found'')
      | Some row \<Rightarrow> stale_error pid StateValidated StateCaptured (State row))"
    if "\<forall>row \<in> set (txns w). PaymentID row = u \<longrightarrow> State row \<noteq> StateValidated"
  proof -
    have none: "\<not> (\<exists>row \<in> set (txns w). PaymentID row = u \<and> State row = StateValidated)"
      using that by blast
    show ?thesis
      using run [unfolded if_not_P [OF none]] assms(3)
      by (cases "find (\<lambda>r. PaymentID r = u) (txns w)") simp_all
  qed
  show "script w2 = []"
    using hit miss assms(1)
    by (cases "\<exists>row \<in> set (txns w). PaymentID row = u \<and> State row = StateValidated") auto
  show "post_verdict x = None" if known: "\<exists>row \<in> set (txns w). PaymentID row = u"
  proof (cases "\<exists>row \<in> set (txns w). PaymentID row = u \<and> State row = StateValidated")
    case True
    with hit show ?thesis by (simp add: post_verdict_def)
  next
    case False
    moreover from known obtain row where "find (\<lambda>r. PaymentID r = u) (txns w) = Some row"
      by (cases "find (\<lambda>r. PaymentID r = u) (txns w)") (auto simp: find_None_iff_all)
    ultimately have "x = Some (stale_error pid StateValidated StateCaptured (State row))"
      using miss by auto
    then show ?thesis by (simp only: stale_verdict)
  qed
qed

lemma Post_fresh:
  assumes "script w = []" "0 < sint (MinorUnits (Amount t))" "uuid_in pg (PaymentID t) = Some u"
    and "char3_in pg (Currency (Amount t)) = Some c"
    and "row \<in> set (txns w)" "PaymentID row = u" "State row = StateValidated"
    and "\<forall>r \<in> set (ledger w). lg_payment_id r \<noteq> u"
  shows "Post pg now t w =
    (None, (moved_world now u StateValidated StateCaptured w)
             \<lparr>ledger := ledger w @
               [\<lparr>lg_payment_id = u, lg_account = AccountID t, lg_direction = ''DEBIT'',
                 lg_amount_minor = MinorUnits (Amount t), lg_currency = c\<rparr>,
                \<lparr>lg_payment_id = u, lg_account = ''clearing_account'', lg_direction = ''CREDIT'',
                 lg_amount_minor = MinorUnits (Amount t), lg_currency = c\<rparr>]\<rparr>)"
proof -
  obtain x w2 where x: "UpdateState pg now (PaymentID t) StateValidated StateCaptured w = (x, w2)"
    by (cases "UpdateState pg now (PaymentID t) StateValidated StateCaptured w")
  note clean = capture_clean [OF assms(1,3) x]
  have "new_legs u c t (ledger w) = both_legs u c t"
    using assms(8) by (auto simp: new_legs_def both_legs_def ledger_conflict_def)
  moreover have "x = None \<and> w2 = moved_world now u StateValidated StateCaptured w"
    using assms(5-7) by (intro clean(2)) blast
  ultimately show ?thesis
    using Post_clean [OF assms(1-4) x clean(1)]
    by (simp add: both_legs_def leg_def post_verdict_def)
qed



text \<open>A capture without failures leaves no VALIDATED payment with the id, and all ids as they were.\<close>

lemma capture_effect:
  assumes "script w = []" "uuid_in pg pid = Some u"
    and "UpdateState pg now pid StateValidated StateCaptured w = (x, w2)"
  shows "\<forall>row \<in> set (txns w2). PaymentID row = u \<longrightarrow> State row \<noteq> StateValidated"
    and "map PaymentID (txns w2) = map PaymentID (txns w)"
proof -
  note clean = capture_clean [OF assms]
  have "w2 = moved_world now u StateValidated StateCaptured w \<or>
      w2 = w \<and> (\<forall>row \<in> set (txns w). PaymentID row = u \<longrightarrow> State row \<noteq> StateValidated)"
    using clean(2,3) by blast
  then show "\<forall>row \<in> set (txns w2). PaymentID row = u \<longrightarrow> State row \<noteq> StateValidated"
    "map PaymentID (txns w2) = map PaymentID (txns w)"
    using moved_world_left [of StateValidated StateCaptured now u w]
    by (auto simp: moved_world_def map_update_where StateValidated_def StateCaptured_def)
qed

text \<open>A second capture finds nothing to move, and is judged as the first one.\<close>

lemma capture_again:
  assumes "script w = []" "uuid_in pg pid = Some u"
    and "UpdateState pg now pid StateValidated StateCaptured w = (x, w2)" "post_verdict x = None"
    and "script w1 = []" "txns w1 = txns w2"
    and "UpdateState pg now' pid StateValidated StateCaptured w1 = (y, w3)"
  shows "w3 = w1 \<and> post_verdict y = None"
proof -
  note once = capture_clean [OF assms(1-3)]
  note twice = capture_clean [OF assms(5,2,7)]
  have gone: "\<forall>row \<in> set (txns w1). PaymentID row = u \<longrightarrow> State row \<noteq> StateValidated"
    using capture_effect(1) [OF assms(1-3)] assms(6) by simp
  have ids: "PaymentID ` set (txns w1) = PaymentID ` set (txns w)"
    using arg_cong [OF capture_effect(2) [OF assms(1-3)], of set] assms(6) by simp
  have "post_verdict y = None"
  proof (cases "u \<in> PaymentID ` set (txns w)")
    case True
    with ids have "\<exists>row \<in> set (txns w1). PaymentID row = u" by (metis imageE)
    then show ?thesis using twice(4) by blast
  next
    case False
    then have "find (\<lambda>r. PaymentID r = u) (txns w) = None" by (auto simp: find_None_iff_all)
    moreover have "find (\<lambda>r. PaymentID r = u) (txns w1) = None"
      using False ids by (auto simp: find_None_iff_all)
    ultimately have "y = x" using once(3) twice(3) [OF gone] False by force
    with assms(4) show ?thesis by simp
  qed
  with twice(3) [OF gone] show ?thesis by simp
qed

text \<open>
  C13. Posting is idempotent: when a delivery of a payment succeeded without failures, the same
  event delivered again, however often, succeeds and changes nothing at all. Success is the result nil: the sentinel
  \<open>ErrAlreadyPosted\<close>, which its comment and the test of a duplicate delivery (ledger\_test.go:174) expect here, is
  returned by no branch of the code, so that test fails against it.
\<close>

theorem Post_redelivery:
  assumes clean: "script w = []" and first: "Post pg now t w = (None, w1)"
  shows "Post pg now' t w1 = (None, w1)"
proof -
  from first obtain u c where pos: "0 < sint (MinorUnits (Amount t))"
    and u: "uuid_in pg (PaymentID t) = Some u" and c: "char3_in pg (Currency (Amount t)) = Some c"
    by (cases rule: Post_cases) auto
  obtain x w2 where x: "UpdateState pg now (PaymentID t) StateValidated StateCaptured w = (x, w2)"
    by (rule prod.exhaust)
  note script2 = capture_clean(1) [OF clean u x]
  have one: "post_verdict x = None" "w1 = w2\<lparr>ledger := ledger w @ new_legs u c t (ledger w)\<rparr>"
    using Post_clean [OF clean pos u c x script2] first by simp_all
  then have clean1: "script w1 = []" "txns w1 = txns w2" "new_legs u c t (ledger w1) = []"
    using script2 by (simp_all add: new_legs_twice)
  obtain y w3 where y: "UpdateState pg now' (PaymentID t) StateValidated StateCaptured w1 = (y, w3)"
    by (rule prod.exhaust)
  from capture_again [OF clean u x one(1) clean1(1,2) y] y
  show ?thesis
    using Post_clean [OF clean1(1) pos u c y] clean1(1,3) by simp
qed

theorem Post_redelivery_witness:
  "\<exists>w1. Post sample_pg 7 (sample_txn ''p'' ''k'') (one_payment StateValidated) = (None, w1) \<and>
     Post sample_pg 8 (sample_txn ''p'' ''k'') w1 = (None, w1)"
proof -
  have "fst (Post sample_pg 7 (sample_txn ''p'' ''k'') (one_payment StateValidated)) = None"
  proof -
    let ?row = "(sample_txn ''p'' ''k'')\<lparr>State := StateValidated\<rparr>"
    have clean: "script (one_payment StateValidated) = []"
      by (simp add: one_payment_def empty_world_def)
    have u: "uuid_in sample_pg (PaymentID (sample_txn ''p'' ''k'')) = Some ''p''"
      "char3_in sample_pg (Currency (Amount (sample_txn ''p'' ''k''))) = Some ''USD''"
      "0 < sint (MinorUnits (Amount (sample_txn ''p'' ''k'')))"
      by (simp_all add: sample_txn_def sample_pg_def)
    obtain x w2 where x: "UpdateState sample_pg 7 (PaymentID (sample_txn ''p'' ''k'')) StateValidated
        StateCaptured (one_payment StateValidated) = (x, w2)"
      by (rule prod.exhaust)
    note capture = capture_clean [OF clean u(1) x]
    have "x = None"
      using capture(2) by (simp add: one_payment_def sample_txn_def)
    then show ?thesis
      using Post_clean [OF clean u(3,1,2) x capture(1)] by (simp add: post_verdict_def)
  qed
  then obtain w1 where "Post sample_pg 7 (sample_txn ''p'' ''k'') (one_payment StateValidated) = (None, w1)"
    by (cases "Post sample_pg 7 (sample_txn ''p'' ''k'') (one_payment StateValidated)") simp
  with Post_redelivery [OF _ this] show ?thesis
    by (simp add: one_payment_def empty_world_def)
qed

section \<open>What the code does not guard against\<close>

lemma Post_stale:
  assumes "script w = []" "0 < sint (MinorUnits (Amount t))" "uuid_in pg (PaymentID t) = Some u"
    and "char3_in pg (Currency (Amount t)) = Some c"
    and "row \<in> set (txns w)" "PaymentID row = u"
    and "\<forall>row \<in> set (txns w). PaymentID row = u \<longrightarrow> State row \<noteq> StateValidated"
    and "\<forall>r \<in> set (ledger w). lg_payment_id r \<noteq> u"
  shows "Post pg now t w = (None, w\<lparr>ledger := ledger w @ both_legs u c t\<rparr>)"
proof -
  obtain x w2 where x: "UpdateState pg now (PaymentID t) StateValidated StateCaptured w = (x, w2)"
    by (cases "UpdateState pg now (PaymentID t) StateValidated StateCaptured w")
  note clean = capture_clean [OF assms(1,3) x]
  have "new_legs u c t (ledger w) = both_legs u c t"
    using assms(8) by (auto simp: new_legs_def both_legs_def ledger_conflict_def)
  moreover have "w2 = w" using clean(3) [OF assms(7)] by blast
  moreover have "post_verdict x = None" using assms(5,6) by (intro clean(4)) blast
  ultimately show ?thesis
    using Post_clean [OF assms(1-4) x clean(1)] by simp
qed

text \<open>
  The test for a payment that is already CAPTURED accepts every stale transition, because the
  text of the error always names CAPTURED as the target. Without failures, posting an event of a
  known payment in any state but VALIDATED (FAILED, say) books both legs and reports success.
\<close>

theorem Post_books_any_state:
  assumes "script w = []" "0 < sint (MinorUnits (Amount t))" "uuid_in pg (PaymentID t) = Some u"
    and "char3_in pg (Currency (Amount t)) = Some c"
    and "row \<in> set (txns w)" "PaymentID row = u"
    and "\<forall>row \<in> set (txns w). PaymentID row = u \<longrightarrow> State row \<noteq> StateValidated"
    and "\<forall>r \<in> set (ledger w). lg_payment_id r \<noteq> u"
  shows "Post pg now t w = (None, w\<lparr>ledger := ledger w @ both_legs u c t\<rparr>)"
  using assms by (rule Post_stale)

theorem Post_books_any_state_witness:
  "Post sample_pg 7 (sample_txn ''p'' ''k'') (one_payment StateFailed) =
     (None, (one_payment StateFailed)\<lparr>ledger := both_legs ''p'' ''USD'' (sample_txn ''p'' ''k'')\<rparr>)"
proof -
  let ?row = "(sample_txn ''p'' ''k'')\<lparr>State := StateFailed\<rparr>"
  have "0 < sint (MinorUnits (Amount (sample_txn ''p'' ''k'')))"
    "uuid_in sample_pg (PaymentID (sample_txn ''p'' ''k'')) = Some ''p''"
    "char3_in sample_pg (Currency (Amount (sample_txn ''p'' ''k''))) = Some ''USD''"
    "?row \<in> set (txns (one_payment StateFailed))" "PaymentID ?row = ''p''"
    "\<forall>row \<in> set (txns (one_payment StateFailed)). PaymentID row = ''p'' \<longrightarrow> State row \<noteq> StateValidated"
    by (simp_all add: sample_txn_def sample_pg_def one_payment_def StateFailed_def StateValidated_def)
  from Post_books_any_state [OF _ this] show ?thesis
    by (simp add: one_payment_def empty_world_def)
qed

text \<open>
  C38. The state is moved before the legs are committed, and the error of that commit is dropped: when
  it is refused, the payment is CAPTURED, \<open>Post\<close> reports success, and there are no legs.
\<close>

theorem Post_captured_without_legs:
  assumes "script w = replicate 7 Done @ [Refused msg]" "0 < sint (MinorUnits (Amount t))"
    and "uuid_in pg (PaymentID t) = Some u" "char3_in pg (Currency (Amount t)) = Some c"
    and "row \<in> set (txns w)" "PaymentID row = u" "State row = StateValidated"
    and "\<forall>r \<in> set (ledger w). lg_payment_id r \<noteq> u"
  shows "\<exists>w'. Post pg now t w = (None, w') \<and>
    visible w' = visible (moved_world now u StateValidated StateCaptured w)"
proof -
  have free: "\<not> ledger_conflict u d (ledger w)" for d
    using assms(8) by (auto simp: ledger_conflict_def)
  have other: "\<not> ledger_conflict u ''CREDIT''
      [\<lparr>lg_payment_id = u, lg_account = a, lg_direction = ''DEBIT'', lg_amount_minor = m, lg_currency = c\<rparr>]"
    for a m by (simp add: ledger_conflict_def)
  have hit: "filter (\<lambda>r. PaymentID r = u \<and> State r = StateValidated) (txns w) \<noteq> []"
    using assms(5-7) by (auto simp: filter_empty_conv)
  have script: "script w = [Done, Done, Done, Done, Done, Done, Done, Refused msg]"
    using assms(1) by (simp add: numeral_eq_Suc)
  have move: "\<exists>w3. UpdateState pg now (PaymentID t) StateValidated StateCaptured
      (w\<lparr>script := [Done, Done, Done, Done, Refused msg]\<rparr>) = (None, w3) \<and>
      w3 = (moved_world now u StateValidated StateCaptured w)\<lparr>script := [Refused msg]\<rparr>"
    using hit assms(3)
    by (simp add: UpdateState_def captured_edge tx_begin_def call_def pop_def update_state_rows_def
        as_uuid_def insert_transition_def tx_commit_def moved_world_def Let_def)
  then show ?thesis
    using assms(2-4) free other script
    by (simp add: Post_def Let_def tx_begin_def call_def pop_def insert_leg_def as_uuid_def
        as_char3_def commit_legs_def tx_commit_def tx_rollback_def moved_world_def visible_def)
qed

theorem Post_captured_without_legs_witness:
  "\<exists>w'. Post sample_pg 7 (sample_txn ''p'' ''k'')
       ((one_payment StateValidated)\<lparr>script := replicate 7 Done @ [Refused ''x'']\<rparr>) = (None, w') \<and>
     visible w' = visible (moved_world 7 ''p'' StateValidated StateCaptured (one_payment StateValidated))"
proof -
  let ?w = "(one_payment StateValidated)\<lparr>script := replicate 7 Done @ [Refused ''x'']\<rparr>"
  let ?row = "(sample_txn ''p'' ''k'')\<lparr>State := StateValidated\<rparr>"
  have "script ?w = replicate 7 Done @ [Refused ''x'']"
    "0 < sint (MinorUnits (Amount (sample_txn ''p'' ''k'')))"
    "uuid_in sample_pg (PaymentID (sample_txn ''p'' ''k'')) = Some ''p''"
    "char3_in sample_pg (Currency (Amount (sample_txn ''p'' ''k''))) = Some ''USD''"
    "?row \<in> set (txns ?w)" "PaymentID ?row = ''p''" "State ?row = StateValidated"
    "\<forall>r \<in> set (ledger ?w). lg_payment_id r \<noteq> ''p''"
    by (simp_all add: sample_txn_def sample_pg_def one_payment_def empty_world_def)
  from Post_captured_without_legs [OF this] show ?thesis
    by (simp add: moved_world_def visible_def)
qed

end
