(* ===== verification/Redis.thy ===== *)
theory Redis
  imports Domain
begin

text \<open>
  The Redis commands the program issues through go-redis, as an interface. The server is not part
  of the repository: its operations are the fields of \<open>redis_client\<close>, an argument of every
  definition that talks to Redis, over a server state of arbitrary type. The locale
  \<open>redis_server\<close> states the documented behaviour of \<open>SET key value NX EX ttl\<close> and \<open>GET\<close>. The
  instance \<open>memory_redis\<close>, a table of values with deadlines, shows that the laws can be met.
\<close>

datatype redis_reply = Value string | RedisNil | RedisError goerr

record 's redis_client =
  SetNX :: "'s \<Rightarrow> string \<Rightarrow> string \<Rightarrow> int64 \<Rightarrow> (goerr + bool) \<times> 's"
  GetKey :: "'s \<Rightarrow> string \<Rightarrow> redis_reply \<times> 's"
  IncrExpire :: "'s \<Rightarrow> string \<Rightarrow> int64 \<Rightarrow> (goerr + int) \<times> 's"

text \<open>
  \<open>live s k\<close> is the value a reader of state \<open>s\<close> finds under \<open>k\<close>, if any. A command that reports an
  error may have taken effect or not; it never overwrites a live value and leaves other keys alone.
\<close>

locale redis_server =
  fixes client :: "'s redis_client"
    and live :: "'s \<Rightarrow> string \<Rightarrow> string option"
  assumes setnx_won: "SetNX client s k v ttl = (Inr True, s') \<Longrightarrow>
      live s k = None \<and> live s' k = Some v"
    and setnx_lost: "SetNX client s k v ttl = (Inr False, s') \<Longrightarrow> live s k \<noteq> None"
    and setnx_keeps: "live s k = Some e \<Longrightarrow> live (snd (SetNX client s k v ttl)) k = Some e"
    and setnx_other: "k' \<noteq> k \<Longrightarrow> live (snd (SetNX client s k v ttl)) k' = live s k'"
    and get_value: "GetKey client s k = (Value v, s') \<Longrightarrow> live s k = Some v"
    and get_keeps: "live (snd (GetKey client s k)) = live s"

section \<open>A server in memory\<close>

record memory_state =
  clock :: time
  entries :: "(string \<times> string \<times> time option) list"
  counters :: "(string \<times> int \<times> time) list"

definition entry_live :: "memory_state \<Rightarrow> string \<Rightarrow> string option" where
  "entry_live s k =
     (case map_of (entries s) k of
        None \<Rightarrow> None
      | Some (v, None) \<Rightarrow> Some v
      | Some (v, Some d) \<Rightarrow> if clock s < d then Some v else None)"

definition memory_setnx ::
  "memory_state \<Rightarrow> string \<Rightarrow> string \<Rightarrow> int64 \<Rightarrow> (goerr + bool) \<times> memory_state" where
  "memory_setnx s k v ttl =
     (if entry_live s k = None then
        (Inr True,
         s\<lparr>entries := AList.update k
            (v, if 0 < sint ttl then Some (clock s + sint ttl) else None) (entries s)\<rparr>)
      else (Inr False, s))"

definition memory_get :: "memory_state \<Rightarrow> string \<Rightarrow> redis_reply \<times> memory_state" where
  "memory_get s k = ((case entry_live s k of None \<Rightarrow> RedisNil | Some v \<Rightarrow> Value v), s)"

definition memory_incr_expire ::
  "memory_state \<Rightarrow> string \<Rightarrow> int64 \<Rightarrow> (goerr + int) \<times> memory_state" where
  "memory_incr_expire s k ttl =
     (let old = (case map_of (counters s) k of
                   None \<Rightarrow> 0 | Some (n, d) \<Rightarrow> if clock s < d then n else 0)
      in (Inr (old + 1),
          s\<lparr>counters := AList.update k (old + 1, clock s + sint ttl) (counters s)\<rparr>))"

definition memory_redis :: "memory_state redis_client" where
  "memory_redis =
     \<lparr>SetNX = memory_setnx, GetKey = memory_get, IncrExpire = memory_incr_expire\<rparr>"

definition empty_redis :: memory_state where
  "empty_redis = \<lparr>clock = 0, entries = [], counters = []\<rparr>"

interpretation memory: redis_server memory_redis entry_live
  by unfold_locales
    (auto simp: memory_redis_def memory_setnx_def memory_get_def entry_live_def update_conv'
      split: if_splits option.splits)

end
