(* ===== verification/Fraud.thy ===== *)
theory Fraud
  imports Redis Store
begin

text \<open>
  \<open>internal/fraud-score/fraud-engine.go\<close>: three additive rules, a risk level and the insert of a
  score.

  \<^item> Scores are \<open>float64\<close>. All values that occur lie below 2, so a \<open>float64\<close> is modelled as the
    number of its units of \<open>2 ^ -54\<close>, and an addition rounds the exact sum to 53 significant bits, ties
    to even, as IEEE 754 prescribes. The constants are the nearest doubles of the decimal literals.
  \<^item> The pipeline of \<open>INCR\<close> and \<open>EXPIRE\<close> is one operation of the Redis client (theory \<open>Redis\<close>).
\<close>

section \<open>Double precision\<close>

type_synonym float64 = int

definition round_even :: "int \<Rightarrow> int \<Rightarrow> int" where
  "round_even n m =
     (let q = n div m; r = n mod m
      in if 2 * r < m \<or> 2 * r = m \<and> even q then q * m else (q + 1) * m)"

definition float_round :: "int \<Rightarrow> float64" where
  "float_round n =
     (if n < 9007199254740992 then n
      else if n < 18014398509481984 then round_even n 2
      else round_even n 4)"

definition float_add :: "float64 \<Rightarrow> float64 \<Rightarrow> float64" where
  "float_add a b = float_round (a + b)"

definition f0_2 :: float64 where "f0_2 = 3602879701896397"
definition f0_3 :: float64 where "f0_3 = 5404319552844595"
definition f0_4 :: float64 where "f0_4 = 7205759403792794"
definition f0_5 :: float64 where "f0_5 = 9007199254740992"
definition f0_8 :: float64 where "f0_8 = 14411518807585588"
definition f1_0 :: float64 where "f1_0 = 18014398509481984"

lemmas float_consts = f0_2_def f0_3_def f0_4_def f0_5_def f0_8_def f1_0_def

section \<open>Risk levels\<close>

datatype RiskLevel = RiskLow | RiskMedium | RiskHigh | RiskCritical

fun risk_text :: "RiskLevel \<Rightarrow> string" where
  "risk_text RiskLow = ''LOW''"
| "risk_text RiskMedium = ''MEDIUM''"
| "risk_text RiskHigh = ''HIGH''"
| "risk_text RiskCritical = ''CRITICAL''"

fun risk_rank :: "RiskLevel \<Rightarrow> nat" where
  "risk_rank RiskLow = 0"
| "risk_rank RiskMedium = 1"
| "risk_rank RiskHigh = 2"
| "risk_rank RiskCritical = 3"

lemma risk_rank_inject: "risk_rank a = risk_rank b \<Longrightarrow> a = b"
  by (cases a; cases b) simp_all

instantiation RiskLevel :: linorder
begin

definition less_eq_RiskLevel :: "RiskLevel \<Rightarrow> RiskLevel \<Rightarrow> bool" where
  "a \<le> b \<longleftrightarrow> risk_rank a \<le> risk_rank b"

definition less_RiskLevel :: "RiskLevel \<Rightarrow> RiskLevel \<Rightarrow> bool" where
  "a < b \<longleftrightarrow> risk_rank a < risk_rank b"

instance
  by standard (auto simp: less_eq_RiskLevel_def less_RiskLevel_def dest: risk_rank_inject)

end

definition toRiskLevel :: "float64 \<Rightarrow> RiskLevel" where
  "toRiskLevel score =
     (if score \<ge> f0_8 then RiskCritical
      else if score \<ge> f0_5 then RiskHigh
      else if score \<ge> f0_2 then RiskMedium
      else RiskLow)"

lemma toRiskLevel_mono: "a \<le> b \<Longrightarrow> toRiskLevel a \<le> toRiskLevel b"
  by (simp add: toRiskLevel_def float_consts less_eq_RiskLevel_def)

section \<open>Scoring\<close>

record score =
  Sc_PaymentID :: string
  Sc_AccountID :: string
  Sc_RiskLevel :: RiskLevel
  Sc_Signals :: "string list"
  Sc_Score :: float64

definition velocity_window :: int64 where
  "velocity_window = 60000000000"

definition FraudEngine_Score ::
  "'s redis_client \<Rightarrow> transaction \<Rightarrow> 's \<Rightarrow> score \<times> 's" where
  "FraudEngine_Score client t s =
     (let (signals, score) =
            (if sint (MinorUnits (Amount t)) > 1000000
             then ([''amount exceeds threshold''], float_add 0 f0_4) else ([], 0));
          (reply, s1) = IncrExpire client s (''velocity:'' @ AccountID t) velocity_window;
          (signals, score) =
            (case reply of
               Inl err \<Rightarrow> (signals, score)
             | Inr n \<Rightarrow>
                 if n > 10
                 then (signals @ [''velocity: >10 txns/min for account''], float_add score f0_5)
                 else (signals, score));
          (signals, score) =
            (if gget (case Metadata t of None \<Rightarrow> [] | Some m \<Rightarrow> m) ''account_age_days'' = ''0'' \<and>
                sint (MinorUnits (Amount t)) > 500000
             then (signals @ [''new account with large transaction''], float_add score f0_3)
             else (signals, score));
          finalScore = min score f1_0
      in (\<lparr>Sc_PaymentID = PaymentID t, Sc_AccountID = AccountID t,
           Sc_RiskLevel = toRiskLevel finalScore, Sc_Signals = signals, Sc_Score = finalScore\<rparr>,
          s1))"

text \<open>The rules as the source names them.\<close>

definition rule_amount :: "transaction \<Rightarrow> bool" where
  "rule_amount t \<longleftrightarrow> sint (MinorUnits (Amount t)) > 1000000"

definition rule_velocity :: "goerr + int \<Rightarrow> bool" where
  "rule_velocity reply \<longleftrightarrow> (case reply of Inl _ \<Rightarrow> False | Inr n \<Rightarrow> n > 10)"

definition rule_new_account :: "transaction \<Rightarrow> bool" where
  "rule_new_account t \<longleftrightarrow>
     gget (case Metadata t of None \<Rightarrow> [] | Some m \<Rightarrow> m) ''account_age_days'' = ''0'' \<and>
     sint (MinorUnits (Amount t)) > 500000"

text \<open>The specification: the level and the score, in thousandths, by the rules that fired.\<close>

fun risk_table :: "bool \<Rightarrow> bool \<Rightarrow> bool \<Rightarrow> RiskLevel \<times> int" where
  "risk_table False False False = (RiskLow, 0)"
| "risk_table False False True = (RiskMedium, 300)"
| "risk_table True False False = (RiskMedium, 400)"
| "risk_table False True False = (RiskHigh, 500)"
| "risk_table True False True = (RiskHigh, 700)"
| "risk_table False True True = (RiskCritical, 800)"
| "risk_table True True False = (RiskCritical, 900)"
| "risk_table True True True = (RiskCritical, 1000)"

lemma Score_rules:
  assumes "IncrExpire client s (''velocity:'' @ AccountID t) velocity_window = (reply, s1)"
  shows "FraudEngine_Score client t s =
    (let score1 = (if rule_amount t then float_add 0 f0_4 else 0);
         score2 = (if rule_velocity reply then float_add score1 f0_5 else score1);
         score3 = min (if rule_new_account t then float_add score2 f0_3 else score2) f1_0
     in (\<lparr>Sc_PaymentID = PaymentID t, Sc_AccountID = AccountID t, Sc_RiskLevel = toRiskLevel score3,
         Sc_Signals = (if rule_amount t then [''amount exceeds threshold''] else []) @
           (if rule_velocity reply then [''velocity: >10 txns/min for account''] else []) @
           (if rule_new_account t then [''new account with large transaction''] else []),
         Sc_Score = score3\<rparr>, s1))"
  using assms
  by (cases reply)
    (simp_all add: FraudEngine_Score_def rule_amount_def rule_velocity_def rule_new_account_def Let_def)

text \<open>The sums that can occur, as doubles.\<close>

definition score_total :: "bool \<Rightarrow> bool \<Rightarrow> bool \<Rightarrow> float64" where
  "score_total large frequent fresh =
     (case (large, frequent, fresh) of
        (False, False, False) \<Rightarrow> 0 | (False, False, True) \<Rightarrow> 5404319552844595
      | (True, False, False) \<Rightarrow> 7205759403792794 | (False, True, False) \<Rightarrow> 9007199254740992
      | (True, False, True) \<Rightarrow> 12610078956637388 | (False, True, True) \<Rightarrow> 14411518807585588
      | (True, True, False) \<Rightarrow> 16212958658533786 | (True, True, True) \<Rightarrow> 18014398509481984)"

lemma Score_values:
  assumes "IncrExpire client s (''velocity:'' @ AccountID t) velocity_window = (reply, s1)"
    and "FraudEngine_Score client t s = (sc, s')"
  shows "s' = s1" "Sc_PaymentID sc = PaymentID t"
    "Sc_Score sc = score_total (rule_amount t) (rule_velocity reply) (rule_new_account t)"
    "Sc_RiskLevel sc = toRiskLevel (Sc_Score sc)"
    "Sc_Signals sc = (if rule_amount t then [''amount exceeds threshold''] else []) @
      (if rule_velocity reply then [''velocity: >10 txns/min for account''] else []) @
      (if rule_new_account t then [''new account with large transaction''] else [])"
proof -
  have table: "float_add 0 f0_4 = 7205759403792794" "float_add 0 f0_5 = 9007199254740992"
    "float_add 0 f0_3 = 5404319552844595"
    "float_add 7205759403792794 f0_5 = 16212958658533786"
    "float_add 7205759403792794 f0_3 = 12610078956637388"
    "float_add 9007199254740992 f0_3 = 14411518807585588"
    "float_add 16212958658533786 f0_3 = 21617278211378380"
    by (simp_all add: float_add_def float_round_def round_even_def float_consts Let_def)
  show "Sc_Score sc = score_total (rule_amount t) (rule_velocity reply) (rule_new_account t)"
    using assms(2) unfolding Score_rules [OF assms(1)] Let_def
    by (cases "rule_amount t"; cases "rule_velocity reply"; cases "rule_new_account t")
      (auto simp: score_total_def table f1_0_def)
qed (use assms(2) in \<open>auto simp: Score_rules [OF assms(1)] Let_def\<close>)

text \<open>
  C34. A score is a function of the rules that fired: its level is the one of the table, whatever the
  rounding of the floating point sums, it stays between 0 and 1, is within one millionth of the
  decimal value, lists exactly the rules that fired, and a Redis failure costs the velocity rule
  only.
\<close>

theorem Score_table:
  assumes "IncrExpire client s (''velocity:'' @ AccountID t) velocity_window = (reply, s1)"
    and "FraudEngine_Score client t s = (sc, s')"
  shows "s' = s1 \<and> Sc_PaymentID sc = PaymentID t \<and>
    Sc_RiskLevel sc = fst (risk_table (rule_amount t) (rule_velocity reply) (rule_new_account t)) \<and>
    0 \<le> Sc_Score sc \<and> Sc_Score sc \<le> f1_0 \<and>
    \<bar>1000 * Sc_Score sc - snd (risk_table (rule_amount t) (rule_velocity reply) (rule_new_account t)) * f1_0\<bar>
      * 1000 \<le> f1_0 \<and>
    Sc_Signals sc = (if rule_amount t then [''amount exceeds threshold''] else []) @
      (if rule_velocity reply then [''velocity: >10 txns/min for account''] else []) @
      (if rule_new_account t then [''new account with large transaction''] else [])"
  unfolding Score_values(4) [OF assms] Score_values(1-3,5) [OF assms]
  by (cases "rule_amount t"; cases "rule_velocity reply"; cases "rule_new_account t")
    (simp_all add: toRiskLevel_def float_consts score_total_def)

text \<open>What every score the engine returns looks like: the level is that of the number, and a score of 0 is one
  without signals.\<close>

definition plausible_score :: "score \<Rightarrow> bool" where
  "plausible_score sc \<longleftrightarrow>
     0 \<le> Sc_Score sc \<and> Sc_Score sc \<le> f1_0 \<and> Sc_RiskLevel sc = toRiskLevel (Sc_Score sc) \<and>
     (Sc_Signals sc = [] \<longleftrightarrow> Sc_Score sc = 0)"

lemma FraudEngine_Score_plausible: "FraudEngine_Score client t s = (sc, s') \<Longrightarrow> plausible_score sc"
proof -
  obtain reply s1 where reply: "IncrExpire client s (''velocity:'' @ AccountID t) velocity_window = (reply, s1)"
    by (rule prod.exhaust)
  assume "FraudEngine_Score client t s = (sc, s')"
  note parts = Score_values [OF reply this]
  show ?thesis
    unfolding plausible_score_def parts(4) parts(3,5)
    by (cases "rule_amount t"; cases "rule_velocity reply"; cases "rule_new_account t")
      (simp_all add: f1_0_def score_total_def)
qed

definition scored_payment :: "int64 \<Rightarrow> transaction" where
  "scored_payment m =
     \<lparr>PaymentID = ''p'', IdempotencyKey = ''k'', Source = SourceCard, ExternalTxnID = [],
      AccountID = ''a'', Amount = \<lparr>MinorUnits = m, Currency = ''INR''\<rparr>, State = StateValidated,
      SchemaVersion = 1, Metadata = None, CreatedAt = 0, UpdatedAt = 0\<rparr>"

theorem Score_table_witness:
  "Sc_RiskLevel (fst (FraudEngine_Score memory_redis (scored_payment 2000000) empty_redis)) = RiskMedium"
proof -
  have reply: "IncrExpire memory_redis empty_redis (''velocity:'' @ AccountID (scored_payment 2000000))
      velocity_window = (Inr 1, snd (IncrExpire memory_redis empty_redis
        (''velocity:'' @ AccountID (scored_payment 2000000)) velocity_window))"
    by (simp add: memory_redis_def memory_incr_expire_def empty_redis_def Let_def)
  obtain sc s' where "FraudEngine_Score memory_redis (scored_payment 2000000) empty_redis = (sc, s')"
    by (rule prod.exhaust)
  with Score_table [OF reply this] show ?thesis
    by (simp add: rule_amount_def rule_velocity_def rule_new_account_def scored_payment_def gget_def)
qed

section \<open>The velocity rule\<close>

text \<open>Scoring at given times against the server in memory.\<close>

fun score_all :: "(time \<times> transaction) list \<Rightarrow> memory_state \<Rightarrow> score list" where
  "score_all [] s = []"
| "score_all ((now, t) # ts) s =
     (case FraudEngine_Score memory_redis t (s\<lparr>clock := now\<rparr>) of (sc, s1) \<Rightarrow> sc # score_all ts s1)"

fun within_a_minute :: "time list \<Rightarrow> bool" where
  "within_a_minute (a # b # ts) \<longleftrightarrow> b < a + 60000000000 \<and> within_a_minute (b # ts)"
| "within_a_minute _ \<longleftrightarrow> True"

definition count_before :: "string \<Rightarrow> time \<Rightarrow> memory_state \<Rightarrow> int" where
  "count_before key now s =
     (case map_of (counters s) key of None \<Rightarrow> 0 | Some (n, d) \<Rightarrow> if now < d then n else 0)"

lemma memory_count:
  "IncrExpire memory_redis (s\<lparr>clock := now\<rparr>) key velocity_window =
     (Inr (count_before key now s + 1),
      s\<lparr>clock := now, counters := AList.update key
         (count_before key now s + 1, now + 60000000000) (counters s)\<rparr>)"
  by (simp add: memory_redis_def memory_incr_expire_def count_before_def velocity_window_def Let_def
      split: option.split)

lemma velocity_signal:
  assumes "FraudEngine_Score memory_redis t (s\<lparr>clock := now\<rparr>) = (sc, s1)"
  shows "''velocity: >10 txns/min for account'' \<in> set (Sc_Signals sc) \<longleftrightarrow>
      count_before (''velocity:'' @ AccountID t) now s \<ge> 10"
    and "count_before (''velocity:'' @ AccountID t) now' s1 =
      (if now' < now + 60000000000 then count_before (''velocity:'' @ AccountID t) now s + 1 else 0)"
  using assms unfolding Score_rules [OF memory_count] Let_def
  by (auto simp: rule_velocity_def count_before_def [of _ now'] update_conv')

lemma score_all_velocity:
  assumes "\<forall>(now, t) \<in> set ts. AccountID t = a" "within_a_minute (map fst ts)" "i < length ts"
    and "count_before (''velocity:'' @ a) (fst (hd ts)) s = n" "0 \<le> n"
  shows "''velocity: >10 txns/min for account'' \<in> set (Sc_Signals (score_all ts s ! i)) \<longleftrightarrow>
    n + int i \<ge> 10"
  using assms
proof (induction ts arbitrary: s n i)
  case Nil
  then show ?case by simp
next
  case (Cons x ts)
  obtain now t where x: "x = (now, t)" by (cases x)
  obtain sc s1 where sc: "FraudEngine_Score memory_redis t (s\<lparr>clock := now\<rparr>) = (sc, s1)"
    by (rule prod.exhaust)
  have a: "AccountID t = a" using Cons.prems(1) x by simp
  show ?case
  proof (cases i)
    case 0
    then show ?thesis using velocity_signal(1) [OF sc] Cons.prems(4) sc x a by simp
  next
    case (Suc j)
    then obtain y ys where ts: "ts = y # ys" using Cons.prems(3) by (cases ts) simp_all
    with Cons.prems(2) x have "fst (hd ts) < now + 60000000000" by simp
    then have "count_before (''velocity:'' @ a) (fst (hd ts)) s1 = n + 1"
      using velocity_signal(2) [OF sc] Cons.prems(4) x a by simp
    moreover have "within_a_minute (map fst ts)" using Cons.prems(2) x ts by simp
    ultimately show ?thesis
      using Cons.IH [of j s1 "n + 1"] Cons.prems Suc sc x by simp
  qed
qed

text \<open>
  The velocity window slides: each payment restarts the minute of the counter, so the rule does
  not count payments per minute. From the eleventh payment on, every payment of an account is
  flagged as long as none follows the previous one by a minute or more, even at two payments
  in two minutes.
\<close>

theorem velocity_counts_streaks:
  assumes "\<forall>(now, t) \<in> set ts. AccountID t = a" "within_a_minute (map fst ts)"
    and "map_of (counters s) (''velocity:'' @ a) = None" "i < length ts"
  shows "''velocity: >10 txns/min for account'' \<in> set (Sc_Signals (score_all ts s ! i)) \<longleftrightarrow> i \<ge> 10"
  using score_all_velocity [OF assms(1,2,4), of s 0] assms(3) by (simp add: count_before_def)

definition slow_payments :: "(time \<times> transaction) list" where
  "slow_payments = map (\<lambda>i. (59000000000 * i, scored_payment 100)) [0,1,2,3,4,5,6,7,8,9,10,11]"

theorem velocity_counts_streaks_witness:
  "''velocity: >10 txns/min for account'' \<in> set (Sc_Signals (score_all slow_payments empty_redis ! 11))"
proof -
  have "\<forall>(now, t) \<in> set slow_payments. AccountID t = ''a''" "within_a_minute (map fst slow_payments)"
    "map_of (counters empty_redis) (''velocity:'' @ ''a'') = None" "11 < length slow_payments"
    by (simp_all add: slow_payments_def scored_payment_def empty_redis_def)
  from velocity_counts_streaks [OF this] show ?thesis by simp
qed

section \<open>Saving a score\<close>

text \<open>
  \<open>json.Marshal\<close> of the signals, which has no error: a slice nothing was appended to is nil, and a nil
  slice is encoded as \<open>null\<close>.
\<close>

definition marshal_signals :: "string list \<Rightarrow> json" where
  "marshal_signals signals = (if signals = [] then JNull else JArr (map JStr signals))"

definition stored_score :: "string \<Rightarrow> score \<Rightarrow> score_row" where
  "stored_score u s =
     \<lparr>sc_payment_id = u, sc_account_id = Sc_AccountID s, sc_score = Sc_Score s,
      sc_risk_level = risk_text (Sc_RiskLevel s), sc_signals = marshal_signals (Sc_Signals s)\<rparr>"

text \<open>\<open>fraud_scores\<close> has no unique index besides its serial key, so nothing can conflict.\<close>

definition insert_score :: "pgtypes \<Rightarrow> score \<Rightarrow> world \<Rightarrow> goerr + unit \<times> world" where
  "insert_score pg s w =
     (case as_uuid pg (Sc_PaymentID s) of
        Inl e \<Rightarrow> Inl e
      | Inr u \<Rightarrow> Inr ((), w\<lparr>scores := scores w @ [stored_score u s]\<rparr>))"

definition SaveScore :: "pgtypes \<Rightarrow> score \<Rightarrow> world \<Rightarrow> goerr option \<times> world" where
  "SaveScore pg s w =
     (case call (insert_score pg s) w of
        (Inl err, w1) \<Rightarrow> (Some (Wrap ''SaveScore: insert: '' err), w1)
      | (Inr _, w1) \<Rightarrow> (None, w1))"

lemma insert_score_effect:
  "insert_score pg s w = Inr (x, w') \<longleftrightarrow>
     (\<exists>u. uuid_in pg (Sc_PaymentID s) = Some u \<and> w' = w\<lparr>scores := scores w @
        [stored_score u s]\<rparr>)"
  by (auto simp: insert_score_def as_uuid_def reject_def split: option.splits)

lemma SaveScore_cases:
  assumes "SaveScore pg s w = (r, w')"
  obtains (saved) u z where "uuid_in pg (Sc_PaymentID s) = Some u"
      "w' = w\<lparr>scores := scores w @
        [stored_score u s], script := z\<rparr>"
    | (failed) z where "r \<noteq> None" "w' = w\<lparr>script := z\<rparr>"
proof -
  obtain c w1 where c: "call (insert_score pg s) w = (c, w1)" by (cases "call (insert_score pg s) w")
  with assms have w1: "w' = w1" "r = None \<longleftrightarrow> c = Inr ()"
    by (auto simp: SaveScore_def split: sum.splits)
  from c show ?thesis
  proof (cases rule: call_cases)
    case (effect x z)
    then obtain u where u: "uuid_in pg (Sc_PaymentID s) = Some u"
      "w1 = (w\<lparr>script := z\<rparr>)\<lparr>scores := scores w @
        [stored_score u s]\<rparr>"
      by (auto simp: insert_score_effect)
    then show ?thesis using w1 by (intro saved [of u z]) simp_all
  next
    case (nothing e z)
    then show ?thesis using w1 failed by auto
  qed
qed

text \<open>
  A saved score is one new row with the level's name and the signals; however the call fails, no
  other row changes. Saving is not idempotent: the same event scored twice leaves two rows, since
  the \<open>ON CONFLICT DO NOTHING\<close> of the statement has no unique index to act on.
\<close>

theorem SaveScore_inserts_again:
  assumes "SaveScore pg s w = (None, w1)" "SaveScore pg s w1 = (None, w2)"
  shows "\<exists>row. sc_risk_level row = risk_text (Sc_RiskLevel s) \<and> sc_signals row = marshal_signals (Sc_Signals s) \<and>
    sc_score row = Sc_Score s \<and> scores w2 = scores w @ [row, row] \<and>
    visible w2 = visible (w\<lparr>scores := scores w @ [row, row]\<rparr>)"
proof -
  from assms(1) obtain u z where one: "uuid_in pg (Sc_PaymentID s) = Some u"
    "w1 = w\<lparr>scores := scores w @
        [stored_score u s], script := z\<rparr>"
    by (cases rule: SaveScore_cases) auto
  from assms(2) obtain z' where "w2 = w1\<lparr>scores := scores w1 @
        [stored_score u s], script := z'\<rparr>"
    using one(1) by (cases rule: SaveScore_cases) auto
  with one show ?thesis by (simp add: visible_def stored_score_def)
qed

theorem SaveScore_inserts_again_witness:
  "\<exists>w1 w2 sc. SaveScore sample_pg sc empty_world = (None, w1) \<and> SaveScore sample_pg sc w1 = (None, w2) \<and>
     length (scores w2) = 2"
proof -
  let ?sc = "\<lparr>Sc_PaymentID = ''p'', Sc_AccountID = ''a'', Sc_RiskLevel = RiskLow, Sc_Signals = [],
    Sc_Score = 0\<rparr>"
  have clean: "\<exists>w'. SaveScore sample_pg ?sc w = (None, w') \<and> script w' = []" if "script w = []" for w
    using that by (simp add: SaveScore_def call_nil insert_score_def as_uuid_def sample_pg_def)
  obtain w1 where w1: "SaveScore sample_pg ?sc empty_world = (None, w1)" "script w1 = []"
    using clean [of empty_world] by (auto simp: empty_world_def)
  obtain w2 where w2: "SaveScore sample_pg ?sc w1 = (None, w2)" using clean [OF w1(2)] by blast
  from SaveScore_inserts_again [OF w1(1) w2] have "length (scores w2) = 2"
    by (auto simp: empty_world_def)
  with w1 w2 show ?thesis by blast
qed

end
