(* ===== verification/Consumers.thy ===== *)
theory Consumers
  imports Consumer Ledger Fraud
begin

text \<open>
  The three consumers of \<open>payments.received\<close>: the handlers of \<open>cmd/ledger-consumer\<close>,
  \<open>cmd/fraud-consumer\<close> and \<open>cmd/notification-consumer\<close>, and their wiring to the retry wrapper and the
  consumer loop.

  \<^item> \<open>now\<close> is the reading of the clocks during one delivery.
  \<^item> The fraud consumer works on the world and on the state of its Redis client.
  \<^item> \<open>CommitRecords\<close> is a call of the world that changes no table: committed offsets are not read back.
\<close>

section \<open>The handlers\<close>

text \<open>Fields of the event the handlers do not copy have their zero value.\<close>

definition event_transaction :: "payment_event \<Rightarrow> transaction" where
  "event_transaction event =
     \<lparr>PaymentID = ev_PaymentID event, IdempotencyKey = [], Source = ev_Source event,
      ExternalTxnID = [], AccountID = ev_AccountID event,
      Amount = \<lparr>MinorUnits = ev_AmountMinor event, Currency = ev_Currency event\<rparr>,
      State = ev_State event, SchemaVersion = 0, Metadata = None,
      CreatedAt = ev_CreatedAt event, UpdatedAt = zero_time\<rparr>"

definition non_retryable :: "goerr \<Rightarrow> goerr" where
  "non_retryable err = Wrap2 (Sentinel NonRetryable) '': unmarshal: '' err"

definition missing_field :: "payment_event \<Rightarrow> bool" where
  "missing_field event \<longleftrightarrow>
     ev_PaymentID event = [] \<or> ev_AccountID event = [] \<or> ev_Currency event = []"

definition ledger_handle :: "codec \<Rightarrow> pgtypes \<Rightarrow> time \<Rightarrow> world handler" where
  "ledger_handle c pg now key p w =
     (case UnmarshalEvent c p of
        Inl err \<Rightarrow> (Some (non_retryable err), w)
      | Inr event \<Rightarrow>
          if missing_field event then (Some (non_retryable (Plain ''malformed event'')), w)
          else
            (case Post pg now (event_transaction event) w of
               (Some err, w1) \<Rightarrow>
                 (Some (Wrap (''post ledger entries payment_id='' @ ev_PaymentID event @ '': '') err), w1)
             | (None, w1) \<Rightarrow> (None, w1)))"

definition fraud_handle :: "codec \<Rightarrow> pgtypes \<Rightarrow> 's redis_client \<Rightarrow> (world \<times> 's) handler" where
  "fraud_handle c pg client key p st =
     (case UnmarshalEvent c p of
        Inl err \<Rightarrow> (Some (non_retryable err), st)
      | Inr event \<Rightarrow>
          if missing_field event then (Some (non_retryable (Plain ''malformed event'')), st)
          else
            (case FraudEngine_Score client (event_transaction event) (snd st) of
               (fraudScore, s1) \<Rightarrow>
                 (case SaveScore pg fraudScore (fst st) of
                    (Some err, w1) \<Rightarrow>
                      (Some (Wrap (''error saving fraud score='' @ ev_PaymentID event @ '': '') err), (w1, s1))
                  | (None, w1) \<Rightarrow> (None, (w1, s1)))))"

definition notification_handle :: "codec \<Rightarrow> 's handler" where
  "notification_handle c key p s =
     (case UnmarshalEvent c p of
        Inl err \<Rightarrow> (Some (non_retryable err), s)
      | Inr event \<Rightarrow>
          if missing_field event then (Some (non_retryable (Plain ''malformed event'')), s)
          else (None, s))"

section \<open>The processes\<close>

definition commit_offset :: "world committer" where
  "commit_offset record w =
     (case call (\<lambda>w. Inr ((), w)) w of (Inl err, w1) \<Rightarrow> (Some err, w1) | (Inr _, w1) \<Rightarrow> (None, w1))"

text \<open>A producer and a committer of the world, lifted to a state that contains the world.\<close>

definition on_world :: "(world \<Rightarrow> 'a \<times> world) \<Rightarrow> world \<times> 's \<Rightarrow> 'a \<times> (world \<times> 's)" where
  "on_world f st = (case f (fst st) of (r, w1) \<Rightarrow> (r, (w1, snd st)))"

definition ledger_retried :: "codec \<Rightarrow> pgtypes \<Rightarrow> bool \<Rightarrow> time \<Rightarrow> world record_handler" where
  "ledger_retried c pg ready now =
     RetryHandler c now (ledger_handle c pg now) (Publish ready) TopicPaymentsReceived
       ''ledger-consumer'' 3"

definition fraud_retried ::
  "codec \<Rightarrow> pgtypes \<Rightarrow> 's redis_client \<Rightarrow> bool \<Rightarrow> time \<Rightarrow> (world \<times> 's) record_handler" where
  "fraud_retried c pg client ready now =
     RetryHandler c now (fraud_handle c pg client)
       (\<lambda>topic key p. on_world (Publish ready topic key p)) TopicPaymentsReceived ''fraud-consumer'' 3"

definition notification_retried :: "codec \<Rightarrow> bool \<Rightarrow> time \<Rightarrow> world record_handler" where
  "notification_retried c ready now =
     RetryHandler c now (notification_handle c) (Publish ready) TopicPaymentsReceived
       ''notification-consumer'' 3"

text \<open>
  \<open>deliveries\<close> is what the Kafka client hands out, or its error; the loop of \<open>Consume\<close> on the wrapped
  handler.
\<close>

definition ledger_consumer ::
  "codec \<Rightarrow> pgtypes \<Rightarrow> bool \<Rightarrow> time \<Rightarrow> (goerr + fetches list) \<Rightarrow> string \<Rightarrow> world \<Rightarrow> consumed \<times> world" where
  "ledger_consumer c pg ready now deliveries kafkaBroker w =
     (case NewConsumer kafkaBroker of
        Inl err \<Rightarrow> (Left (Some err), w)
      | Inr brokers \<Rightarrow>
          Consume (\<lambda>_ _ _. map_sum id (Pair commit_offset) deliveries) (Some brokers)
            TopicPaymentsReceived ''ledger-consumer'' (Some (ledger_retried c pg ready now)) w)"

definition fraud_consumer ::
  "codec \<Rightarrow> pgtypes \<Rightarrow> 's redis_client \<Rightarrow> bool \<Rightarrow> time \<Rightarrow> (goerr + fetches list) \<Rightarrow> string \<Rightarrow>
   world \<times> 's \<Rightarrow> consumed \<times> (world \<times> 's)" where
  "fraud_consumer c pg client ready now deliveries kafkaBroker st =
     (case NewConsumer kafkaBroker of
        Inl err \<Rightarrow> (Left (Some err), st)
      | Inr brokers \<Rightarrow>
          Consume (\<lambda>_ _ _. map_sum id (Pair (\<lambda>record. on_world (commit_offset record))) deliveries)
            (Some brokers) TopicPaymentsReceived ''fraud-consumer''
            (Some (fraud_retried c pg client ready now)) st)"

definition notification_consumer ::
  "codec \<Rightarrow> bool \<Rightarrow> time \<Rightarrow> (goerr + fetches list) \<Rightarrow> string \<Rightarrow> world \<Rightarrow> consumed \<times> world" where
  "notification_consumer c ready now deliveries kafkaBroker w =
     (case NewConsumer kafkaBroker of
        Inl err \<Rightarrow> (Left (Some err), w)
      | Inr brokers \<Rightarrow>
          Consume (\<lambda>_ _ _. map_sum id (Pair commit_offset) deliveries) (Some brokers)
            TopicPaymentsReceived ''notification-consumer'' (Some (notification_retried c ready now)) w)"

section \<open>Double entry survives every delivery\<close>

lemma commit_offset_idle: "commit_offset record w = (e, w') \<Longrightarrow> idle w w'"
  unfolding commit_offset_def by (auto split: prod.splits sum.splits elim!: call_cases)

lemma Publish_ledger_inv: "Publish ready topic key p w = (r, w') \<Longrightarrow> ledger_inv w \<Longrightarrow> ledger_inv w'"
  by (erule producer.publish_cases) (auto simp: ledger_inv_def)

interpretation ledger_handler: retried_handler "ledger_handle c pg now" ledger_inv "Publish ready"
  for c pg now ready
proof
  show "ledger_inv s'" if "ledger_handle c pg now key p s = (r, s')" "ledger_inv s" for key p s r s'
    using that unfolding ledger_handle_def
    by (auto split: sum.splits if_splits prod.splits option.splits dest: Post_ledger_inv)
  show "ledger_inv s'" if "Publish ready topic key p s = (r, s')" "ledger_inv s" for topic key p s r s'
    using that by (rule Publish_ledger_inv)
qed

interpretation ledger_process: consumer_invariant "ledger_retried c pg ready now" ledger_inv
  for c pg ready now
  by unfold_locales (auto simp: ledger_retried_def intro: ledger_handler.RetryHandler_keeps)

lemma ledger_consumer_inv [inv_intros]:
  assumes "ledger_consumer c pg ready now deliveries kafkaBroker w = (out, w')" "ledger_inv w"
  shows "ledger_inv w'"
proof (cases "NewConsumer kafkaBroker")
  case (Inl err)
  with assms show ?thesis by (simp add: ledger_consumer_def)
next
  case (Inr brokers)
  with assms(1) have run: "Consume (\<lambda>_ _ _. map_sum id (Pair commit_offset) deliveries) (Some brokers)
      TopicPaymentsReceived ''ledger-consumer'' (Some (ledger_retried c pg ready now)) w = (out, w')"
    by (simp add: ledger_consumer_def)
  show ?thesis
  proof (rule ledger_process.Consume_keeps [OF run assms(2)])
    fix bs commit fs rec s e s'
    assume "map_sum id (Pair commit_offset) deliveries = Inr (commit, fs)"
      "commit rec s = (e, s')" "ledger_inv s"
    then show "ledger_inv s'"
      by (cases deliveries) (auto dest: commit_offset_idle intro: ledger.idle_keeps)
  qed
qed

text \<open>
  Whatever Kafka delivers to the ledger consumer, in whatever order and however often, valid
  events or garbage, and however the database, the broker and the commits of offsets fail: the
  legs of every payment sum to zero.
\<close>

theorem ledger_consumer_balanced:
  assumes "ledger w = []" "ledger_consumer c pg ready now deliveries kafkaBroker w = (out, w')"
  shows "net u (ledger w') = 0 \<and> length (filter (\<lambda>r. lg_payment_id r = u) (ledger w')) \<in> {0, 2}"
proof -
  have "ledger_inv w"
    using assms by (auto simp: ledger_inv_def double_entry_def intro: exI [of _ "[]"])
  with assms(2) have "ledger_inv w'" by (rule ledger_consumer_inv)
  then obtain es where "double_entry es (ledger w')" by (auto simp: ledger_inv_def)
  then show ?thesis using entry_net [of u es] entry_legs [of es u] by (simp add: double_entry_def)
qed

theorem ledger_consumer_balanced_witness:
  "\<exists>out w'. ledger_consumer sample_codec sample_pg True 0
       (Inr [\<lparr>fe_closed = False, fe_errors = [], fe_records = [sample_record 1], fe_ctx = None\<rparr>]) ''b''
       (one_payment StateValidated) = (out, w') \<and> net ''p'' (ledger w') = 0"
proof -
  obtain out w' where run: "ledger_consumer sample_codec sample_pg True 0
       (Inr [\<lparr>fe_closed = False, fe_errors = [], fe_records = [sample_record 1], fe_ctx = None\<rparr>]) ''b''
       (one_payment StateValidated) = (out, w')" by (rule prod.exhaust)
  have "ledger (one_payment StateValidated) = []" by (simp add: one_payment_def empty_world_def)
  from ledger_consumer_balanced [OF this run] run show ?thesis by blast
qed

section \<open>Messages no handler can take\<close>

lemma non_retryable_is: "errors_is (non_retryable err) NonRetryable"
  by (simp add: non_retryable_def)

lemma retry_non_retryable:
  assumes "handler key p s = (Some e, s1)" "errors_is e NonRetryable"
  shows "RetryHandler c now handler dlq topic consumerGroup 3 key p s =
    publishToDLQ c dlq now consumerGroup topic key p (Some e) 3 s1"
  using assms by (simp add: RetryHandler_def retry_loop.simps)

lemma not_json_unmarshal: "UnmarshalEvent c (NotJson b) = Inl (Plain (unmarshal_text c (NotJson b)))"
  by (simp add: UnmarshalEvent_def)

lemma not_json_stuck:
  "ledger_retried c pg ready now key (NotJson b) w =
     (Returned (Some (Wrap ''publishToDLQ: marshal: '' (Plain (marshal_text c (NotJson b))))), w)"
  "fraud_retried c pg client ready now key (NotJson b) st =
     (Returned (Some (Wrap ''publishToDLQ: marshal: '' (Plain (marshal_text c (NotJson b))))), st)"
  "notification_retried c ready now key (NotJson b) w =
     (Returned (Some (Wrap ''publishToDLQ: marshal: '' (Plain (marshal_text c (NotJson b))))), w)"
  by (simp_all add: ledger_retried_def fraud_retried_def notification_retried_def ledger_handle_def
      fraud_handle_def notification_handle_def not_json_unmarshal retry_non_retryable
      non_retryable_is publishToDLQ_def raw_message_def split: option.splits)

text \<open>
  A message that is no JSON is never dead-lettered: the dead letter embeds the payload as raw JSON,
  so encoding it fails, and each of the three consumers stops at this record, without
  committing it and without a trace in the dead letter topic. A restart meets the same record again.
\<close>

theorem poison_message_stops_consumers:
  assumes "fe_closed f = False" "fe_records f = r # rs" "kc_Value r = NotJson b"
    and "NewConsumer kafkaBroker = Inr brokers"
  shows "\<exists>e. ledger_consumer c pg ready now (Inr (f # fs)) kafkaBroker w = (Left (Some e), w) \<and>
      fraud_consumer c pg client ready now (Inr (f # fs)) kafkaBroker (w, s) = (Left (Some e), (w, s)) \<and>
      notification_consumer c ready now (Inr (f # fs)) kafkaBroker w = (Left (Some e), w)"
proof -
  have "brokers \<noteq> []" using assms(4) by (auto simp: NewConsumer_def Let_def split: if_splits)
  with assms show ?thesis
    by (simp add: ledger_consumer_def fraud_consumer_def notification_consumer_def Consume_def
        TopicPaymentsReceived_def not_json_stuck Let_def)
qed

definition poison :: fetches where
  "poison = \<lparr>fe_closed = False, fe_errors = [],
     fe_records = [(sample_record 1)\<lparr>kc_Value := NotJson ''x''\<rparr>, sample_record 2], fe_ctx = None\<rparr>"

theorem poison_message_stops_consumers_witness:
  "\<exists>e. ledger_consumer sample_codec sample_pg True 0 (Inr [poison]) ''b'' empty_world = (Left (Some e), empty_world)"
proof -
  have "fe_closed poison = False"
    "fe_records poison = (sample_record 1)\<lparr>kc_Value := NotJson ''x''\<rparr> # [sample_record 2]"
    "kc_Value ((sample_record 1)\<lparr>kc_Value := NotJson ''x''\<rparr>) = NotJson ''x''"
    by (simp_all add: poison_def)
  moreover have "NewConsumer ''b'' = Inr [''b'']"
    by (simp add: NewConsumer_def parseBrokers_eq TrimSpace_def trim_front.simps leading_rune_def
        space_runes_def starts_with_def)
  ultimately show ?thesis
    using poison_message_stops_consumers [of poison _ _ "''x''" "''b''" "[''b'']" sample_codec sample_pg
        True 0 "[]" empty_world memory_redis empty_redis] by blast
qed

text \<open>
  An event without a payment id, an account or a currency is dead-lettered after one attempt of
  the handler and without touching any table; the dead letter however says three attempts, the
  configured maximum.
\<close>

theorem malformed_event_dead_lettered:
  assumes "UnmarshalEvent c p = Inr event" "missing_field event"
    and "fmt_time c now = Some t" "script w = []"
  shows "\<exists>original. p = Doc original \<and>
    ledger_retried c pg True now key p w =
      (Returned None, w\<lparr>klog := klog w @ [\<lparr>kr_topic = ''payments.dlq'', kr_key = key, kr_value =
         Doc (dlq_message ''payments.received'' key original
           ''non-retryable error: unmarshal: malformed event'' 3 t ''ledger-consumer'')\<rparr>]\<rparr>)"
proof -
  from assms(1) obtain original where p: "p = Doc original"
    by (auto simp: UnmarshalEvent_def split: payload.splits)
  have one: "ledger_handle c pg now key p w = (Some (non_retryable (Plain ''malformed event'')), w)"
    using assms(1,2) by (simp add: ledger_handle_def)
  have "ledger_retried c pg True now key p w =
      (Returned None, w\<lparr>klog := klog w @ [\<lparr>kr_topic = ''payments.dlq'', kr_key = key, kr_value =
         Doc (dlq_message ''payments.received'' key original
           ''non-retryable error: unmarshal: malformed event'' 3 t ''ledger-consumer'')\<rparr>]\<rparr>)"
    unfolding ledger_retried_def
      retry_non_retryable [of "ledger_handle c pg now", OF one non_retryable_is]
    using assms(3,4) p
    by (simp add: publishToDLQ_def raw_message_def Publish_def call_nil topic_defs non_retryable_def)
  with p show ?thesis by blast
qed

theorem malformed_event_dead_lettered_witness:
  "length (klog (snd (ledger_retried sample_codec sample_pg True 0 ''k'' (Doc JNull) empty_world))) = 1"
proof -
  have "UnmarshalEvent sample_codec (Doc JNull) = Inr zero_event" "missing_field zero_event"
    by (simp_all add: UnmarshalEvent_def missing_field_def zero_event_def)
  moreover obtain t where "fmt_time sample_codec 0 = Some t" by (simp add: sample_codec_def)
  moreover have "script empty_world = []" by (simp add: empty_world_def)
  ultimately show ?thesis
    using malformed_event_dead_lettered [of sample_codec "Doc JNull" zero_event 0 t empty_world sample_pg
        "''k''"] by (auto simp: empty_world_def)
qed

section \<open>Rules and guards that the wiring defeats\<close>

text \<open>
  The third fraud rule is dead code in the pipeline: the fraud consumer does not copy the
  metadata of the event, so no score it saves carries the signal of a new account with a large
  transaction.
\<close>

theorem new_account_rule_never_fires:
  assumes "fraud_handle c pg client key p (w, s) = (r, (w', s'))"
    and "row \<in> set (scores w')" "row \<notin> set (scores w)"
  shows "\<forall>signals. sc_signals row = JArr signals \<longrightarrow> JStr ''new account with large transaction'' \<notin> set signals"
proof -
  from assms obtain event sc s1 where sc: "FraudEngine_Score client (event_transaction event) s = (sc, s1)"
    and saved: "\<exists>x. SaveScore pg sc w = (x, w')"
    unfolding fraud_handle_def
    by (auto split: sum.splits if_splits prod.splits option.splits)
  obtain reply s2 where "IncrExpire client s (''velocity:'' @ AccountID (event_transaction event))
      velocity_window = (reply, s2)" by (rule prod.exhaust)
  from Score_rules [OF this] sc have "''new account with large transaction'' \<notin> set (Sc_Signals sc)"
    by (auto simp: rule_new_account_def event_transaction_def gget_def Let_def)
  moreover from saved obtain x where "SaveScore pg sc w = (x, w')" by blast
  then have "sc_signals row = marshal_signals (Sc_Signals sc)"
    using assms(2,3) by (cases rule: SaveScore_cases) (auto simp: stored_score_def)
  ultimately show ?thesis by (auto simp: marshal_signals_def split: if_splits)
qed

definition new_account_document :: payload where
  "new_account_document = Doc (JObj [(''payment_id'', JStr ''p''), (''account_id'', JStr ''a''),
     (''currency'', JStr ''USD''), (''amount_minor'', JNum 900000),
     (''metadata'', JObj [(''account_age_days'', JStr ''0'')])])"

theorem new_account_rule_never_fires_witness:
  "\<exists>row r w' s'. fraud_handle sample_codec sample_pg memory_redis ''k'' new_account_document
       (empty_world, empty_redis) = (r, (w', s')) \<and> scores w' = [row] \<and>
     (\<forall>signals. sc_signals row = JArr signals \<longrightarrow> JStr ''new account with large transaction'' \<notin> set signals)"
proof -
  obtain r w' s' where run: "fraud_handle sample_codec sample_pg memory_redis ''k'' new_account_document
      (empty_world, empty_redis) = (r, (w', s'))" by (rule prod_cases3)
  have event: "UnmarshalEvent sample_codec new_account_document = Inr (zero_event\<lparr>ev_PaymentID := ''p'',
      ev_AccountID := ''a'', ev_Currency := ''USD'', ev_AmountMinor := 900000,
      ev_Metadata := Some [(''account_age_days'', ''0'')]\<rparr>)"
    by (simp add: new_account_document_def UnmarshalEvent_def decode_simps decode_int64_def
        in_int64_def max_int64_def min_int64_def zero_event_def gput_def)
  have "\<exists>row. scores w' = [row]"
    using run unfolding fraud_handle_def event
    by (auto simp: missing_field_def SaveScore_def call_nil empty_world_def insert_score_def as_uuid_def
        sample_pg_def Score_rules [OF surjective_pairing] Let_def event_transaction_def zero_event_def
        split: if_splits)
  then obtain row where "scores w' = [row]" by blast
  with new_account_rule_never_fires [OF run, of row] run show ?thesis
    by (auto simp: empty_world_def)
qed

text \<open>
  A payment can end FAILED and booked: when the first attempt to begin the ledger transaction
  fails, \<open>Post\<close> moves the payment to FAILED; the retry then books both legs, takes the stale
  transition for an already captured payment, and the event counts as handled.
\<close>

theorem retry_books_failed_payment:
  assumes event: "UnmarshalEvent c p = Inr event" "\<not> missing_field event"
    and amount: "0 < sint (ev_AmountMinor event)"
    and columns: "uuid_in pg (ev_PaymentID event) = Some u" "char3_in pg (ev_Currency event) = Some cur"
    and row: "row \<in> set (txns w)" "PaymentID row = u" "State row = StateValidated"
    and unique: "distinct (map PaymentID (txns w))"
    and free: "\<forall>r \<in> set (ledger w). lg_payment_id r \<noteq> u"
    and script: "script w = [Refused msg]"
  shows "\<exists>w'. ledger_retried c pg True now key p w = (Returned None, w') \<and>
    (\<exists>row' \<in> set (txns w'). PaymentID row' = u \<and> State row' = StateFailed) \<and>
    ledger w' = ledger w @ both_legs u cur (event_transaction event)"
proof -
  let ?t = "event_transaction event"
  let ?w1 = "w\<lparr>script := []\<rparr>"
  let ?w2 = "moved_world now u StateValidated StateFailed ?w1"
  have t: "0 < sint (MinorUnits (Amount ?t))" "uuid_in pg (PaymentID ?t) = Some u"
    "char3_in pg (Currency (Amount ?t)) = Some cur" "PaymentID ?t = ev_PaymentID event"
    using amount columns by (simp_all add: event_transaction_def)
  have "Transition StateValidated StateFailed = None"
    by (simp add: Transition_def allowed_def StateValidated_def StateFailed_def StateReceived_def)
  from UpdateState_clean [OF _ this columns(1), of ?w1 now] row
  have "UpdateState pg now (PaymentID ?t) StateValidated StateFailed ?w1 = (None, ?w2)"
    unfolding t(4) by auto
  moreover have "tx_begin w = (Inl (Plain msg), ?w1)"
    using script by (simp add: tx_begin_def call_def pop_def)
  ultimately have post1: "Post pg now ?t w = (Some (Plain msg), ?w2)"
    using t(1) by (simp add: Post_def Let_def)
  have moved: "row\<lparr>State := StateFailed, UpdatedAt := now\<rparr> \<in> set (txns ?w2)"
    using row by (auto simp: moved_world_def set_update_where)
  have "\<forall>r \<in> set (txns ?w2). PaymentID r = u \<longrightarrow> State r \<noteq> StateValidated"
    by (rule moved_world_left) (simp add: StateFailed_def StateValidated_def)
  from Post_stale [OF _ t(1-3) moved _ this, of now] row(2) free
  have post2: "Post pg now ?t ?w2 = (None, ?w2\<lparr>ledger := ledger w @ both_legs u cur ?t\<rparr>)"
    by (simp add: moved_world_def)
  have first: "ledger_handle c pg now key p w =
      (Some (Wrap (''post ledger entries payment_id='' @ ev_PaymentID event @ '': '') (Plain msg)), ?w2)"
    using event post1 by (simp add: ledger_handle_def)
  have second: "ledger_handle c pg now key p ?w2 = (None, ?w2\<lparr>ledger := ledger w @ both_legs u cur ?t\<rparr>)"
    using event post2 by (simp add: ledger_handle_def)
  have "ledger_retried c pg True now key p w =
      (Returned None, ?w2\<lparr>ledger := ledger w @ both_legs u cur ?t\<rparr>)"
    by (simp add: ledger_retried_def RetryHandler_def retry_loop.simps first second)
  moreover have "\<exists>row' \<in> set (txns (?w2\<lparr>ledger := ledger w @ both_legs u cur ?t\<rparr>)).
      PaymentID row' = u \<and> State row' = StateFailed"
    using moved row(2) by (intro bexI [of _ "row\<lparr>State := StateFailed, UpdatedAt := now\<rparr>"]) simp_all
  ultimately show ?thesis by simp
qed

theorem retry_books_failed_payment_witness:
  "\<exists>w'. ledger_retried sample_codec sample_pg True 9 ''k'' new_account_document
       ((one_payment StateValidated)\<lparr>script := [Refused ''down'']\<rparr>) = (Returned None, w') \<and>
     (\<exists>row' \<in> set (txns w'). PaymentID row' = ''p'' \<and> State row' = StateFailed) \<and>
     length (ledger w') = 2"
proof -
  let ?w = "(one_payment StateValidated)\<lparr>script := [Refused ''down'']\<rparr>"
  let ?row = "(sample_txn ''p'' ''k'')\<lparr>State := StateValidated\<rparr>"
  let ?ev = "zero_event\<lparr>ev_PaymentID := ''p'',
      ev_AccountID := ''a'', ev_Currency := ''USD'', ev_AmountMinor := 900000,
      ev_Metadata := Some [(''account_age_days'', ''0'')]\<rparr>"
  have "UnmarshalEvent sample_codec new_account_document = Inr ?ev"
    by (simp add: new_account_document_def UnmarshalEvent_def decode_simps decode_int64_def
        in_int64_def max_int64_def min_int64_def zero_event_def gput_def)
  moreover have "\<not> missing_field ?ev" "0 < sint (ev_AmountMinor ?ev)"
    "uuid_in sample_pg (ev_PaymentID ?ev) = Some ''p''" "char3_in sample_pg (ev_Currency ?ev) = Some ''USD''"
    by (simp_all add: missing_field_def sample_pg_def)
  moreover have "?row \<in> set (txns ?w)" "PaymentID ?row = ''p''" "State ?row = StateValidated"
    "distinct (map PaymentID (txns ?w))" "\<forall>r \<in> set (ledger ?w). lg_payment_id r \<noteq> ''p''"
    "script ?w = [Refused ''down'']" "ledger ?w = []"
    by (simp_all add: one_payment_def sample_txn_def empty_world_def)
  ultimately show ?thesis
    using retry_books_failed_payment [of sample_codec new_account_document ?ev sample_pg "''p''" "''USD''"
        ?row ?w "''down''" 9 "''k''"] by (auto simp: both_legs_def)
qed

end
