(* ===== verification/Relay.thy ===== *)
theory Relay
  imports Store Kafka
begin

text \<open>
  \<open>internal/outbox/relay.go\<close>: the relay between the outbox table and Kafka.

  \<^item> The lemmas on a batch are proved in the locale \<open>world_producer\<close>, for every producer that appends a
    record when it succeeds; the properties are stated for the model's \<open>Publish\<close>.
  \<^item> \<open>Run\<close> takes the list of events its \<open>select\<close> receives; each tick carries the database's clock.
\<close>

section \<open>The operations\<close>

definition is_unpublished :: "outbox_row \<Rightarrow> bool" where
  "is_unpublished r \<longleftrightarrow> ob_published_at r = None"

text \<open>\<open>SELECT ... WHERE published_at IS NULL ORDER BY id LIMIT $1\<close>\<close>

definition select_unpublished :: "nat \<Rightarrow> world \<Rightarrow> outbox_row list" where
  "select_unpublished batchSize w =
     take batchSize (sort_key ob_id (filter is_unpublished (outbox w)))"

text \<open>\<open>UPDATE outbox SET published_at = NOW() WHERE id = $1\<close>\<close>

definition mark_published :: "time \<Rightarrow> int \<Rightarrow> world \<Rightarrow> goerr + unit \<times> world" where
  "mark_published now i w =
     Inr ((), w\<lparr>outbox := update_where (\<lambda>r. ob_id r = i) (\<lambda>r. r\<lparr>ob_published_at := Some now\<rparr>) (outbox w)\<rparr>)"

type_synonym world_publisher = "string \<Rightarrow> string \<Rightarrow> payload \<Rightarrow> world \<Rightarrow> goerr option \<times> world"

fun relay_rows :: "world_publisher \<Rightarrow> time \<Rightarrow> outbox_row list \<Rightarrow> world \<Rightarrow> goerr option \<times> world" where
  "relay_rows publish now [] w = (None, w)"
| "relay_rows publish now (row # rows) w =
     (case publish (ob_topic row) (ob_partition_key row) (Doc (ob_payload row)) w of
        (Some err, w1) \<Rightarrow> (Some err, w1)
      | (None, w1) \<Rightarrow>
          (case call (mark_published now (ob_id row)) w1 of
             (Inl err, w2) \<Rightarrow> (Some err, w2)
           | (Inr _, w2) \<Rightarrow> relay_rows publish now rows w2))"

text \<open>The second call is the reading of the result set, which \<open>rows.Scan\<close> or \<open>rows.Err\<close> can fail.\<close>

definition relayBatch :: "world_publisher \<Rightarrow> nat \<Rightarrow> time \<Rightarrow> world \<Rightarrow> goerr option \<times> world" where
  "relayBatch publish batchSize now w =
     (case call (\<lambda>w. Inr (select_unpublished batchSize w, w)) w of
        (Inl err, w1) \<Rightarrow> (Some err, w1)
      | (Inr rows, w1) \<Rightarrow>
          (case call (\<lambda>w. Inr (rows, w)) w1 of
             (Inl err, w2) \<Rightarrow> (Some err, w2)
           | (Inr rowsList, w2) \<Rightarrow> relay_rows publish now rowsList w2))"

definition NewPostgresRelay_batchSize :: nat where
  "NewPostgresRelay_batchSize = 100"

text \<open>The relay with its producer; the interval of the ticker is in nanoseconds.\<close>

record postgres_relay =
  rl_producer :: world_publisher
  rl_pollIntervalMs :: int64
  rl_batchSize :: nat

definition NewPostgresRelay :: "world_publisher \<Rightarrow> postgres_relay" where
  "NewPostgresRelay publish =
     \<lparr>rl_producer = publish, rl_pollIntervalMs = 200 * 1000000, rl_batchSize = NewPostgresRelay_batchSize\<rparr>"

datatype relay_event = Tick time | CtxDone

text \<open>The first component tells whether \<open>Run\<close> has returned (nil) or is still waiting.\<close>

fun Run :: "world_publisher \<Rightarrow> nat \<Rightarrow> relay_event list \<Rightarrow> world \<Rightarrow> bool \<times> world" where
  "Run publish batchSize [] w = (False, w)"
| "Run publish batchSize (Tick now # events) w =
     Run publish batchSize events (snd (relayBatch publish batchSize now w))"
| "Run publish batchSize (CtxDone # events) w = (True, w)"

section \<open>A batch publishes and marks a prefix\<close>

definition record_of :: "outbox_row \<Rightarrow> kafka_record" where
  "record_of r = \<lparr>kr_topic = ob_topic r, kr_key = ob_partition_key r, kr_value = Doc (ob_payload r)\<rparr>"

definition mark_all :: "time \<Rightarrow> outbox_row list \<Rightarrow> outbox_row list \<Rightarrow> outbox_row list" where
  "mark_all now done rows =
     update_where (\<lambda>r. ob_id r \<in> ob_id ` set done) (\<lambda>r. r\<lparr>ob_published_at := Some now\<rparr>) rows"

lemma mark_all_Nil [simp]: "mark_all now [] rows = rows"
  by (simp add: mark_all_def update_where_none)

lemma mark_all_Cons:
  "mark_all now done (update_where (\<lambda>r. ob_id r = ob_id d) (\<lambda>r. r\<lparr>ob_published_at := Some now\<rparr>) rows) =
   mark_all now (d # done) rows"
  by (simp add: mark_all_def update_where_def)

text \<open>\<open>relayed now rows n m w w'\<close>: the first \<open>n\<close> rows are in the log, the first \<open>m\<close> are marked.\<close>

definition relayed :: "time \<Rightarrow> outbox_row list \<Rightarrow> nat \<Rightarrow> nat \<Rightarrow> world \<Rightarrow> world \<Rightarrow> bool" where
  "relayed now rows n m w w' \<longleftrightarrow>
     m \<le> n \<and> n \<le> Suc m \<and> n \<le> length rows \<and>
     (\<exists>s. w' = w\<lparr>klog := klog w @ map record_of (take n rows),
                 outbox := mark_all now (take m rows) (outbox w), script := s\<rparr>)"

lemma relayed_script: "relayed now rows n m (w\<lparr>script := s\<rparr>) w' \<longleftrightarrow> relayed now rows n m w w'"
  by (simp add: relayed_def)

lemma relayed_Cons:
  assumes "relayed now rows n m
      (w\<lparr>klog := klog w @ [record_of row],
         outbox := update_where (\<lambda>r. ob_id r = ob_id row) (\<lambda>r. r\<lparr>ob_published_at := Some now\<rparr>) (outbox w),
         script := s\<rparr>) w'"
  shows "relayed now (row # rows) (Suc n) (Suc m) w w'"
  using assms unfolding relayed_def by (auto simp: mark_all_Cons)

context world_producer begin

lemma relay_rows_prefix:
  "relay_rows publish now rows w = (r, w') \<Longrightarrow>
   \<exists>n m. relayed now rows n m w w' \<and> (r = None \<longrightarrow> m = length rows)"
proof (induction rows arbitrary: w)
  case Nil
  then have "relayed now [] 0 0 w w'"
    by (auto simp: relayed_def intro: exI [of _ "script w"])
  then show ?case by fastforce
next
  case (Cons row rows)
  have zero: "relayed now (row # rows) 0 0 w (w\<lparr>script := s\<rparr>)" for s
    by (auto simp: relayed_def intro: exI [of _ s])
  have one: "relayed now (row # rows) 1 0 w (w\<lparr>klog := klog w @ [record_of row], script := s\<rparr>)" for s
    by (auto simp: relayed_def intro: exI [of _ s])
  obtain q w1 where p: "publish (ob_topic row) (ob_partition_key row) (Doc (ob_payload row)) w = (q, w1)"
    by (cases "publish (ob_topic row) (ob_partition_key row) (Doc (ob_payload row)) w")
  show ?case
  proof (cases q)
    case (Some err)
    with Cons.prems p have out: "r = Some err" "w' = w1" by simp_all
    from publish_failed [OF p [unfolded Some]] show ?thesis
      unfolding out record_of_def [symmetric] using zero one by blast
  next
    case None
    from publish_ok [OF p [unfolded None]] obtain s1
      where w1: "w1 = w\<lparr>klog := klog w @ [record_of row], script := s1\<rparr>"
      unfolding record_of_def [symmetric] by blast
    obtain c w2 where c: "call (mark_published now (ob_id row)) w1 = (c, w2)"
      by (cases "call (mark_published now (ob_id row)) w1")
    let ?marked = "\<lambda>s. w\<lparr>klog := klog w @ [record_of row],
         outbox := update_where (\<lambda>r. ob_id r = ob_id row) (\<lambda>r. r\<lparr>ob_published_at := Some now\<rparr>) (outbox w),
         script := s\<rparr>"
    have both: "relayed now (row # rows) 1 1 w (?marked s)" for s
      by (auto simp: relayed_def mark_all_Cons [of now "[]", simplified] intro: exI [of _ s])
    show ?thesis
    proof (cases c)
      case (Inl err)
      with Cons.prems p None c have out: "r = Some err" "w' = w2" by simp_all
      from c show ?thesis
      proof (cases rule: call_cases)
        case (effect x s)
        then have "w2 = ?marked s" using w1 by (auto simp: mark_published_def)
        with both out show ?thesis by blast
      next
        case (nothing e s)
        then have "w2 = w\<lparr>klog := klog w @ [record_of row], script := s\<rparr>" using w1 by simp
        with one out show ?thesis by blast
      qed
    next
      case (Inr x)
      from c [unfolded Inr] obtain s where "mark_published now (ob_id row) (w1\<lparr>script := s\<rparr>) = Inr (x, w2)"
        by (rule call_success)
      then have "w2 = ?marked s" using w1 by (auto simp: mark_published_def)
      moreover from Cons.prems p None c Inr have "relay_rows publish now rows w2 = (r, w')" by simp
      ultimately show ?thesis
        using Cons.IH relayed_Cons by fastforce
    qed
  qed
qed

lemma relayBatch_prefix:
  assumes "relayBatch publish batchSize now w = (r, w')"
  shows "\<exists>n m. relayed now (select_unpublished batchSize w) n m w w' \<and>
    (r = None \<longrightarrow> m = length (select_unpublished batchSize w))"
proof -
  let ?rows = "select_unpublished batchSize w"
  have none: "relayed now ?rows 0 0 w (w\<lparr>script := s\<rparr>)" for s
    by (auto simp: relayed_def intro: exI [of _ s])
  obtain x w1 where x: "call (\<lambda>w. Inr (select_unpublished batchSize w, w)) w = (x, w1)"
    by (cases "call (\<lambda>w. Inr (select_unpublished batchSize w, w)) w")
  have rows1: "w1 = w\<lparr>script := script w1\<rparr>" "\<And>rows. x = Inr rows \<Longrightarrow> rows = ?rows"
    using x by (auto elim!: call_cases simp: select_unpublished_def)
  show ?thesis
  proof (cases x)
    case (Inl err)
    with assms x have "r = Some err" "w' = w1" by (simp_all add: relayBatch_def)
    moreover have "relayed now ?rows 0 0 w w1"
      using none [of "script w1"] rows1(1) by metis
    ultimately show ?thesis by auto
  next
    case (Inr rows)
    obtain y w2 where y: "call (\<lambda>w. Inr (rows, w)) w1 = (y, w2)"
      by (cases "call (\<lambda>w. Inr (rows, w)) w1")
    have "w2 = w1\<lparr>script := script w2\<rparr>" and rows2: "\<And>rs. y = Inr rs \<Longrightarrow> rs = rows"
      using y by (auto elim!: call_cases)
    with rows1(1) obtain s where w2: "w2 = w\<lparr>script := s\<rparr>" by (metis world.update_convs(9) world.surjective)
    show ?thesis
    proof (cases y)
      case (Inl err)
      with assms x Inr y have "r = Some err" "w' = w2" by (simp_all add: relayBatch_def)
      then show ?thesis using none w2 by auto
    next
      case all: (Inr rs)
      with assms x Inr y rows1(2) rows2 have "relay_rows publish now ?rows w2 = (r, w')"
        by (simp add: relayBatch_def)
      from relay_rows_prefix [OF this] show ?thesis
        unfolding w2 relayed_script .
    qed
  qed
qed

end

section \<open>Nothing is marked that was not sent\<close>

text \<open>Every row marked as published is in the log.\<close>

definition relay_inv :: "world \<Rightarrow> bool" where
  "relay_inv w \<longleftrightarrow>
     (\<forall>r \<in> set (outbox w). ob_published_at r \<noteq> None \<longrightarrow> record_of r \<in> set (klog w))"

interpretation relay: world_invariant relay_inv
  by unfold_locales (simp_all add: relay_inv_def)

lemma record_of_published [simp]: "record_of (r\<lparr>ob_published_at := x\<rparr>) = record_of r"
  by (simp add: record_of_def)

lemma mark_all_origin:
  assumes "r \<in> set (mark_all now done rows)"
  obtains r0 where "r0 \<in> set rows" "record_of r = record_of r0" "ob_id r0 \<in> ob_id ` set done \<or> r = r0"
proof -
  from assms obtain r0 where "r0 \<in> set rows"
    "r = (if ob_id r0 \<in> ob_id ` set done then r0\<lparr>ob_published_at := Some now\<rparr> else r0)"
    unfolding mark_all_def set_update_where by blast
  then show ?thesis by (intro that [of r0]) simp_all
qed

lemma select_unpublished_sorted:
  assumes "keys_inv w"
  shows "select_unpublished batchSize w = take batchSize (filter is_unpublished (outbox w))"
proof -
  have "sorted (map ob_id (filter is_unpublished (outbox w)))"
    using assms by (intro sorted_filter) (simp add: keys_inv_def strict_sorted_imp_sorted)
  then show ?thesis by (simp add: select_unpublished_def sort_key_id_if_sorted)
qed

lemma keys_ids: "keys_inv w \<Longrightarrow> distinct (map ob_id (outbox w))"
  by (auto simp: keys_inv_def strict_sorted_iff)

lemma relayed_relay_inv:
  assumes "relayed now (select_unpublished batchSize w) n m w w'" "keys_inv w" "relay_inv w"
  shows "relay_inv w'"
  unfolding relay_inv_def
proof (intro ballI impI)
  fix r assume r: "r \<in> set (outbox w')" "ob_published_at r \<noteq> None"
  let ?rows = "select_unpublished batchSize w"
  from assms(1) obtain s where nm: "m \<le> n" and w': "w' = w\<lparr>klog := klog w @ map record_of (take n ?rows),
      outbox := mark_all now (take m ?rows) (outbox w), script := s\<rparr>"
    by (auto simp: relayed_def)
  from r(1) have "r \<in> set (mark_all now (take m ?rows) (outbox w))" by (simp add: w')
  then obtain r0 where r0: "r0 \<in> set (outbox w)" "record_of r = record_of r0"
    "ob_id r0 \<in> ob_id ` set (take m ?rows) \<or> r = r0"
    by (rule mark_all_origin)
  show "record_of r \<in> set (klog w')"
  proof (cases "ob_id r0 \<in> ob_id ` set (take m ?rows)")
    case True
    then obtain d where d: "d \<in> set (take m ?rows)" "ob_id d = ob_id r0" by auto
    moreover have "set (take m ?rows) \<subseteq> set (outbox w)"
      unfolding select_unpublished_sorted [OF assms(2)]
      by (intro subset_trans [OF set_take_subset] filter_is_subset)
    ultimately have "d \<in> set (outbox w)" by blast
    with d(2) r0(1) have "d = r0" using keys_ids [OF assms(2)] distinct_map_unique by metis
    moreover have "d \<in> set (take n ?rows)"
      using d(1) subsetD [OF set_take_subset_set_take [OF nm, of ?rows]] by simp
    ultimately have "r0 \<in> set (take n ?rows)" by simp
    with w' r0(2) show ?thesis by simp
  next
    case False
    with r0 have "r = r0" by simp
    with r0(1) r(2) assms(3) have "record_of r \<in> set (klog w)" by (simp add: relay_inv_def)
    with w' show ?thesis by simp
  qed
qed

lemma map_ob_id_mark_all [simp]: "map ob_id (mark_all now done rows) = map ob_id rows"
  by (simp add: mark_all_def map_update_where)

lemma mark_all_below [simp]: "(\<forall>r \<in> set (mark_all now done rows). ob_id r < k) \<longleftrightarrow> (\<forall>r \<in> set rows. ob_id r < k)"
proof -
  have *: "(\<forall>r \<in> set rs. ob_id r < k) \<longleftrightarrow> (\<forall>i \<in> set (map ob_id rs). i < k)" for rs by simp
  show ?thesis by (simp only: * map_ob_id_mark_all)
qed

lemma relayed_keys:
  assumes "relayed now rows n m w w'" "keys_inv w"
  shows "keys_inv w'"
proof -
  from assms(1) obtain s where "w' = w\<lparr>klog := klog w @ map record_of (take n rows),
      outbox := mark_all now (take m rows) (outbox w), script := s\<rparr>"
    by (auto simp: relayed_def)
  with assms(2) show ?thesis by (simp add: keys_inv_def)
qed

lemma relayBatch_inv [inv_intros]:
  assumes "relayBatch (Publish ready) batchSize now w = (r, w')" "keys_inv w"
  shows "keys_inv w'" and "relay_inv w \<Longrightarrow> relay_inv w'"
  using producer.relayBatch_prefix [OF assms(1)] assms(2) relayed_keys relayed_relay_inv by metis+

lemma Run_inv [inv_intros]:
  "Run (Publish ready) batchSize events w = (b, w') \<Longrightarrow> keys_inv w \<Longrightarrow>
   keys_inv w' \<and> (relay_inv w \<longrightarrow> relay_inv w')"
proof (induction events arbitrary: w)
  case Nil
  then show ?case by simp
next
  case (Cons event events)
  show ?case
  proof (cases event)
    case (Tick now)
    obtain r w1 where "relayBatch (Publish ready) batchSize now w = (r, w1)" by (rule prod.exhaust)
    with Cons Tick relayBatch_inv [OF this Cons.prems(2)] show ?thesis by auto
  qed (use Cons.prems in simp)
qed

lemma filter_key_append:
  "distinct (map key (xs @ ys)) \<Longrightarrow> filter (\<lambda>r. key r \<notin> key ` set xs) (xs @ ys) = ys"
  by (auto simp: filter_empty_conv filter_id_conv)

lemma filter_key_take:
  "distinct (map key xs) \<Longrightarrow> filter (\<lambda>r. key r \<notin> key ` set (take m xs)) xs = drop m xs"
  using filter_key_append [of key "take m xs" "drop m xs"] by (simp only: append_take_drop_id)

lemma unpublished_mark_all:
  assumes "distinct (map ob_id rows)"
  shows "filter is_unpublished (mark_all now (take m (filter is_unpublished rows)) rows) =
    drop m (filter is_unpublished rows)"
proof -
  have "filter is_unpublished (mark_all now sent rows) =
      filter (\<lambda>r. ob_id r \<notin> ob_id ` set sent) (filter is_unpublished rows)" for sent
    unfolding mark_all_def by (induction rows) (auto simp: is_unpublished_def)
  with filter_key_take [of ob_id "filter is_unpublished rows" m] assms show ?thesis
    by (simp add: distinct_map_filter)
qed

text \<open>
  The outbox promise: however the database and the broker fail and whenever the relay is
  stopped, a row marked as published has been appended to the log, with its topic, its partition
  key and its payload.
\<close>

theorem marked_rows_are_sent:
  assumes "keys_inv w" "relay_inv w" "Run (Publish ready) batchSize events w = (b, w')"
    and "row \<in> set (outbox w')" "ob_published_at row \<noteq> None"
  shows "\<lparr>kr_topic = ob_topic row, kr_key = ob_partition_key row, kr_value = Doc (ob_payload row)\<rparr>
    \<in> set (klog w')"
  using Run_inv [OF assms(3,1)] assms(2,4,5) by (auto simp: relay_inv_def record_of_def)

lemma relayBatch_sent:
  assumes "keys_inv w" "relayBatch (Publish ready) batchSize now w = (r, w')"
  shows "\<exists>n m. m \<le> n \<and> n \<le> m + 1 \<and> n \<le> batchSize \<and>
    klog w' = klog w @ map record_of (take n (filter is_unpublished (outbox w))) \<and>
    filter is_unpublished (outbox w') = drop m (filter is_unpublished (outbox w)) \<and>
    (r = None \<longrightarrow> m = min batchSize (length (filter is_unpublished (outbox w))))"
proof -
  let ?U = "filter is_unpublished (outbox w)"
  from producer.relayBatch_prefix [OF assms(2)] obtain n m
    where nm: "relayed now (take batchSize ?U) n m w w'" "r = None \<Longrightarrow> m = length (take batchSize ?U)"
    unfolding select_unpublished_sorted [OF assms(1)] by blast
  then obtain s where w': "m \<le> n" "n \<le> Suc m" "n \<le> length (take batchSize ?U)"
    "w' = w\<lparr>klog := klog w @ map record_of (take n (take batchSize ?U)),
            outbox := mark_all now (take m (take batchSize ?U)) (outbox w), script := s\<rparr>"
    unfolding relayed_def by blast
  then have short: "take n (take batchSize ?U) = take n ?U" "take m (take batchSize ?U) = take m ?U"
    by (simp_all add: min_absorb1)
  have "filter is_unpublished (outbox w') = drop m ?U"
    unfolding w'(4) short using unpublished_mark_all [OF keys_ids [OF assms(1)]] by simp
  moreover have "klog w' = klog w @ map record_of (take n ?U)"
    unfolding w'(4) short by simp
  moreover have "n \<le> batchSize" using w'(3) by simp
  ultimately show ?thesis using w'(1,2) nm(2) by (intro exI [of _ n] exI [of _ m]) (simp add: min.commute)
qed

text \<open>
  C20. A batch sends the unpublished rows in the order of their ids and stops at the first failure:
  what it appends to the log is a prefix of the unpublished rows, it marks all of this prefix or
  all but its last row, and a batch without error has sent and marked everything it selected.
\<close>

theorem relayBatch_sends_prefix:
  assumes "keys_inv w" "relayBatch (Publish ready) batchSize now w = (r, w')"
  shows "\<exists>n m. m \<le> n \<and> n \<le> m + 1 \<and> n \<le> batchSize \<and>
    klog w' = klog w @ map record_of (take n (filter is_unpublished (outbox w))) \<and>
    filter is_unpublished (outbox w') = drop m (filter is_unpublished (outbox w)) \<and>
    (r = None \<longrightarrow> m = min batchSize (length (filter is_unpublished (outbox w))))"
  using assms by (rule relayBatch_sent)

section \<open>Without failures the outbox drains\<close>

lemma relay_rows_clean:
  "script w = [] \<Longrightarrow> \<exists>w'. relay_rows (Publish True) now rows w = (None, w') \<and> script w' = []"
proof (induction rows arbitrary: w)
  case Nil
  then show ?case by simp
next
  case (Cons row rows)
  let ?w1 = "w\<lparr>klog := klog w @ [record_of row],
    outbox := update_where (\<lambda>r. ob_id r = ob_id row) (\<lambda>r. r\<lparr>ob_published_at := Some now\<rparr>) (outbox w)\<rparr>"
  have "relay_rows (Publish True) now (row # rows) w = relay_rows (Publish True) now rows ?w1"
    using Cons.prems by (simp add: Publish_def call_nil mark_published_def record_of_def Let_def)
  with Cons.IH [of ?w1] Cons.prems show ?case by simp
qed

lemma relayBatch_clean:
  assumes "script w = []"
  shows "\<exists>w'. relayBatch (Publish True) batchSize now w = (None, w') \<and> script w' = []"
  using assms relay_rows_clean [OF assms] by (simp add: relayBatch_def call_nil)

text \<open>Without failures, as many ticks as the unpublished rows need batches publish every one of them.\<close>

lemma drained:
  assumes "keys_inv w" "script w = []"
    and "length (filter is_unpublished (outbox w)) \<le> batchSize * length ticks"
    and "Run (Publish True) batchSize (map Tick ticks) w = (b, w')"
  shows "filter is_unpublished (outbox w') = [] \<and>
    klog w' = klog w @ map record_of (filter is_unpublished (outbox w))"
  using assms
proof (induction ticks arbitrary: w)
  case Nil
  then show ?case by simp
next
  case (Cons now ticks)
  let ?U = "filter is_unpublished (outbox w)"
  from relayBatch_clean [OF Cons.prems(2)] obtain w1
    where w1: "relayBatch (Publish True) batchSize now w = (None, w1)" "script w1 = []" by blast
  from relayBatch_sent [OF Cons.prems(1) w1(1)] obtain n m where nm: "m \<le> n"
    "klog w1 = klog w @ map record_of (take n ?U)" "filter is_unpublished (outbox w1) = drop m ?U"
    "m = min batchSize (length ?U)" "n \<le> batchSize" by blast
  have all: "map record_of (take n ?U) @ map record_of (drop m ?U) = map record_of ?U"
    using nm(1,4,5) by (metis append_take_drop_id map_append min.cobounded2 min_def nle_le take_all)
  have keys: "keys_inv w1" using relayBatch_inv(1) [OF w1(1) Cons.prems(1)] .
  have "length (filter is_unpublished (outbox w1)) \<le> batchSize * length ticks"
    using Cons.prems(3) nm(4) unfolding nm(3) by simp
  moreover have "Run (Publish True) batchSize (map Tick ticks) w1 = (b, w')"
    using Cons.prems(4) w1(1) by simp
  ultimately show ?case
    using Cons.IH [OF keys w1(2)] nm all by simp
qed

section \<open>Witnesses\<close>

definition two_rows :: "outcome list \<Rightarrow> world" where
  "two_rows s = empty_world\<lparr>outbox :=
     [outbox_entry sample_pg 1 ''p'' ''t'' ''a'' JNull 0, outbox_entry sample_pg 2 ''q'' ''t'' ''a'' JNull 0],
     outbox_seq := 3, script := s\<rparr>"

lemma two_rows_inv: "keys_inv (two_rows s)" "relay_inv (two_rows s)"
  by (simp_all add: two_rows_def empty_world_def keys_inv_def relay_inv_def outbox_entry_def)

theorem marked_rows_are_sent_witness:
  "\<exists>b w'. Run (Publish True) 100 [Tick 5] (two_rows [Done, Done, Done, Lost ''x'']) = (b, w') \<and>
     (\<forall>row \<in> set (outbox w'). ob_published_at row \<noteq> None \<longrightarrow> record_of row \<in> set (klog w'))"
proof -
  obtain b w' where run: "Run (Publish True) 100 [Tick 5] (two_rows [Done, Done, Done, Lost ''x'']) = (b, w')"
    by (rule prod.exhaust)
  with marked_rows_are_sent [OF two_rows_inv run] show ?thesis
    by (auto simp: record_of_def)
qed

theorem relayBatch_sends_prefix_witness:
  "\<exists>r w' n. relayBatch (Publish True) 1 5 (two_rows [Done, Done, Lost ''x'']) = (r, w') \<and> n \<le> 1 \<and>
     klog w' = map record_of (take n (outbox (two_rows [])))"
proof -
  obtain r w' where run: "relayBatch (Publish True) 1 5 (two_rows [Done, Done, Lost ''x'']) = (r, w')"
    by (rule prod.exhaust)
  with relayBatch_sends_prefix [OF two_rows_inv(1) run] show ?thesis
    by (auto simp: two_rows_def empty_world_def is_unpublished_def outbox_entry_def)
qed

end
