(* ===== verification/Normalize.thy ===== *)
theory Normalize
  imports Domain
begin

text \<open>
  \<open>internal/normalize/normalize.go\<close>: \<open>parseAmount\<close>, the card and UPI normalizers and the
  registry that selects a normalizer by source and schema version.

  A normalizer is a function from the raw payload to a transaction or an error; the registry is
  an association list under the key \<open>source:version\<close>. The locale \<open>versioned_registry\<close> is the
  contract the intake server relies on, with the pair (source, version) as the key; the
  interpretation proves it for the code's string keys, which needs that the key is injective.
\<close>

section \<open>Amounts\<close>

datatype amount_error =
    AmountEmpty
  | AmountFormat
  | AmountPrecision
  | AmountMajor num_error
  | AmountMinor num_error

text \<open>\<open>for len(minor) < 2 { minor += "0" }\<close>\<close>

function pad_minor :: "string \<Rightarrow> string" where
  "pad_minor m = (if length m < 2 then pad_minor (m @ ''0'') else m)"
  by pat_completeness auto
termination
  by (relation "measure (\<lambda>m. 2 - length m)") auto

declare pad_minor.simps [simp del]

definition parseAmount :: "string \<Rightarrow> amount_error + int64" where
  "parseAmount amount0 =
    (let trimmed = TrimSpace amount0 in
     if trimmed = [] then Inl AmountEmpty
     else
       let negative = starts_with trimmed ''-'';
           amount = (if negative then drop 1 trimmed else trimmed);
           parts = split_on (CHR ''.'') amount
       in
       if length parts > 2 then Inl AmountFormat
       else
         let major0 = parts ! 0;
             minor0 = (if length parts = 2 then parts ! 1 else []);
             major = (if major0 = [] then ''0'' else major0)
         in
         if length minor0 > 2 then Inl AmountPrecision
         else
           let minor = pad_minor minor0 in
           case ParseInt major of
             Inl e \<Rightarrow> Inl (AmountMajor e)
           | Inr majorUnits \<Rightarrow>
              (case ParseInt minor of
                 Inl e \<Rightarrow> Inl (AmountMinor e)
               | Inr minorUnits \<Rightarrow>
                   let total = majorUnits * 100 + minorUnits
                   in Inr (if negative then - total else total)))"

section \<open>Normalizers\<close>

text \<open>The error keeps its text only (\<open>%v\<close>), so its cause is all that is recorded.\<close>

datatype norm_error = InvalidAmount amount_error

type_synonym normalizer = "gomap \<Rightarrow> norm_error + transaction"

definition CardNormalizer_Normalize :: normalizer where
  "CardNormalizer_Normalize raw =
     (case parseAmount (gget raw ''amount'') of
        Inl e \<Rightarrow> Inl (InvalidAmount e)
      | Inr minorUnits \<Rightarrow>
          Inr \<lparr> PaymentID = gget raw ''payment_id'',
                IdempotencyKey = gget raw ''idempotency_key'',
                Source = SourceCard,
                ExternalTxnID = gget raw ''external_txn_id'',
                AccountID = gget raw ''account_id'',
                Amount = \<lparr> MinorUnits = minorUnits, Currency = gget raw ''currency'' \<rparr>,
                State = gget raw ''state'',
                SchemaVersion = 1,
                Metadata = Some raw,
                CreatedAt = zero_time,
                UpdatedAt = zero_time \<rparr>)"

definition UPINormalizer_Normalize :: normalizer where
  "UPINormalizer_Normalize raw =
     (case parseAmount (gget raw ''amount'') of
        Inl e \<Rightarrow> Inl (InvalidAmount e)
      | Inr minorUnits \<Rightarrow>
          Inr \<lparr> PaymentID = gget raw ''payment_id'',
                IdempotencyKey = gget raw ''idempotency_key'',
                Source = SourceUPI,
                ExternalTxnID = gget raw ''upi_trx_id'',
                AccountID = gget raw ''account_id'',
                Amount = \<lparr> MinorUnits = minorUnits, Currency = gget raw ''currency'' \<rparr>,
                State = gget raw ''state'',
                SchemaVersion = 1,
                Metadata = Some raw,
                CreatedAt = zero_time,
                UpdatedAt = zero_time \<rparr>)"

section \<open>The registry\<close>

type_synonym 'n registry = "(string \<times> 'n) list"

definition registry_key :: "string \<Rightarrow> int \<Rightarrow> string" where
  "registry_key source version = source @ '':'' @ show_int version"

definition NewRegistry :: "'n registry" where
  "NewRegistry = []"

definition Registry_Register :: "'n registry \<Rightarrow> string \<Rightarrow> int \<Rightarrow> 'n \<Rightarrow> 'n registry" where
  "Registry_Register r source version n = AList.update (registry_key source version) n r"

definition Registry_Get :: "'n registry \<Rightarrow> string \<Rightarrow> int \<Rightarrow> goerr + 'n" where
  "Registry_Get r source version =
     (case map_of r (registry_key source version) of
        None \<Rightarrow> Inl (Plain (''no normalizer found for source '' @ source @
                             '' with schema version '' @ show_int version))
      | Some n \<Rightarrow> Inr n)"

section \<open>What parseAmount accepts\<close>

lemma pad_minor_eq: "pad_minor m = m @ replicate (2 - length m) (CHR ''0'')"
proof (induction m rule: pad_minor.induct)
  case (1 m)
  show ?case
  proof (cases "length m < 2")
    case True
    then have "2 - length m = Suc (2 - length (m @ ''0''))" by simp
    with True "1.IH" show ?thesis by (simp add: pad_minor.simps [of m])
  next
    case False
    then show ?thesis by (simp add: pad_minor.simps [of m])
  qed
qed

text \<open>The value of a fraction of at most two digits, in hundredths.\<close>

definition cents :: "string \<Rightarrow> nat" where
  "cents fs = dec_value (fs @ replicate (2 - length fs) (CHR ''0''))"

lemma is_digit_0 [simp]: "is_digit (CHR ''0'')"
  by (simp add: is_digit_def digit_val_def)

lemma dec_value_lt: "\<forall>c \<in> set s. is_digit c \<Longrightarrow> dec_from n s < (n + 1) * 10 ^ length s"
proof (induction s arbitrary: n)
  case Nil
  then show ?case by simp
next
  case (Cons c cs)
  then have "the (digit_val c) < 10"
    by (auto simp: is_digit_def digit_val_def Let_def split: if_splits)
  then have "n * 10 + the (digit_val c) + 1 \<le> (n + 1) * 10" by simp
  then have "(n * 10 + the (digit_val c) + 1) * 10 ^ length cs \<le> (n + 1) * 10 * 10 ^ length cs"
    by (rule mult_le_mono1)
  moreover have "dec_from (n * 10 + the (digit_val c)) cs
      < (n * 10 + the (digit_val c) + 1) * 10 ^ length cs"
    using Cons by simp
  ultimately have "dec_from (n * 10 + the (digit_val c)) cs < (n + 1) * 10 * 10 ^ length cs"
    by linarith
  then show ?case by (simp add: algebra_simps)
qed

lemma cents_lt:
  assumes "length fs \<le> 2" "\<forall>c \<in> set fs. is_digit c"
  shows "cents fs < 100"
proof -
  let ?m = "fs @ replicate (2 - length fs) (CHR ''0'')"
  have "\<forall>c \<in> set ?m. is_digit c" using assms(2) by auto
  moreover have "length ?m = 2" using assms(1) by simp
  ultimately show ?thesis using dec_value_lt [of ?m 0] by (simp add: cents_def)
qed

lemma ParseInt_pad_minor:
  assumes "length fs \<le> 2" "\<forall>c \<in> set fs. is_digit c"
  shows "ParseInt (pad_minor fs) = Inr (of_nat (cents fs))"
proof -
  have "cents fs < 2 ^ 63" using cents_lt [OF assms] by simp
  moreover have "pad_minor fs \<noteq> []"
    using assms(1) by (cases fs) (auto simp: pad_minor_eq)
  ultimately show ?thesis
    using assms(2) unfolding cents_def pad_minor_eq [symmetric]
    by (intro ParseInt_digits) (auto simp: pad_minor_eq)
qed

lemma ParseInt_major:
  assumes "\<forall>c \<in> set ds. is_digit c" "dec_value ds < 2 ^ 63"
  shows "ParseInt (if ds = [] then ''0'' else ds) = Inr (of_nat (dec_value ds))"
  using assms ParseInt_digits [of ds] by (auto simp: ParseInt_def ParseUint_def digit_val_def)

text \<open>
  C33. Every decimal number with at most two fractional digits is parsed to its value in minor
  units, whatever white space surrounds it, as long as that value fits in 64 bits: an optional
  minus sign, any number of integer digits (none counts as 0), and an optional point with at most
  two more digits.
\<close>

theorem parseAmount_decimal:
  assumes shape: "TrimSpace s =
      (if neg then ''-'' else []) @ ds @ (if dot then CHR ''.'' # fs else [])"
    and digits: "\<forall>c \<in> set (ds @ fs). is_digit c"
    and frac: "length fs \<le> 2" "dot \<or> fs = []"
    and some: "TrimSpace s \<noteq> []"
    and fits: "dec_value ds * 100 + cents fs < 2 ^ 63"
  shows "parseAmount s =
      Inr (if neg then - of_nat (dec_value ds * 100 + cents fs)
           else of_nat (dec_value ds * 100 + cents fs))"
proof -
  let ?body = "ds @ (if dot then CHR ''.'' # fs else [])"
  have nodot: "CHR ''.'' \<notin> set ds" "CHR ''.'' \<notin> set fs"
    using digits digit_not_sign by auto
  have split: "split_on (CHR ''.'') ?body = (if dot then [ds, fs] else [ds])"
    using nodot by (simp add: split_on_sep split_on_plain)
  have head: "starts_with ?body ''-'' = False"
    using digits digit_not_sign by (cases ds) (auto simp: starts_with_def)
  have neg: "starts_with (TrimSpace s) ''-'' = neg"
    using head shape by (auto simp: starts_with_def)
  have body: "(if neg then drop 1 (TrimSpace s) else TrimSpace s) = ?body"
    using shape by simp
  have "dec_value ds < 2 ^ 63" using fits by simp
  with digits have major: "ParseInt (if ds = [] then ''0'' else ds) = Inr (of_nat (dec_value ds))"
    by (intro ParseInt_major) auto
  have minor: "ParseInt (pad_minor fs) = Inr (of_nat (cents fs))"
    using digits frac by (intro ParseInt_pad_minor) auto
  have minor0: "(if length (if dot then [ds, fs] else [ds]) = 2
      then (if dot then [ds, fs] else [ds]) ! 1 else []) = fs"
    using frac by auto
  show ?thesis
    unfolding parseAmount_def Let_def neg body split minor0
    using some frac major minor by (cases "ds = []"; cases neg) simp_all
qed

theorem parseAmount_decimal_witness:
  "parseAmount '' -12.5 '' = Inr (- 1250)"
proof -
  have trim: "TrimSpace '' -12.5 '' = ''-12.5''"
    by (simp add: TrimSpace_def trim_front.simps leading_rune_def space_runes_def starts_with_def)
  show ?thesis
    using parseAmount_decimal [of "'' -12.5 ''" True "''12''" True "''5''"] trim
    by (simp add: is_digit_def digit_val_def cents_def)
qed

text \<open>
  A character that is no digit, sign or point makes the amount an error: letters, exponents,
  thousands separators and inner white space are never silently dropped.
\<close>

theorem parseAmount_rejects:
  assumes "c \<in> set (TrimSpace s)" "\<not> is_digit c" "c \<notin> {CHR ''-'', CHR ''+'', CHR ''.''}"
  shows "\<exists>e. parseAmount s = Inl e"
proof -
  define amount where
    "amount = (if starts_with (TrimSpace s) ''-'' then drop 1 (TrimSpace s) else TrimSpace s)"
  define parts where "parts = split_on (CHR ''.'') amount"
  have "c \<in> set amount"
    using assms(1,3) unfolding amount_def by (cases "TrimSpace s") (auto simp: starts_with_def)
  then obtain p where p: "p \<in> set parts" "c \<in> set p"
    using split_on_covers assms(3) unfolding parts_def by blast
  have bad: "\<exists>e. ParseInt t = Inl e" if "c \<in> set t" for t
    using ParseInt_not_digit [OF that assms(2)] assms(3) by simp
  consider "length parts > 2" | "parts = [p]" | q where "parts = [p, q]" | q where "parts = [q, p]"
    using p by (cases parts; cases "tl parts"; cases "tl (tl parts)") auto
  then show ?thesis
  proof cases
    case 1
    with assms(1) show ?thesis
      by (auto simp: parseAmount_def Let_def amount_def [symmetric] parts_def [symmetric])
  next
    case 2
    with p bad [of p] assms(1) show ?thesis
      by (auto simp: parseAmount_def Let_def amount_def [symmetric] parts_def [symmetric])
  next
    case (3 q)
    with p bad [of p] assms(1) show ?thesis
      by (auto simp: parseAmount_def Let_def amount_def [symmetric] parts_def [symmetric])
  next
    case (4 q)
    with p bad [of "pad_minor p"] assms(1) show ?thesis
      by (auto simp: parseAmount_def Let_def amount_def [symmetric] parts_def [symmetric]
          pad_minor_eq split: sum.splits)
  qed
qed

theorem parseAmount_rejects_witness: "\<exists>e. parseAmount ''1,000'' = Inl e"
proof -
  have "TrimSpace ''1,000'' = ''1,000''"
    by (rule TrimSpace_plain) (simp add: edge_bytes_def space_runes_def)
  then show ?thesis
    by (intro parseAmount_rejects [of "CHR '',''"]) (simp_all add: is_digit_def digit_val_def)
qed

text \<open>
  Three inputs that are no amounts are accepted, because \<open>ParseInt\<close> takes a sign of its own and
  the multiplication by 100 is not checked: a doubled minus sign, a sign inside the fraction, and
  a major part so large that the total wraps to a negative number.
\<close>

lemma parseAmount_anomalies:
  "parseAmount ''--5'' = Inr 500"
  "parseAmount ''1.-5'' = Inr 95"
  "parseAmount ''92233720368547759'' = Inr (- 9223372036854775716)"
proof -
  have trim: "TrimSpace ''--5'' = ''--5''" "TrimSpace ''1.-5'' = ''1.-5''"
    "TrimSpace ''92233720368547759'' = ''92233720368547759''"
    by (simp_all add: TrimSpace_digits is_digit_def digit_val_def)
  have pad: "pad_minor [] = ''00''"
    by (simp add: pad_minor_eq numeral_2_eq_2)
  show "parseAmount ''--5'' = Inr 500" "parseAmount ''1.-5'' = Inr 95"
    "parseAmount ''92233720368547759'' = Inr (- 9223372036854775716)"
    by (simp_all add: parseAmount_def trim starts_with_def ParseInt_def ParseUint_def
        digit_val_def pad pad_minor.simps)
qed

section \<open>The registry as a map from (source, version)\<close>

lemma registry_key_inject:
  "registry_key s v = registry_key s' v' \<longleftrightarrow> s = s' \<and> v = v'"
proof
  assume "registry_key s v = registry_key s' v'"
  then have "s @ CHR '':'' # show_int v = s' @ CHR '':'' # show_int v'"
    by (simp add: registry_key_def)
  moreover have "CHR '':'' \<notin> set (show_int i)" for i
    using show_int_chars [of "CHR '':''" i] by (auto simp: is_digit_def digit_val_def)
  ultimately have "s = s' \<and> show_int v = show_int v'"
    by (intro last_sep_unique) auto
  then show "s = s' \<and> v = v'" by (auto dest: show_int_inject)
qed simp

text \<open>
  The contract of a registry: an empty one knows nothing, and a registration is seen by exactly
  the lookups of its source and version.
\<close>

locale versioned_registry =
  fixes new :: "'r"
    and register :: "'r \<Rightarrow> string \<Rightarrow> int \<Rightarrow> 'n \<Rightarrow> 'r"
    and get :: "'r \<Rightarrow> string \<Rightarrow> int \<Rightarrow> 'e + 'n"
  assumes get_new: "\<exists>e. get new s v = Inl e"
    and get_same: "get (register r s v n) s v = Inr n"
    and get_other: "(s', v') \<noteq> (s, v) \<Longrightarrow> get (register r s v n) s' v' = get r s' v'"
begin

lemma get_register_all:
  "get (fold (\<lambda>((s, v), n) r. register r s v n) es r) s v =
     (case map_of (rev es) (s, v) of None \<Rightarrow> get r s v | Some n \<Rightarrow> Inr n)"
proof (induction es arbitrary: r rule: rev_induct)
  case Nil
  then show ?case by simp
next
  case (snoc e es)
  obtain s' v' n where e: "e = ((s', v'), n)" by (metis prod.exhaust)
  show ?case
    using snoc.IH [of r] get_other [of s v s' v'] by (cases "(s, v) = (s', v')") (auto simp: e get_same)
qed

lemma get_from_new:
  "get (fold (\<lambda>((s, v), n) r. register r s v n) es new) s v = Inr n \<longleftrightarrow>
     map_of (rev es) (s, v) = Some n"
  using get_register_all [of es new s v] get_new [of s v] by (auto split: option.splits)

end

interpretation code_registry: versioned_registry NewRegistry Registry_Register Registry_Get
  by unfold_locales
    (auto simp: NewRegistry_def Registry_Get_def Registry_Register_def update_conv'
      registry_key_inject)

text \<open>
  A registry filled by any sequence of registrations answers a lookup with the normalizer of
  the last registration for that very source and version, and with an error when there is none:
  the string keys \<open>source:version\<close> never confuse two pairs.
\<close>

theorem Registry_Get_last_registration:
  "Registry_Get (fold (\<lambda>((s, v), n) r. Registry_Register r s v n) es NewRegistry) source version
     = Inr n \<longleftrightarrow> map_of (rev es) (source, version) = Some n"
  by (rule code_registry.get_from_new)

end
