(* ===== verification/Amounts.thy ===== *)
theory Amounts
  imports Normalize
begin

text \<open>
  \<open>formatAmount\<close> of \<open>internal/intake/server.go\<close>, the inverse of \<open>parseAmount\<close>: the intake server
  prints the amount of a request into the raw payload, the normalizer parses it again.
\<close>

definition formatAmount :: "int64 \<Rightarrow> string" where
  "formatAmount minorUnits =
     (let negative = sint minorUnits < 0;
          sign = (if negative then ''-'' else []);
          value = (if negative then - minorUnits else minorUnits);
          major = int64_quot value 100;
          minor = int64_rem value 100
      in sign @ show_int (sint major) @ ''.'' @ pad2 (sint minor))"

text \<open>\<open>-value\<close> wraps at the smallest number, and is exact everywhere else.\<close>

lemma sint_minus_int64:
  "sint (- x :: int64) = (if sint x = min_int64 then min_int64 else - sint x)"
proof (cases "sint x = min_int64")
  case True
  then have "x = word_of_int min_int64" 
    by (intro int64_eqI) (simp add: sint_of_int64 int64_bounds)
  then show ?thesis by (simp add: min_int64_def)
next
  case False
  then have "in_int64 (- sint x)" using sint_int64_range [of x] by (simp add: int64_bounds)
  moreover have "- x = word_of_int (- sint x)" by simp
  ultimately show ?thesis using False by (simp only: sint_of_int64 if_False)
qed

lemma pad2_digit: "0 \<le> m \<Longrightarrow> m < 10 \<Longrightarrow> pad2 m = CHR ''0'' # show_nat (nat m) \<and> length (pad2 m) = 2"
  by (simp add: pad2_def show_int_def show_nat.simps)

lemma pad2_two: "10 \<le> m \<Longrightarrow> m < 100 \<Longrightarrow> pad2 m = show_nat (nat m) \<and> length (pad2 m) = 2"
proof -
  assume "10 \<le> m" "m < 100"
  then have "\<not> nat m < 10" "nat m div 10 < 10" by auto
  then show ?thesis
    using \<open>10 \<le> m\<close> by (simp add: pad2_def show_int_def show_nat.simps [of "nat m"] show_nat.simps [of "nat m div 10"])
qed

lemma pad2_parse:
  assumes "0 \<le> m \<and> m < 100 \<or> m = - 8"
  shows "length (pad2 m) = 2" "ParseInt (pad2 m) = Inr (word_of_int m)"
    "\<forall>c \<in> set (pad2 m). is_digit c \<or> c = CHR ''-''"
proof -
  have len: "length (pad2 m) = 2 \<and> ParseInt (pad2 m) = Inr (word_of_int m) \<and>
      (\<forall>c \<in> set (pad2 m). is_digit c \<or> c = CHR ''-'')"
  proof (cases "m = - 8")
    case True
    then have "pad2 m = show_int (- 8)" by (simp add: pad2_def show_int_def show_nat.simps)
    moreover have "length (show_int (- 8)) = 2" by (simp add: show_int_def show_nat.simps)
    ultimately show ?thesis
      using True ParseInt_show_int [of "- 8"] show_int_chars by (auto simp: int64_bounds)
  next
    case False
    show ?thesis
    proof (cases "m < 10")
      case True
      with False assms have p: "pad2 m = CHR ''0'' # show_nat (nat m)" "length (pad2 m) = 2"
        using pad2_digit [of m] by auto
      have "ParseInt (CHR ''0'' # show_nat (nat m)) = Inr (of_nat (dec_value (CHR ''0'' # show_nat (nat m))))"
        using True show_nat_digits by (intro ParseInt_digits) (auto simp: is_digit_def digit_val_def)
      with p False assms show ?thesis using show_nat_digits [of "nat m"]
        by (auto simp: is_digit_def digit_val_def)
    next
      case big: False
      with False assms have p: "pad2 m = show_nat (nat m)" "length (pad2 m) = 2"
        using pad2_two [of m] by auto
      have "ParseInt (show_nat (nat m)) = Inr (of_nat (dec_value (show_nat (nat m))))"
        using big False assms show_nat_digits by (intro ParseInt_digits) auto
      with p big show ?thesis using show_nat_digits [of "nat m"] by auto
    qed
  qed
  then show "length (pad2 m) = 2" "ParseInt (pad2 m) = Inr (word_of_int m)"
    "\<forall>c \<in> set (pad2 m). is_digit c \<or> c = CHR ''-''" by blast+
qed

text \<open>Quotient and remainder of the magnitude, also at the number whose negation wraps.\<close>

lemma magnitude_parts:
  fixes x :: int64
  defines "v \<equiv> (if sint x < 0 then - x else x)"
  shows "sint (int64_quot v 100) * 100 + sint (int64_rem v 100) = sint v"
    and "0 \<le> sint (int64_rem v 100) \<and> sint (int64_rem v 100) < 100 \<or> sint (int64_rem v 100) = - 8"
    and "0 \<le> sint x \<Longrightarrow> 0 \<le> sint (int64_quot v 100)"
proof -
  have v: "0 \<le> sint v \<and> sint v \<le> max_int64 \<or> sint v = min_int64 \<and> sint x < 0"
    using sint_int64_range [of x] sint_minus_int64 [of x] unfolding v_def
    by (auto simp: int64_bounds)
  have hundred: "sint (100 :: int64) = 100" by simp
  have pos: "sint (int64_quot v 100) = sint v div 100 \<and> sint (int64_rem v 100) = sint v mod 100"
    if "0 \<le> sint v" "sint v \<le> max_int64"
  proof -
    have "in_int64 (sint v div 100)" "in_int64 (sint v mod 100)"
      using that by (auto simp: int64_bounds)
    then show ?thesis
      using that hundred
      by (simp add: int64_quot_def int64_rem_def signed_divide_int_def signed_modulo_int_def
          sint_of_int64 sgn_if)
  qed
  have neg: "sint (int64_quot v 100) = - 92233720368547758 \<and> sint (int64_rem v 100) = - 8"
    if "sint v = min_int64"
    using that hundred
    by (simp add: int64_quot_def int64_rem_def signed_divide_int_def signed_modulo_int_def
        min_int64_def)
  show "sint (int64_quot v 100) * 100 + sint (int64_rem v 100) = sint v"
    using v pos neg by (auto simp: min_int64_def)
  show "0 \<le> sint (int64_rem v 100) \<and> sint (int64_rem v 100) < 100 \<or> sint (int64_rem v 100) = - 8"
    using v pos neg by auto
  show "0 \<le> sint (int64_quot v 100)" if "0 \<le> sint x"
    using v pos that by auto
qed

lemma parseAmount_formatAmount: "parseAmount (formatAmount x) = Inr x"
proof -
  define v where "v = (if sint x < 0 then - x else x)"
  define M where "M = sint (int64_quot v 100)"
  define m where "m = sint (int64_rem v 100)"
  note parts = magnitude_parts [of x, folded v_def, folded M_def m_def]
  let ?sign = "if sint x < 0 then ''-'' else []"
  let ?body = "show_int M @ CHR ''.'' # pad2 m"
  have fmt: "formatAmount x = ?sign @ ?body"
    by (simp add: formatAmount_def Let_def v_def M_def m_def)
  have chars: "\<forall>c \<in> set ?body. is_digit c \<or> c = CHR ''-'' \<or> c = CHR ''.''"
    using show_int_chars pad2_parse(3) [OF parts(2)] by auto
  have trim: "TrimSpace (formatAmount x) = formatAmount x"
    unfolding fmt using chars by (intro TrimSpace_digits) auto
  have head: "starts_with (formatAmount x) ''-'' \<longleftrightarrow> sint x < 0"
  proof (cases "sint x < 0")
    case False
    then have "0 \<le> M" using parts(3) by simp
    then have "show_int M = show_nat (nat M)" by (simp add: show_int_def)
    moreover obtain c cs where "show_nat (nat M) = c # cs" by (cases "show_nat (nat M)") auto
    moreover have "is_digit c" using show_nat_digits [of "nat M"] calculation(2) by simp
    ultimately show ?thesis using False digit_not_sign [of c] by (simp add: fmt starts_with_def)
  qed (simp add: fmt starts_with_def)
  have body: "(if sint x < 0 then drop 1 (formatAmount x) else formatAmount x) = ?body"
    by (simp add: fmt)
  have nodot: "CHR ''.'' \<notin> set (show_int M)" "CHR ''.'' \<notin> set (pad2 m)"
    using show_int_chars [of "CHR ''.''" M] pad2_parse(3) [OF parts(2)] digit_not_sign by auto
  have split: "split_on (CHR ''.'') ?body = [show_int M, pad2 m]"
    using nodot by (simp add: split_on_sep split_on_plain)
  have M: "show_int M \<noteq> []" "ParseInt (show_int M) = Inr (word_of_int M)"
    using sint_int64_range ParseInt_show_int by (auto simp: show_int_def M_def)
  have pad: "pad_minor (pad2 m) = pad2 m"
    using pad2_parse(1) [OF parts(2)] by (simp add: pad_minor_eq)
  have total: "word_of_int M * 100 + word_of_int m = v"
  proof -
    have "word_of_int M * 100 + word_of_int m = (word_of_int (M * 100 + m) :: int64)" by simp
    then show ?thesis using parts(1) by simp
  qed
  have "formatAmount x \<noteq> []" by (simp add: fmt)
  then show ?thesis
    unfolding parseAmount_def Let_def trim head body split
    using M pad pad2_parse(1,2) [OF parts(2)] total by (simp add: v_def)
qed

text \<open>
  C25. Printing an amount and parsing it again gives the same 64 bit number, for every amount: also for
  negative ones and for the smallest one, whose sign change wraps around.
\<close>

theorem amount_roundtrip: "parseAmount (formatAmount x) = Inr x"
  by (rule parseAmount_formatAmount)

end
