(* ===== verification/Validate.thy ===== *)
theory Validate
  imports Redis
begin

text \<open>
  \<open>internal/validate\<close>: the field level checks of \<open>DefaultValidator\<close> and the account status check
  of \<open>AccountValidator\<close>, with the cache adapter of \<open>redis_client.go\<close>.

  The go-redis client is not part of the repository: \<open>RedisAdapter_Get\<close> takes its \<open>Get\<close> command as
  an argument, which answers with a value, \<open>redis.Nil\<close> or another error.
\<close>

section \<open>Field level checks\<close>

datatype validation_error =
    CurrencyRequired
  | AmountNotPositive
  | CardNumberRequired
  | UpiIdRequired
  | AccountIdRequired
  | RedisNotConfigured
  | AccountLookup string goerr
  | AccountInactive string
  | InvalidAccountStatus string string

text \<open>\<open>Validator\<close> and \<open>RedisClient\<close>, the interfaces, by their only methods.\<close>

type_synonym validator = "transaction \<Rightarrow> validation_error option"
type_synonym redis_getter = "string \<Rightarrow> goerr + string"

definition metadata_blank :: "transaction \<Rightarrow> string \<Rightarrow> bool" where
  "metadata_blank t k =
     (case Metadata t of None \<Rightarrow> False | Some m \<Rightarrow> TrimSpace (gget m k) = [])"

definition DefaultValidator_Validate :: validator where
  "DefaultValidator_Validate t =
     (if TrimSpace (Currency (Amount t)) = [] then Some CurrencyRequired
      else if sint (MinorUnits (Amount t)) \<le> 0 then Some AmountNotPositive
      else if Source t = SourceCard then
        (if metadata_blank t ''card_number'' then Some CardNumberRequired else None)
      else if Source t = SourceUPI then
        (if metadata_blank t ''upi_id'' then Some UpiIdRequired else None)
      else None)"

section \<open>The account status cache\<close>

definition RedisAdapter_Get :: "(string \<Rightarrow> redis_reply) \<Rightarrow> redis_getter" where
  "RedisAdapter_Get client_get key =
     (case client_get key of
        RedisNil \<Rightarrow> Inl (Plain (''cache miss for '' @ key))
      | RedisError e \<Rightarrow> Inl e
      | Value v \<Rightarrow> Inr v)"

definition accountActiveKey :: "string \<Rightarrow> string" where
  "accountActiveKey accountID = ''account:active:'' @ accountID"

text \<open>A nil \<open>redisClient\<close> is \<open>None\<close>.\<close>

definition AccountValidator_Validate :: "redis_getter option \<Rightarrow> validator" where
  "AccountValidator_Validate redisClient t =
     (if TrimSpace (AccountID t) = [] then Some AccountIdRequired
      else case redisClient of
        None \<Rightarrow> Some RedisNotConfigured
      | Some get \<Rightarrow>
          (case get (accountActiveKey (AccountID t)) of
             Inl err \<Rightarrow> Some (AccountLookup (AccountID t) err)
           | Inr value \<Rightarrow>
               let status = ToLower (TrimSpace value) in
               if status \<in> {''1'', ''true'', ''active'', ''enabled''} then None
               else if status \<in> {''0'', ''false'', ''inactive'', ''disabled''}
                 then Some (AccountInactive (AccountID t))
               else Some (InvalidAccountStatus value (AccountID t))))"

section \<open>What is accepted\<close>

text \<open>
  A transaction passes the field level checks exactly when its currency is not blank, its
  amount is positive as a signed number, and it carries no metadata in which a card payment's card
  number, or a UPI payment's UPI id, is missing or blank.
\<close>

theorem DefaultValidator_accepts:
  "DefaultValidator_Validate t = None \<longleftrightarrow>
     TrimSpace (Currency (Amount t)) \<noteq> [] \<and> 0 < sint (MinorUnits (Amount t)) \<and>
     (\<nexists>m. Metadata t = Some m \<and>
        (Source t = SourceCard \<and> TrimSpace (gget m ''card_number'') = [] \<or>
         Source t = SourceUPI \<and> TrimSpace (gget m ''upi_id'') = []))"
  unfolding DefaultValidator_Validate_def metadata_blank_def
  by (auto simp: source_defs split: option.splits)

text \<open>
  The account check fails closed: without a configured cache, on a cache miss, on a cache error
  and on any value but the four active ones the payment is refused.
\<close>

lemma AccountValidator_accepts:
  "AccountValidator_Validate client t = None \<longleftrightarrow>
     TrimSpace (AccountID t) \<noteq> [] \<and>
     (\<exists>get v. client = Some get \<and> get (accountActiveKey (AccountID t)) = Inr v \<and>
        ToLower (TrimSpace v) \<in> {''1'', ''true'', ''active'', ''enabled''})"
  unfolding AccountValidator_Validate_def
  by (auto simp: Let_def split: option.splits sum.splits if_splits)

text \<open>
  With the Redis adapter as its cache, the account check accepts a payment only when the cache
  holds a value for that very account which reads, up to case and surrounding white space, as
  \<open>1\<close>, \<open>true\<close>, \<open>active\<close> or \<open>enabled\<close>; a missing key and a failed lookup are refusals.
\<close>

theorem AccountValidator_fails_closed:
  "AccountValidator_Validate (Some (RedisAdapter_Get client_get)) t = None \<longleftrightarrow>
     TrimSpace (AccountID t) \<noteq> [] \<and>
     (\<exists>v. client_get (''account:active:'' @ AccountID t) = Value v \<and>
        ToLower (TrimSpace v) \<in> {''1'', ''true'', ''active'', ''enabled''})"
  unfolding AccountValidator_accepts
  by (auto simp: RedisAdapter_Get_def accountActiveKey_def split: redis_reply.splits)

end
