(* ===== verification/Sha256.thy ===== *)
theory Sha256
  imports Go_Strings
begin

text \<open>
  \<open>sha256.Sum256\<close> and \<open>hex.EncodeToString\<close> of Go's standard library (FIPS 180-4), executable. Only
  \<open>idempotency.DeriveKey\<close> uses them.
\<close>

unbundle bit_operations_syntax

type_synonym u32 = "32 word"

definition sha_k :: "u32 list" where
  "sha_k =
    [1116352408, 1899447441, 3049323471, 3921009573, 961987163, 1508970993, 2453635748, 2870763221,
     3624381080, 310598401, 607225278, 1426881987, 1925078388, 2162078206, 2614888103, 3248222580,
     3835390401, 4022224774, 264347078, 604807628, 770255983, 1249150122, 1555081692, 1996064986,
     2554220882, 2821834349, 2952996808, 3210313671, 3336571891, 3584528711, 113926993, 338241895,
     666307205, 773529912, 1294757372, 1396182291, 1695183700, 1986661051, 2177026350, 2456956037,
     2730485921, 2820302411, 3259730800, 3345764771, 3516065817, 3600352804, 4094571909, 275423344,
     430227734, 506948616, 659060556, 883997877, 958139571, 1322822218, 1537002063, 1747873779,
     1955562222, 2024104815, 2227730452, 2361852424, 2428436474, 2756734187, 3204031479, 3329325298]"

definition sha_init :: "u32 list" where
  "sha_init =
    [1779033703, 3144134277, 1013904242, 2773480762, 1359893119, 2600822924, 528734635, 1541459225]"

definition rotr :: "nat \<Rightarrow> u32 \<Rightarrow> u32" where
  "rotr n x = (drop_bit n x OR push_bit (32 - n) x)"

definition sha_s0 :: "u32 \<Rightarrow> u32" where
  "sha_s0 x = rotr 7 x XOR rotr 18 x XOR drop_bit 3 x"

definition sha_s1 :: "u32 \<Rightarrow> u32" where
  "sha_s1 x = rotr 17 x XOR rotr 19 x XOR drop_bit 10 x"

definition sha_S0 :: "u32 \<Rightarrow> u32" where
  "sha_S0 x = rotr 2 x XOR rotr 13 x XOR rotr 22 x"

definition sha_S1 :: "u32 \<Rightarrow> u32" where
  "sha_S1 x = rotr 6 x XOR rotr 11 x XOR rotr 25 x"

text \<open>Padding to a whole number of 64 byte blocks, with the bit length in the last 8 bytes.\<close>

fun be_bytes :: "nat \<Rightarrow> int \<Rightarrow> int list" where
  "be_bytes 0 n = []"
| "be_bytes (Suc k) n = be_bytes k (n div 256) @ [n mod 256]"

definition sha_pad :: "string \<Rightarrow> int list" where
  "sha_pad s =
     (let n = length s
      in map of_char s @ [128] @ replicate ((119 - n mod 64) mod 64) 0 @ be_bytes 8 (8 * int n))"

fun sha_words :: "int list \<Rightarrow> u32 list" where
  "sha_words (a # b # c # d # bs) =
     word_of_int (((a * 256 + b) * 256 + c) * 256 + d) # sha_words bs"
| "sha_words _ = []"

text \<open>The message schedule, newest word first.\<close>

fun sha_extend :: "nat \<Rightarrow> u32 list \<Rightarrow> u32 list" where
  "sha_extend 0 ws = ws"
| "sha_extend (Suc n) ws =
     sha_extend n ((sha_s1 (ws ! 1) + ws ! 6 + sha_s0 (ws ! 14) + ws ! 15) # ws)"

fun sha_round :: "u32 list \<Rightarrow> u32 \<times> u32 \<Rightarrow> u32 list" where
  "sha_round [a, b, c, d, e, f, g, h] (k, w) =
     (let t1 = h + sha_S1 e + ((e AND f) XOR (NOT e AND g)) + k + w;
          t2 = sha_S0 a + ((a AND b) XOR (a AND c) XOR (b AND c))
      in [t1 + t2, a, b, c, d + t1, e, f, g])"
| "sha_round hs _ = hs"

definition sha_block :: "u32 list \<Rightarrow> u32 list \<Rightarrow> u32 list" where
  "sha_block hs ws =
     map2 (+) hs (foldl sha_round hs (zip sha_k (rev (sha_extend 48 (rev ws)))))"

function sha_blocks :: "u32 list \<Rightarrow> u32 list \<Rightarrow> u32 list" where
  "sha_blocks hs ws =
     (if ws = [] then hs else sha_blocks (sha_block hs (take 16 ws)) (drop 16 ws))"
  by pat_completeness auto
termination
  by (relation "measure (\<lambda>(hs, ws). length ws)") auto

declare sha_blocks.simps [simp del]

definition sha256 :: "string \<Rightarrow> int list" where
  "sha256 s =
     concat (map (\<lambda>w. be_bytes 4 (uint w)) (sha_blocks sha_init (sha_words (sha_pad s))))"

definition hex_digit :: "int \<Rightarrow> char" where
  "hex_digit n = (if n < 10 then char_of (48 + n) else char_of (87 + n))"

definition hex_encode :: "int list \<Rightarrow> string" where
  "hex_encode bs = concat (map (\<lambda>b. [hex_digit (b div 16), hex_digit (b mod 16)]) bs)"

section \<open>The shape of a digest\<close>

lemma length_sha_round [simp]: "length (sha_round hs kw) = length hs"
  by (induction hs kw rule: sha_round.induct) (simp_all add: Let_def)

lemma length_foldl_sha_round [simp]: "length (foldl sha_round hs kws) = length hs"
  by (induction kws arbitrary: hs) simp_all

lemma length_sha_blocks [simp]: "length (sha_blocks hs ws) = length hs"
proof (induction hs ws rule: sha_blocks.induct)
  case (1 hs ws)
  then show ?case by (subst sha_blocks.simps) (simp add: sha_block_def)
qed

lemma length_sha256 [simp]: "length (sha256 s) = 32"
proof -
  have four: "length (be_bytes k n) = k" for k n
    by (induction k arbitrary: n) simp_all
  have "length (concat (map (\<lambda>w. be_bytes 4 (uint (w :: u32))) ws)) = 4 * length ws" for ws
    by (induction ws) (simp_all add: four)
  then show ?thesis by (simp add: sha256_def sha_init_def)
qed

lemma length_hex_encode [simp]: "length (hex_encode bs) = 2 * length bs"
  by (induction bs) (simp_all add: hex_encode_def)

section \<open>The hexadecimal form determines the digest\<close>

lemma be_bytes_range: "b \<in> set (be_bytes k n) \<Longrightarrow> 0 \<le> b \<and> b < 256"
  by (induction k arbitrary: n) auto

lemma sha256_bytes: "b \<in> set (sha256 s) \<Longrightarrow> 0 \<le> b \<and> b < 256"
  by (auto simp: sha256_def dest: be_bytes_range)

lemma hex_digit_inject:
  assumes "0 \<le> m" "m < 16" "0 \<le> n" "n < 16" "hex_digit m = hex_digit n"
  shows "m = n"
proof -
  have code: "(of_char (hex_digit i) :: int) = (if i < 10 then 48 + i else 87 + i)"
    if "0 \<le> i" "i < 16" for i
    using that by (cases "i < 10") (simp_all add: hex_digit_def)
  have "(if m < 10 then 48 + m else 87 + m) = (if n < 10 then 48 + n else 87 + n)"
    using assms code by metis
  then show ?thesis using assms(1-4) by (cases "m < 10"; cases "n < 10") simp_all
qed

lemma hex_encode_inject:
  "\<forall>b \<in> set as. 0 \<le> b \<and> b < 256 \<Longrightarrow> \<forall>b \<in> set bs. 0 \<le> b \<and> b < 256 \<Longrightarrow>
   hex_encode as = hex_encode bs \<Longrightarrow> as = bs"
proof (induction as arbitrary: bs)
  case Nil
  then show ?case by (cases bs) (simp_all add: hex_encode_def)
next
  case (Cons a as)
  then obtain b bs' where bs: "bs = b # bs'"
    by (cases bs) (simp_all add: hex_encode_def)
  with Cons.prems have "hex_digit (a div 16) = hex_digit (b div 16)"
    "hex_digit (a mod 16) = hex_digit (b mod 16)" "hex_encode as = hex_encode bs'"
    by (simp_all add: hex_encode_def)
  with Cons.prems bs have "a div 16 = b div 16" "a mod 16 = b mod 16"
    by (auto intro!: hex_digit_inject)
  then have "a = b" by (metis mult_div_mod_eq)
  with bs Cons.IH [of bs'] Cons.prems \<open>hex_encode as = hex_encode bs'\<close> show ?case by simp
qed

end
