(* ===== verification/Idempotency.thy ===== *)
theory Idempotency
  imports Redis Sha256
begin

text \<open>
  \<open>internal/idempotency/store.go\<close>: \<open>DeriveKey\<close> and the Redis backed \<open>Claim\<close>.

  The locale \<open>idempotency_store\<close> is the contract of the \<open>Store\<close> interface; every server that meets
  the Redis laws makes \<open>redisStore_Claim\<close> meet it (\<open>sublocale\<close>), and the in memory server gives an
  instance.
\<close>

section \<open>The key of a submission\<close>

definition derived_preimage :: "transaction \<Rightarrow> string" where
  "derived_preimage tx =
     Source tx @ ''|'' @ ExternalTxnID tx @ ''|'' @ AccountID tx @ ''|'' @
     show_int (sint (MinorUnits (Amount tx))) @ ''|'' @ Currency (Amount tx)"

definition DeriveKey :: "transaction \<Rightarrow> string" where
  "DeriveKey tx =
     (if IdempotencyKey tx \<noteq> [] then IdempotencyKey tx
      else ''derived:'' @ hex_encode (sha256 (derived_preimage tx)))"

section \<open>Claiming a key\<close>

text \<open>\<open>time.Duration(s.ttlSeconds)*time.Second\<close>, in 64 bit arithmetic.\<close>

definition ttl_duration :: "int64 \<Rightarrow> int64" where
  "ttl_duration ttlSeconds = ttlSeconds * 1000000000"

definition redisStore_Claim ::
  "'s redis_client \<Rightarrow> int64 \<Rightarrow> 's \<Rightarrow> string \<Rightarrow> string \<Rightarrow> (goerr + bool \<times> string) \<times> 's" where
  "redisStore_Claim client ttlSeconds s key paymentID =
     (case SetNX client s key paymentID (ttl_duration ttlSeconds) of
        (Inl err, s1) \<Rightarrow> (Inl err, s1)
      | (Inr True, s1) \<Rightarrow> (Inr (True, []), s1)
      | (Inr False, s1) \<Rightarrow>
          (case GetKey client s1 key of
             (Value existing, s2) \<Rightarrow> (Inr (False, existing), s2)
           | (RedisNil, s2) \<Rightarrow> (Inl (Plain ''redis: nil''), s2)
           | (RedisError err, s2) \<Rightarrow> (Inl err, s2)))"

text \<open>\<open>Store\<close>, the interface the server sees, and its Redis implementation.\<close>

type_synonym 's claimer = "'s \<Rightarrow> string \<Rightarrow> string \<Rightarrow> (goerr + bool \<times> string) \<times> 's"

definition NewRedisStore :: "'s redis_client \<Rightarrow> int64 \<Rightarrow> 's claimer" where
  "NewRedisStore redisClient ttlSeconds = redisStore_Claim redisClient ttlSeconds"

text \<open>
  A run of claims, with the key, the payment and the answer of each, in order.
\<close>

fun claim_run ::
  "('s \<Rightarrow> string \<Rightarrow> string \<Rightarrow> (goerr + bool \<times> string) \<times> 's) \<Rightarrow> 's \<Rightarrow> (string \<times> string) list \<Rightarrow>
   (string \<times> string \<times> (goerr + bool \<times> string)) list" where
  "claim_run claim s [] = []"
| "claim_run claim s ((k, p) # ks) =
     (case claim s k p of (r, s') \<Rightarrow> (k, p, r) # claim_run claim s' ks)"

section \<open>The contract of an idempotency store\<close>

locale idempotency_store =
  fixes claim :: "'s \<Rightarrow> string \<Rightarrow> string \<Rightarrow> (goerr + bool \<times> string) \<times> 's"
    and holder :: "'s \<Rightarrow> string \<Rightarrow> string option"
  assumes claim_won: "claim s k p = (Inr (True, e), s') \<Longrightarrow>
      holder s k = None \<and> holder s' k = Some p"
    and claim_lost: "claim s k p = (Inr (False, e), s') \<Longrightarrow>
      holder s k = Some e \<and> holder s' k = Some e"
    and claim_other: "k' \<noteq> k \<Longrightarrow> holder (snd (claim s k p)) k' = holder s k'"
    and claim_failed: "claim s k p = (Inl err, s') \<Longrightarrow> holder s k = Some e \<Longrightarrow> holder s' k = Some e"
begin

lemma holder_stays:
  assumes "holder s k = Some e"
  shows "holder (snd (claim s k' p)) k = Some e"
proof (cases "k' = k")
  case False
  with assms show ?thesis by (simp add: claim_other)
next
  case True
  obtain r s' where c: "claim s k p = (r, s')" by (cases "claim s k p")
  have "holder s' k = Some e"
  proof (cases r)
    case (Inl err)
    with c assms show ?thesis by (metis claim_failed)
  next
    case (Inr be)
    obtain b x where be: "be = (b, x)" by (cases be)
    show ?thesis
    proof (cases b)
      case True
      with c Inr be have "holder s k = None" by (auto dest: claim_won)
      with assms show ?thesis by simp
    next
      case False
      with c Inr be have "holder s k = Some x \<and> holder s' k = Some x"
        by (auto dest: claim_lost)
      with assms show ?thesis by simp
    qed
  qed
  with True c show ?thesis by simp
qed

lemma taken_key_answers:
  assumes "holder s k = Some e" "claim s k p = (Inr (b, x), s')"
  shows "\<not> b \<and> x = e"
  using assms by (cases b) (auto dest: claim_won claim_lost)

lemma run_taken:
  assumes "holder s k = Some e" "(k, p, Inr (b, x)) \<in> set (claim_run claim s ks)"
  shows "\<not> b \<and> x = e"
  using assms
proof (induction ks arbitrary: s)
  case Nil
  then show ?case by simp
next
  case (Cons kp ks)
  obtain k' p' where kp: "kp = (k', p')" by (cases kp)
  obtain r s' where c: "claim s k' p' = (r, s')" by (cases "claim s k' p'")
  have stays: "holder s' k = Some e"
    using holder_stays [OF Cons.prems(1), of k' p'] c by simp
  from Cons.prems(2) kp c consider "k' = k" "r = Inr (b, x)"
    | "(k, p, Inr (b, x)) \<in> set (claim_run claim s' ks)" by auto
  then show ?case
    by cases (use taken_key_answers Cons.prems(1) c Cons.IH stays in \<open>metis+\<close>)
qed

lemma run_one_winner:
  assumes "claim_run claim s ks = pre @ (k, p, Inr (True, y)) # post"
    and "(k, p', Inr (b, x)) \<in> set post"
  shows "\<not> b \<and> x = p"
  using assms
proof (induction ks arbitrary: s pre)
  case Nil
  then show ?case by simp
next
  case (Cons kp ks)
  obtain k' p'' where kp: "kp = (k', p'')" by (cases kp)
  obtain r s' where c: "claim s k' p'' = (r, s')" by (cases "claim s k' p''")
  show ?case
  proof (cases pre)
    case Nil
    with Cons.prems kp c have eq: "k' = k" "p'' = p" "r = Inr (True, y)"
      and post: "claim_run claim s' ks = post" by auto
    with c have "holder s' k = Some p" by (auto dest: claim_won)
    with post Cons.prems(2) show ?thesis by (auto dest: run_taken)
  next
    case (Cons a pre')
    with Cons.prems kp c have "claim_run claim s' ks = pre' @ (k, p, Inr (True, y)) # post"
      by simp
    then show ?thesis using Cons.prems(2) by (rule Cons.IH)
  qed
qed

end

section \<open>The Redis backed store meets the contract\<close>

locale redis_idempotency = redis_server client live
  for client :: "'s redis_client" and live :: "'s \<Rightarrow> string \<Rightarrow> string option" +
  fixes ttlSeconds :: int64
begin

lemma Claim_won:
  "redisStore_Claim client ttlSeconds s k p = (Inr (True, e), s') \<Longrightarrow>
   live s k = None \<and> live s' k = Some p"
  unfolding redisStore_Claim_def
  by (auto split: prod.splits sum.splits bool.splits redis_reply.splits dest: setnx_won)

lemma Claim_lost:
  assumes "redisStore_Claim client ttlSeconds s k p = (Inr (False, e), s')"
  shows "live s k = Some e \<and> live s' k = Some e"
proof -
  from assms obtain s1 where set: "SetNX client s k p (ttl_duration ttlSeconds) = (Inr False, s1)"
    and get: "GetKey client s1 k = (Value e, s')"
    unfolding redisStore_Claim_def
    by (auto split: prod.splits sum.splits bool.splits redis_reply.splits)
  from get have "live s1 k = Some e" by (rule get_value)
  moreover have "live s' = live s1" using get_keeps [of s1 k] get by simp
  moreover have "live s k = live s1 k"
    using setnx_lost [OF set] setnx_keeps [of s k _ p "ttl_duration ttlSeconds"] set by auto
  ultimately show ?thesis by simp
qed

lemma Claim_live:
  "live (snd (redisStore_Claim client ttlSeconds s k p)) =
   live (snd (SetNX client s k p (ttl_duration ttlSeconds)))"
  unfolding redisStore_Claim_def
  by (auto split: prod.splits sum.splits bool.splits redis_reply.splits)
    (metis get_keeps snd_conv)+

end

sublocale redis_idempotency < idem: idempotency_store "redisStore_Claim client ttlSeconds" live
proof
  show "live s k = None \<and> live s' k = Some p"
    if "redisStore_Claim client ttlSeconds s k p = (Inr (True, e), s')" for s k p e s'
    using that by (rule Claim_won)
  show "live s k = Some e \<and> live s' k = Some e"
    if "redisStore_Claim client ttlSeconds s k p = (Inr (False, e), s')" for s k p e s'
    using that by (rule Claim_lost)
  show "live (snd (redisStore_Claim client ttlSeconds s k p)) k' = live s k'" if "k' \<noteq> k"
    for s k p k'
    using that by (simp add: Claim_live setnx_other)
  show "live s' k = Some e"
    if "redisStore_Claim client ttlSeconds s k p = (Inl err, s')" "live s k = Some e"
    for s k p err s' e
    using that Claim_live [of s k p] setnx_keeps [of s k e] by simp
qed

context redis_idempotency
begin

lemmas Claim_run_one_winner = idem.run_one_winner
lemmas Claim_holder_stays = idem.holder_stays

end

interpretation memory_idem: redis_idempotency memory_redis entry_live 300
  by unfold_locales

text \<open>
  C27. On any server with the documented behaviour of \<open>SET NX\<close> and \<open>GET\<close>, among any sequence of
  claims made before the key expires, with whatever errors in between, at most one caller wins a
  key: every later answer for it says that the key is taken and names the winner's payment.
\<close>

theorem Claim_one_winner:
  assumes "redis_server client live"
    and "claim_run (redisStore_Claim client ttl) s ks = pre @ (k, p, Inr (True, y)) # post"
    and "(k, p', Inr (b, x)) \<in> set post"
  shows "\<not> b \<and> x = p"
proof -
  from assms(1) have "redis_idempotency client live" by (rule redis_idempotency.intro)
  then show ?thesis using assms(2,3) by (rule redis_idempotency.Claim_run_one_winner)
qed

theorem Claim_one_winner_witness:
  "claim_run (redisStore_Claim memory_redis 300) empty_redis
     [(''k'', ''p1''), (''q'', ''p2''), (''k'', ''p3'')] =
     [(''k'', ''p1'', Inr (True, [])), (''q'', ''p2'', Inr (True, [])),
      (''k'', ''p3'', Inr (False, ''p1''))] \<and>
   \<not> False \<and> ''p1'' = ''p1''"
proof -
  let ?s = "claim_run (redisStore_Claim memory_redis 300) empty_redis
     [(''k'', ''p1''), (''q'', ''p2''), (''k'', ''p3'')]"
  have run: "?s = [] @ (''k'', ''p1'', Inr (True, [])) #
     [(''q'', ''p2'', Inr (True, [])), (''k'', ''p3'', Inr (False, ''p1''))]"
    by (simp add: redisStore_Claim_def memory_redis_def memory_setnx_def memory_get_def
        entry_live_def empty_redis_def ttl_duration_def)
  have "\<not> False \<and> ''p1'' = ''p1''"
    by (rule Claim_one_winner [OF memory.redis_server_axioms run]) simp
  with run show ?thesis by simp
qed

text \<open>
  What may happen to Redis between two looks at a key while its entry is kept: claims of any key by any
  process, and anything else that leaves the value a reader finds under the key as it is, such as other commands or
  the passing of less time than the entry has left to live.
\<close>

inductive key_kept ::
  "'s redis_client \<Rightarrow> ('s \<Rightarrow> string \<Rightarrow> string option) \<Rightarrow> string \<Rightarrow> 's \<Rightarrow> 's \<Rightarrow> bool"
  for client :: "'s redis_client" and live :: "'s \<Rightarrow> string \<Rightarrow> string option" and k :: string
where
  same: "key_kept client live k s s"
| claimed: "key_kept client live k s s1 \<Longrightarrow> redisStore_Claim client ttl s1 k' p = (r, s2) \<Longrightarrow> key_kept client live k s s2"
| untouched: "key_kept client live k s s1 \<Longrightarrow> live s2 k = live s1 k \<Longrightarrow> key_kept client live k s s2"

lemma key_kept_live:
  assumes "redis_server client live" "key_kept client live k s s'" "live s k = Some e"
  shows "live s' k = Some e"
  using assms(2,3)
proof (induction rule: key_kept.induct)
  case (claimed s s1 ttl k' p r s2)
  from assms(1) have "redis_idempotency client live" by (rule redis_idempotency.intro)
  from redis_idempotency.Claim_holder_stays [OF this, of s1 k e ttl k' p] claimed show ?case by simp
qed simp_all

section \<open>What a derived key identifies\<close>

definition plain_fields :: "transaction \<Rightarrow> bool" where
  "plain_fields t \<longleftrightarrow>
     (\<forall>f \<in> {Source t, ExternalTxnID t, AccountID t, Currency (Amount t)}. CHR ''|'' \<notin> set f)"

lemma split_preimage:
  assumes "plain_fields t"
  shows "split_on (CHR ''|'') (derived_preimage t) =
    [Source t, ExternalTxnID t, AccountID t, show_int (sint (MinorUnits (Amount t))),
     Currency (Amount t)]"
proof -
  have "CHR ''|'' \<notin> set (show_int i)" for i
    using show_int_chars [of "CHR ''|''" i] by (auto simp: is_digit_def digit_val_def)
  with assms show ?thesis
    by (simp add: plain_fields_def derived_preimage_def split_on_sep split_on_plain)
qed

text \<open>
  When the client sends no key, two submissions whose text fields contain no \<open>|\<close> get the same
  derived key only if source, external id, account, amount and currency all agree, unless SHA-256
  collides on the two texts that are hashed.
\<close>

theorem DeriveKey_identifies:
  assumes "IdempotencyKey t = []" "IdempotencyKey u = []"
    and "plain_fields t" "plain_fields u"
    and no_collision: "sha256 (derived_preimage t) = sha256 (derived_preimage u) \<Longrightarrow>
      derived_preimage t = derived_preimage u"
    and same: "DeriveKey t = DeriveKey u"
  shows "Source t = Source u \<and> ExternalTxnID t = ExternalTxnID u \<and> AccountID t = AccountID u \<and>
    MinorUnits (Amount t) = MinorUnits (Amount u) \<and> Currency (Amount t) = Currency (Amount u)"
proof -
  have "hex_encode (sha256 (derived_preimage t)) = hex_encode (sha256 (derived_preimage u))"
    using assms(1,2) same by (simp add: DeriveKey_def)
  then have "sha256 (derived_preimage t) = sha256 (derived_preimage u)"
    by (intro hex_encode_inject) (auto dest: sha256_bytes)
  then have "derived_preimage t = derived_preimage u" by (rule no_collision)
  then have "[Source t, ExternalTxnID t, AccountID t, show_int (sint (MinorUnits (Amount t))),
      Currency (Amount t)] =
    [Source u, ExternalTxnID u, AccountID u, show_int (sint (MinorUnits (Amount u))),
      Currency (Amount u)]"
    using assms(3,4) by (metis split_preimage)
  then show ?thesis by (auto dest!: show_int_inject int64_eqI)
qed

definition sample_payment :: "string \<Rightarrow> string \<Rightarrow> string \<Rightarrow> transaction" where
  "sample_payment pid ext acct =
     \<lparr>PaymentID = pid, IdempotencyKey = [], Source = SourceCard, ExternalTxnID = ext,
      AccountID = acct, Amount = \<lparr>MinorUnits = 2500, Currency = ''USD''\<rparr>, State = StateReceived,
      SchemaVersion = 1, Metadata = None, CreatedAt = zero_time, UpdatedAt = zero_time\<rparr>"

theorem DeriveKey_identifies_witness:
  "DeriveKey (sample_payment ''p1'' ''ext'' ''acct'') = DeriveKey (sample_payment ''p2'' ''ext'' ''acct'') \<and>
   AccountID (sample_payment ''p1'' ''ext'' ''acct'') = AccountID (sample_payment ''p2'' ''ext'' ''acct'')"
proof -
  let ?t = "sample_payment ''p1'' ''ext'' ''acct''" and ?u = "sample_payment ''p2'' ''ext'' ''acct''"
  have pre: "derived_preimage ?t = derived_preimage ?u"
    by (simp add: derived_preimage_def sample_payment_def)
  then have same: "DeriveKey ?t = DeriveKey ?u"
    by (simp add: DeriveKey_def sample_payment_def)
  have "plain_fields ?t" "plain_fields ?u"
    by (simp_all add: plain_fields_def sample_payment_def source_defs)
  with DeriveKey_identifies [of ?t ?u] pre same show ?thesis
    by (simp add: sample_payment_def)
qed

text \<open>
  The separator is not escaped: moving it between two fields gives another payment the same key.
\<close>

lemma DeriveKey_ambiguous:
  "DeriveKey (sample_payment ''p1'' ''a|b'' ''c'') = DeriveKey (sample_payment ''p2'' ''a'' ''b|c'')"
  by (simp add: DeriveKey_def derived_preimage_def sample_payment_def)

end
