(* ===== verification/Intake.thy ===== *)
theory Intake
  imports Amounts Validate Idempotency Store
begin

text \<open>
  \<open>internal/intake/server.go\<close> and the wiring of \<open>cmd/intake/main.go\<close>: the gRPC entry point.

  \<^item> \<open>SubmitPayment\<close> works on the world of the store and on the state of the idempotency store. The
    collaborators of \<open>Server\<close> are fields of \<open>server\<close>; a nil interface is \<open>None\<close>.
  \<^item> \<open>stamp\<close> is what one call draws from outside: the two UUIDs and the clock.
  \<^item> Requests and responses are the messages of \<open>api/proto\<close>; the metadata map is a list of members,
    without repeated keys, in the order of the iteration.
\<close>

section \<open>Messages\<close>

datatype payment_source =
    SOURCE_UNSPECIFIED | SOURCE_CARD | SOURCE_UPI | SOURCE_BANK_TRANSFER | SOURCE_WALLET
  | SOURCE_OTHER int

datatype payment_state =
    STATE_UNSPECIFIED | STATE_RECEIVED | STATE_VALIDATED | STATE_AUTHORIZED | STATE_CAPTURED
  | STATE_SETTLED | STATE_RECONCILED | STATE_FAILED

record request =
  rq_idempotency_key :: string
  rq_source :: payment_source
  rq_external_txn_id :: string
  rq_account_id :: string
  rq_amount :: "money option"
  rq_schema_version :: uint32
  rq_metadata :: gomap

record response =
  rs_payment_id :: string
  rs_state :: payment_state
  rs_deduplicated :: bool
  rs_received_at :: time

datatype intake_error =
    NotConfigured string
  | UnsupportedSource payment_source
  | NoNormalizer goerr
  | NormalizeFailed norm_error
  | ClaimFailed goerr
  | ValidationFailed validation_error
  | MarshalFailed goerr
  | SaveFailed goerr

record stamp =
  st_payment_id :: string
  st_event_id :: string
  st_now :: time

record 's server =
  sv_Normalizers :: "normalizer registry option"
  sv_Validator :: "validator option"
  sv_Idem :: "'s claimer option"
  sv_SaveWithOutbox :: "(transaction \<Rightarrow> payload \<Rightarrow> world \<Rightarrow> goerr option \<times> world) option"

section \<open>The operation\<close>

definition raw_payload :: "stamp \<Rightarrow> request \<Rightarrow> gomap" where
  "raw_payload st req =
     (let raw = [(''payment_id'', st_payment_id st),
                 (''idempotency_key'', rq_idempotency_key req),
                 (''account_id'', rq_account_id req),
                 (''external_txn_id'', rq_external_txn_id req),
                 (''currency'', case rq_amount req of None \<Rightarrow> [] | Some m \<Rightarrow> Currency m),
                 (''state'', StateReceived)];
          raw = (case rq_amount req of
                   None \<Rightarrow> raw
                 | Some m \<Rightarrow> gput raw ''amount'' (formatAmount (MinorUnits m)))
      in gput_all raw (rq_metadata req))"

fun source_of :: "payment_source \<Rightarrow> string option" where
  "source_of SOURCE_CARD = Some SourceCard"
| "source_of SOURCE_UPI = Some SourceUPI"
| "source_of SOURCE_BANK_TRANSFER = Some SourceBankTransfer"
| "source_of SOURCE_WALLET = Some SourceWallet"
| "source_of _ = None"

text \<open>\<open>int32(req.GetSchemaVersion())\<close>\<close>

definition to_int32 :: "uint32 \<Rightarrow> int" where
  "to_int32 v = sint v"

definition SubmitPayment ::
  "codec \<Rightarrow> 's server \<Rightarrow> stamp \<Rightarrow> request \<Rightarrow> world \<times> 's \<Rightarrow>
   (intake_error + response) \<times> (world \<times> 's)" where
  "SubmitPayment c sv st req ws =
     (case (sv_Normalizers sv, sv_SaveWithOutbox sv, sv_Idem sv) of
        (None, _, _) \<Rightarrow> (Inl (NotConfigured ''normalizers not configured''), ws)
      | (_, None, _) \<Rightarrow> (Inl (NotConfigured ''store not configured''), ws)
      | (_, _, None) \<Rightarrow> (Inl (NotConfigured ''idempotency store not configured''), ws)
      | (Some normalizers, Some save, Some claim) \<Rightarrow>
          (let raw = raw_payload st req
           in case source_of (rq_source req) of
                None \<Rightarrow> (Inl (UnsupportedSource (rq_source req)), ws)
              | Some source \<Rightarrow>
                  (case Registry_Get normalizers source (to_int32 (rq_schema_version req)) of
                     Inl err \<Rightarrow> (Inl (NoNormalizer err), ws)
                   | Inr normalizer \<Rightarrow>
                       (case normalizer raw of
                          Inl err \<Rightarrow> (Inl (NormalizeFailed err), ws)
                        | Inr t \<Rightarrow>
                            (case claim (snd ws) (DeriveKey t) (PaymentID t) of
                               (Inl err, s1) \<Rightarrow> (Inl (ClaimFailed err), (fst ws, s1))
                             | (Inr (False, existing), s1) \<Rightarrow>
                                 (Inr \<lparr>rs_payment_id = existing, rs_state = STATE_RECEIVED,
                                       rs_deduplicated = True, rs_received_at = st_now st\<rparr>,
                                  (fst ws, s1))
                             | (Inr (True, _), s1) \<Rightarrow>
                                 (case (case sv_Validator sv of None \<Rightarrow> None | Some validate \<Rightarrow> validate t) of
                                    Some err \<Rightarrow> (Inl (ValidationFailed err), (fst ws, s1))
                                  | None \<Rightarrow>
                                      let t = t\<lparr>State := StateValidated, CreatedAt := st_now st,
                                                UpdatedAt := st_now st\<rparr>
                                      in (case MarshalEvent c (NewPaymentReceivedEvent (st_event_id st) t) of
                                            Inl err \<Rightarrow> (Inl (MarshalFailed err), (fst ws, s1))
                                          | Inr outboxPayload \<Rightarrow>
                                              (case save t (Doc outboxPayload) (fst ws) of
                                                 (Some err, w1) \<Rightarrow> (Inl (SaveFailed err), (w1, s1))
                                               | (None, w1) \<Rightarrow>
                                                   (Inr \<lparr>rs_payment_id = PaymentID t,
                                                         rs_state = STATE_RECEIVED,
                                                         rs_deduplicated = False,
                                                         rs_received_at = CreatedAt t\<rparr>,
                                                    (w1, s1))))))))))"

text \<open>The wiring of \<open>cmd/intake/main.go\<close>: two normalizers, no validator.\<close>

definition intake_registry :: "normalizer registry" where
  "intake_registry =
     Registry_Register
       (Registry_Register NewRegistry ''CARD'' 1 CardNormalizer_Normalize)
       ''UPI'' 1 UPINormalizer_Normalize"

definition intake_server :: "pgtypes \<Rightarrow> 's redis_client \<Rightarrow> int64 \<Rightarrow> 's server" where
  "intake_server pg client ttlSeconds =
     \<lparr>sv_Normalizers = Some intake_registry, sv_Validator = None,
      sv_Idem = Some (NewRedisStore client ttlSeconds),
      sv_SaveWithOutbox = Some (SaveWithOutbox pg)\<rparr>"

section \<open>Cases of a submission\<close>

text \<open>What a request is normalized to before anything is claimed.\<close>

definition normalized ::
  "normalizer registry \<Rightarrow> stamp \<Rightarrow> request \<Rightarrow> intake_error + transaction" where
  "normalized reg st req =
     (case source_of (rq_source req) of
        None \<Rightarrow> Inl (UnsupportedSource (rq_source req))
      | Some source \<Rightarrow>
          (case Registry_Get reg source (to_int32 (rq_schema_version req)) of
             Inl err \<Rightarrow> Inl (NoNormalizer err)
           | Inr normalizer \<Rightarrow>
               (case normalizer (raw_payload st req) of
                  Inl err \<Rightarrow> Inl (NormalizeFailed err) | Inr t \<Rightarrow> Inr t)))"

definition accepted :: "stamp \<Rightarrow> transaction \<Rightarrow> transaction" where
  "accepted st t = t\<lparr>State := StateValidated, CreatedAt := st_now st, UpdatedAt := st_now st\<rparr>"

definition ack :: "string \<Rightarrow> bool \<Rightarrow> time \<Rightarrow> response" where
  "ack pid dedup at =
     \<lparr>rs_payment_id = pid, rs_state = STATE_RECEIVED, rs_deduplicated = dedup, rs_received_at = at\<rparr>"

text \<open>The outcomes after the claim was won.\<close>

definition after_claim ::
  "codec \<Rightarrow> (transaction \<Rightarrow> validation_error option) option \<Rightarrow>
   (transaction \<Rightarrow> payload \<Rightarrow> world \<Rightarrow> goerr option \<times> world) \<Rightarrow> stamp \<Rightarrow> transaction \<Rightarrow> world \<Rightarrow>
   (intake_error + response) \<times> world" where
  "after_claim c validator save st t w =
     (case (case validator of None \<Rightarrow> None | Some validate \<Rightarrow> validate t) of
        Some err \<Rightarrow> (Inl (ValidationFailed err), w)
      | None \<Rightarrow>
          (case MarshalEvent c (NewPaymentReceivedEvent (st_event_id st) (accepted st t)) of
             Inl err \<Rightarrow> (Inl (MarshalFailed err), w)
           | Inr j \<Rightarrow>
               (case save (accepted st t) (Doc j) w of
                  (Some err, w1) \<Rightarrow> (Inl (SaveFailed err), w1)
                | (None, w1) \<Rightarrow> (Inr (ack (PaymentID t) False (st_now st)), w1))))"

lemma SubmitPayment_wired:
  "SubmitPayment c (intake_server pg client ttl) st req (w, s) =
     (case normalized intake_registry st req of
        Inl err \<Rightarrow> (Inl err, (w, s))
      | Inr t \<Rightarrow>
          (case redisStore_Claim client ttl s (DeriveKey t) (PaymentID t) of
             (Inl err, s1) \<Rightarrow> (Inl (ClaimFailed err), (w, s1))
           | (Inr (won, existing), s1) \<Rightarrow>
               if won then
                 (case after_claim c None (SaveWithOutbox pg) st t w of (r, w1) \<Rightarrow> (r, (w1, s1)))
               else (Inr (ack existing True (st_now st)), (w, s1))))"
  by (auto simp: SubmitPayment_def intake_server_def NewRedisStore_def normalized_def after_claim_def ack_def
      accepted_def Let_def split: option.splits sum.splits prod.splits bool.splits)

lemma after_claim_clean:
  assumes "script w = []" "insertable pg (accepted st t) row w"
    and "MarshalEvent c (NewPaymentReceivedEvent (st_event_id st) (accepted st t)) = Inr j"
  shows "after_claim c None (SaveWithOutbox pg) st t w =
    (Inr (ack (PaymentID t) False (st_now st)), saved_world pg (accepted st t) row j w)"
  using SaveWithOutbox_clean(2) [OF assms(1,2) refl] assms(3) by (simp add: after_claim_def)

section \<open>From the request to the transaction\<close>

definition reserved_keys :: "string list" where
  "reserved_keys = [''payment_id'', ''idempotency_key'', ''account_id'', ''external_txn_id'',
     ''currency'', ''state'', ''amount'', ''upi_trx_id'']"

lemma raw_payload_get:
  assumes "distinct (map fst (rq_metadata req))"
  shows "gget (raw_payload st req) k =
    (case map_of (rq_metadata req) k of
       Some v \<Rightarrow> v
     | None \<Rightarrow>
         if k = ''amount'' \<and> rq_amount req \<noteq> None
         then formatAmount (MinorUnits (the (rq_amount req)))
         else gget [(''payment_id'', st_payment_id st),
                 (''idempotency_key'', rq_idempotency_key req),
                 (''account_id'', rq_account_id req),
                 (''external_txn_id'', rq_external_txn_id req),
                 (''currency'', case rq_amount req of None \<Rightarrow> [] | Some m \<Rightarrow> Currency m),
                 (''state'', StateReceived)] k)"
  using assms
  by (auto simp: raw_payload_def Let_def gget_gput_all split: option.split)

lemma registry_card: "Registry_Get intake_registry SourceCard 1 = Inr CardNormalizer_Normalize"
  and registry_upi: "Registry_Get intake_registry SourceUPI 1 = Inr UPINormalizer_Normalize"
  by (simp_all add: Registry_Get_def intake_registry_def Registry_Register_def NewRegistry_def
      registry_key_def SourceCard_def SourceUPI_def)

lemma card_normalized:
  assumes "rq_source req = SOURCE_CARD" "rq_schema_version req = 1" "rq_amount req = Some m"
    and "distinct (map fst (rq_metadata req))"
    and "\<forall>k \<in> set reserved_keys. map_of (rq_metadata req) k = None"
  shows "normalized intake_registry st req = Inr
    \<lparr>PaymentID = st_payment_id st, IdempotencyKey = rq_idempotency_key req, Source = SourceCard,
     ExternalTxnID = rq_external_txn_id req, AccountID = rq_account_id req, Amount = m,
     State = StateReceived, SchemaVersion = 1, Metadata = Some (raw_payload st req),
     CreatedAt = zero_time, UpdatedAt = zero_time\<rparr>"
proof -
  have none: "map_of (rq_metadata req) k = None" if "k \<in> set reserved_keys" for k
    using assms(5) that by blast
  note get = raw_payload_get [OF assms(4), of st]
  have "gget (raw_payload st req) ''amount'' = formatAmount (MinorUnits m)"
    using assms(3) none [of "''amount''"] by (simp add: get reserved_keys_def)
  moreover have "gget (raw_payload st req) ''currency'' = Currency m"
    unfolding get using assms(3) none [of "''currency''"] by (simp add: reserved_keys_def gget_def)
  moreover have "gget (raw_payload st req) ''payment_id'' = st_payment_id st"
    "gget (raw_payload st req) ''idempotency_key'' = rq_idempotency_key req"
    "gget (raw_payload st req) ''account_id'' = rq_account_id req"
    "gget (raw_payload st req) ''external_txn_id'' = rq_external_txn_id req"
    "gget (raw_payload st req) ''state'' = StateReceived"
    unfolding get using none by (simp_all add: reserved_keys_def gget_def)
  ultimately show ?thesis
    using assms(1,2)
    by (simp add: normalized_def to_int32_def registry_card CardNormalizer_Normalize_def parseAmount_formatAmount)
qed

lemma raw_payload_distinct: "distinct (map fst (raw_payload st req))"
  by (simp add: raw_payload_def Let_def split: option.split)

lemma registered_normalizers:
  "Registry_Get intake_registry source v = Inr f \<Longrightarrow> f = CardNormalizer_Normalize \<or> f = UPINormalizer_Normalize"
  by (auto simp: Registry_Get_def intake_registry_def Registry_Register_def NewRegistry_def split: if_splits option.splits)

lemma normalized_metadata:
  assumes "normalized intake_registry st req = Inr t"
  shows "Metadata t = Some (raw_payload st req)"
proof -
  from assms obtain source f where f: "Registry_Get intake_registry source (to_int32 (rq_schema_version req)) = Inr f"
    "f (raw_payload st req) = Inr t"
    by (auto simp: normalized_def split: option.splits sum.splits)
  from registered_normalizers [OF f(1)] f(2) show ?thesis
    by (auto simp: CardNormalizer_Normalize_def UPINormalizer_Normalize_def Let_def split: sum.splits if_splits)
qed


text \<open>
  The metadata of a request overrides its fields: a caller who puts \<open>amount\<close>, \<open>payment_id\<close> or
  \<open>account_id\<close> among the metadata decides the amount, the id and the account of the payment,
  whatever the typed fields of the request say.
\<close>

theorem metadata_overrides_request:
  assumes "rq_source req = SOURCE_CARD" "rq_schema_version req = 1"
    and "distinct (map fst (rq_metadata req))"
    and "map_of (rq_metadata req) ''amount'' = Some a" "parseAmount a = Inr x"
    and "map_of (rq_metadata req) ''payment_id'' = Some pid"
    and "map_of (rq_metadata req) ''account_id'' = Some acct"
  shows "\<exists>t. normalized intake_registry st req = Inr t \<and> MinorUnits (Amount t) = x \<and>
    PaymentID t = pid \<and> AccountID t = acct"
  using assms
  by (simp add: normalized_def to_int32_def registry_card CardNormalizer_Normalize_def raw_payload_get)

text \<open>
  A UPI request loses its external transaction id: the normalizer reads \<open>upi_trx_id\<close>, which the server
  never sets. Without a client key, two UPI payments of one account over the same amount therefore
  derive the same key, whatever their external ids, and the second is taken for a duplicate.
\<close>

theorem upi_external_id_dropped:
  assumes "rq_source req = SOURCE_UPI" "rq_schema_version req = 1" "rq_amount req = Some m"
    and "rq_source req' = SOURCE_UPI" "rq_schema_version req' = 1" "rq_amount req' = Some m"
    and "rq_account_id req' = rq_account_id req"
    and "rq_idempotency_key req = []" "rq_idempotency_key req' = []"
    and "rq_metadata req = []" "rq_metadata req' = []"
  shows "\<exists>t t'. normalized intake_registry st req = Inr t \<and> normalized intake_registry st' req' = Inr t' \<and>
    ExternalTxnID t = [] \<and> ExternalTxnID t' = [] \<and> DeriveKey t' = DeriveKey t"
proof -
  have get: "gget (raw_payload st r) k =
      (if k = ''amount'' then formatAmount (MinorUnits m)
       else gget [(''payment_id'', st_payment_id st), (''idempotency_key'', []),
         (''account_id'', rq_account_id r), (''external_txn_id'', rq_external_txn_id r),
         (''currency'', Currency m), (''state'', StateReceived)] k)"
    if "rq_amount r = Some m" "rq_idempotency_key r = []" "rq_metadata r = []" for st r k
    using that by (simp add: raw_payload_get)
  have n: "normalized intake_registry st r = Inr
      \<lparr>PaymentID = st_payment_id st, IdempotencyKey = [], Source = SourceUPI, ExternalTxnID = [],
       AccountID = rq_account_id r, Amount = m, State = StateReceived, SchemaVersion = 1,
       Metadata = Some (raw_payload st r), CreatedAt = zero_time, UpdatedAt = zero_time\<rparr>"
    if "rq_source r = SOURCE_UPI" "rq_schema_version r = 1" "rq_amount r = Some m"
      "rq_idempotency_key r = []" "rq_metadata r = []" for st r
    using that get [OF that(3-5), of st]
    by (simp add: normalized_def to_int32_def registry_upi UPINormalizer_Normalize_def parseAmount_formatAmount
        gget_def)
  from n [OF assms(1-3,8,10), of st] n [OF assms(4-6,9,11), of st'] assms(7) show ?thesis
    by (simp add: DeriveKey_def derived_preimage_def)
qed

section \<open>What a submission does\<close>

text \<open>
  Without failures, a submission that wins its key and fits the schema saves exactly one payment
  and one outbox row: the payment in state VALIDATED, the event with the same id, account, amount
  and currency under the account as partition key, and it answers with the payment's id.
\<close>

theorem SubmitPayment_saves:
  assumes "script w = []" "normalized intake_registry st req = Inr t"
    and "redisStore_Claim client ttl s (DeriveKey t) (PaymentID t) = (Inr (True, x), s1)"
    and "insertable pg (accepted st t) row w" "fmt_time c (st_now st) = Some created"
  shows "\<exists>j. SubmitPayment c (intake_server pg client ttl) st req (w, s) =
      (Inr \<lparr>rs_payment_id = PaymentID t, rs_state = STATE_RECEIVED, rs_deduplicated = False,
            rs_received_at = st_now st\<rparr>,
       (w\<lparr>txns := txns w @ [row],
          outbox := outbox w @
            [outbox_entry pg (outbox_seq w) (PaymentID row) ''payments.received'' (AccountID t) j (st_now st)],
          outbox_seq := outbox_seq w + 1\<rparr>, s1)) \<and>
    State row = StateValidated \<and> AccountID row = AccountID t \<and>
    MinorUnits (Amount row) = MinorUnits (Amount t) \<and>
    MarshalEvent c (NewPaymentReceivedEvent (st_event_id st) (accepted st t)) = Inr j"
proof -
  obtain j where j: "MarshalEvent c (NewPaymentReceivedEvent (st_event_id st) (accepted st t)) = Inr j"
    using assms(5) by (simp add: MarshalEvent_def NewPaymentReceivedEvent_def accepted_def)
  have row: "State row = StateValidated" "AccountID row = AccountID t"
    "MinorUnits (Amount row) = MinorUnits (Amount t)"
    using assms(4)
    by (auto simp: insertable_def txn_row_def accepted_def split: sum.splits)
  show ?thesis
    using assms(2,3) j row after_claim_clean [OF assms(1,4) j]
    by (simp add: SubmitPayment_wired ack_def saved_world_def accepted_def)
qed

text \<open>The claim of a won key is remembered as long as its entry is kept.\<close>

lemma claim_remembered:
  assumes "redis_server client live"
    and "redisStore_Claim client ttl s k p = (Inr (True, x), s1)" "key_kept client live k s1 s1'"
    and "redisStore_Claim client ttl s1' k p' = (Inr (b, y), s2)"
  shows "\<not> b \<and> y = p"
proof -
  from assms(1) have "redis_idempotency client live" by (rule redis_idempotency.intro)
  from redis_idempotency.Claim_won [OF this assms(2)] have "live s1 k = Some p" by simp
  then have "live s1' k = Some p" by (rule key_kept_live [OF assms(1,3)])
  with \<open>redis_idempotency client live\<close> show ?thesis
    using redis_idempotency.Claim_won [of client live ttl s1' k p' y s2]
      redis_idempotency.Claim_lost [of client live ttl s1' k p' y s2] assms(4)
    by (cases b) simp_all
qed

lemma resubmission:
  assumes "redis_server client live" "normalized intake_registry st' req' = Inr t'"
    and "redisStore_Claim client ttl s (DeriveKey t') pid = (Inr (True, x), s1)"
    and "key_kept client live (DeriveKey t') s1 s1'"
    and "SubmitPayment c (intake_server pg client ttl) st' req' (w, s1') = (r, (w', s2))"
  shows "w' = w \<and> (r = Inr (ack pid True (st_now st')) \<or> (\<exists>e. r = Inl (ClaimFailed e)))"
proof -
  obtain a s3 where a: "redisStore_Claim client ttl s1' (DeriveKey t') (PaymentID t') = (a, s3)"
    by (rule prod.exhaust)
  show ?thesis
  proof (cases a)
    case (Inl err)
    with a assms(2,5) show ?thesis by (auto simp: SubmitPayment_wired)
  next
    case (Inr answer)
    obtain b y where "answer = (b, y)" by (cases answer)
    with a Inr claim_remembered [OF assms(1,3,4)] have "\<not> b" "y = pid" by auto
    with a Inr \<open>answer = (b, y)\<close> assms(2,5) show ?thesis by (simp add: SubmitPayment_wired)
  qed
qed

text \<open>
  C28. A key is used up by the first submission that claims it: whatever became of that submission, a later one
  with the same key that arrives while Redis still holds the entry of the first (it expires after the configured
  300 seconds) saves nothing, and unless Redis fails it is answered as a duplicate of the first one's payment.
  In between, other submissions may claim this and other keys, and other commands and the time may do what they
  like, as long as they leave that entry alone.
\<close>

theorem second_submission_deduplicated:
  assumes "redis_server client live"
    and "normalized intake_registry st req = Inr t" "normalized intake_registry st' req' = Inr t'"
    and "DeriveKey t' = DeriveKey t"
    and "SubmitPayment c (intake_server pg client ttl) st req (w0, s) = (r0, (w1, s1))"
    and "\<forall>e. r0 \<noteq> Inl (ClaimFailed e)" "\<forall>resp. r0 = Inr resp \<longrightarrow> \<not> rs_deduplicated resp"
    and "key_kept client live (DeriveKey t) s1 s1'"
    and "SubmitPayment c (intake_server pg client ttl) st' req' (w, s1') = (r, (w', s2))"
  shows "w' = w \<and> (r = Inr \<lparr>rs_payment_id = PaymentID t, rs_state = STATE_RECEIVED,
      rs_deduplicated = True, rs_received_at = st_now st'\<rparr> \<or> (\<exists>e. r = Inl (ClaimFailed e)))"
proof -
  obtain x where "redisStore_Claim client ttl s (DeriveKey t') (PaymentID t) = (Inr (True, x), s1)"
    using assms(2,4-7)
    by (auto simp: SubmitPayment_wired ack_def split: sum.splits prod.splits if_splits)
  from resubmission [OF assms(1,3) this assms(8) [folded assms(4)] assms(9)] show ?thesis by (simp add: ack_def)
qed


text \<open>
  A derived key protects the cache only: the row of a payment without a client key stores the
  empty string under a unique index, so once one such payment exists every other one is refused by
  the database, after its derived key was claimed.
\<close>

theorem keyless_payments_clash:
  assumes "normalized intake_registry st req = Inr t" "IdempotencyKey t = []"
    and "\<exists>row \<in> set (txns w). IdempotencyKey row = []"
    and "redisStore_Claim client ttl s (DeriveKey t) (PaymentID t) = (Inr (True, x), s1)"
    and "script w = []" "fmt_time c (st_now st) = Some created"
    and "SubmitPayment c (intake_server pg client ttl) st req (w, s) = (r, (w', s'))"
  shows "(\<exists>e. r = Inl (SaveFailed e)) \<and> visible w' = visible w \<and> s' = s1"
proof -
  obtain j where j: "MarshalEvent c (NewPaymentReceivedEvent (st_event_id st) (accepted st t)) = Inr j"
    using assms(6) by (simp add: MarshalEvent_def NewPaymentReceivedEvent_def accepted_def)
  have "\<not> insertable pg (accepted st t) row w" for row
    using assms(2,3)
    by (force simp: insertable_def txn_row_def accepted_def split: sum.splits)
  then have "fst (SaveWithOutbox pg (accepted st t) (Doc j) w) \<noteq> None"
    using SaveWithOutbox_clean(1) [OF assms(5), of pg "accepted st t" "Doc j"] by blast
  then obtain e w1 where save: "SaveWithOutbox pg (accepted st t) (Doc j) w = (Some e, w1)"
    by (cases "SaveWithOutbox pg (accepted st t) (Doc j) w") auto
  then have "visible w1 = visible w"
    by (cases rule: SaveWithOutbox_cases) (auto dest: idle_visible)
  with save assms(1,4,7) j show ?thesis
    by (auto simp: SubmitPayment_wired after_claim_def)
qed

text \<open>
  The server of \<open>cmd/intake\<close> has no validator: a card payment over a negative amount, without a
  card number, is accepted, saved as VALIDATED and acknowledged, although the checks of the
  default validator refuse it.
\<close>

theorem wired_server_skips_validation:
  assumes "script w = []" "normalized intake_registry st req = Inr t"
    and "sint (MinorUnits (Amount t)) \<le> 0"
    and "redisStore_Claim client ttl s (DeriveKey t) (PaymentID t) = (Inr (True, x), s1)"
    and "insertable pg (accepted st t) row w" "fmt_time c (st_now st) = Some created"
  shows "DefaultValidator_Validate t \<noteq> None \<and>
    (\<exists>r w'. SubmitPayment c (intake_server pg client ttl) st req (w, s) = (Inr r, (w', s1)) \<and>
       \<not> rs_deduplicated r \<and> txns w' = txns w @ [row] \<and> State row = StateValidated)"
proof -
  obtain j where j: "MarshalEvent c (NewPaymentReceivedEvent (st_event_id st) (accepted st t)) = Inr j"
    using assms(6) by (simp add: MarshalEvent_def NewPaymentReceivedEvent_def accepted_def)
  have "State row = StateValidated"
    using assms(5) by (auto simp: insertable_def txn_row_def accepted_def split: sum.splits)
  then show ?thesis
    using assms(2-4) after_claim_clean [OF assms(1,5) j]
    by (auto simp: SubmitPayment_wired ack_def saved_world_def DefaultValidator_Validate_def)
qed

section \<open>Witnesses\<close>

definition sample_request :: "string \<Rightarrow> int64 \<Rightarrow> gomap \<Rightarrow> request" where
  "sample_request key amount md =
     \<lparr>rq_idempotency_key = key, rq_source = SOURCE_CARD, rq_external_txn_id = ''ext'',
      rq_account_id = ''acct'', rq_amount = Some \<lparr>MinorUnits = amount, Currency = ''USD''\<rparr>,
      rq_schema_version = 1, rq_metadata = md\<rparr>"

definition sample_stamp :: "string \<Rightarrow> stamp" where
  "sample_stamp pid = \<lparr>st_payment_id = pid, st_event_id = ''e'', st_now = 5000\<rparr>"

definition sample_normalized :: "string \<Rightarrow> string \<Rightarrow> int64 \<Rightarrow> transaction" where
  "sample_normalized pid key amount =
     \<lparr>PaymentID = pid, IdempotencyKey = key, Source = SourceCard, ExternalTxnID = ''ext'',
      AccountID = ''acct'', Amount = \<lparr>MinorUnits = amount, Currency = ''USD''\<rparr>, State = StateReceived,
      SchemaVersion = 1, Metadata = Some (raw_payload (sample_stamp pid) (sample_request key amount [])),
      CreatedAt = zero_time, UpdatedAt = zero_time\<rparr>"

lemma sample_is_normalized:
  "normalized intake_registry (sample_stamp pid) (sample_request key amount []) =
     Inr (sample_normalized pid key amount)"
  using card_normalized [of "sample_request key amount []" _ "sample_stamp pid"]
  by (simp add: sample_request_def sample_normalized_def sample_stamp_def)

lemma sample_claim:
  "\<exists>s1. redisStore_Claim memory_redis 300 empty_redis k p = (Inr (True, []), s1)"
  by (simp add: redisStore_Claim_def memory_redis_def memory_setnx_def entry_live_def empty_redis_def)

lemma sample_insertable:
  assumes "PaymentID ` set (txns w) = {}" "IdempotencyKey ` set (txns w) = {}" "pid \<noteq> []"
  shows "\<exists>row. insertable sample_pg (accepted (sample_stamp pid) (sample_normalized pid key amount)) row w"
  using assms
  by (simp add: insertable_def txn_row_def as_uuid_def as_char3_def sample_pg_def accepted_def
      sample_normalized_def)


theorem upi_external_id_dropped_witness:
  "\<exists>t t'. normalized intake_registry (sample_stamp ''p'') ((sample_request [] 100 [])\<lparr>rq_source := SOURCE_UPI,
       rq_external_txn_id := ''utr-1''\<rparr>) = Inr t \<and>
     normalized intake_registry (sample_stamp ''q'') ((sample_request [] 100 [])\<lparr>rq_source := SOURCE_UPI,
       rq_external_txn_id := ''utr-2''\<rparr>) = Inr t' \<and> DeriveKey t' = DeriveKey t"
proof -
  let ?a = "(sample_request [] 100 [])\<lparr>rq_source := SOURCE_UPI, rq_external_txn_id := ''utr-1''\<rparr>"
  let ?b = "(sample_request [] 100 [])\<lparr>rq_source := SOURCE_UPI, rq_external_txn_id := ''utr-2''\<rparr>"
  have "rq_source ?a = SOURCE_UPI" "rq_schema_version ?a = 1"
    "rq_amount ?a = Some \<lparr>MinorUnits = 100, Currency = ''USD''\<rparr>"
    "rq_source ?b = SOURCE_UPI" "rq_schema_version ?b = 1"
    "rq_amount ?b = Some \<lparr>MinorUnits = 100, Currency = ''USD''\<rparr>" "rq_account_id ?b = rq_account_id ?a"
    "rq_idempotency_key ?a = []" "rq_idempotency_key ?b = []" "rq_metadata ?a = []" "rq_metadata ?b = []"
    by (simp_all add: sample_request_def)
  from upi_external_id_dropped [OF this, of "sample_stamp ''p''" "sample_stamp ''q''"] show ?thesis by blast
qed

theorem metadata_overrides_request_witness:
  "\<exists>t. normalized intake_registry (sample_stamp ''p'') (sample_request ''k'' 100
       [(''amount'', formatAmount 9), (''payment_id'', ''q''), (''account_id'', ''other'')]) = Inr t \<and>
     MinorUnits (Amount t) = 9 \<and> PaymentID t = ''q''"
proof -
  let ?req = "sample_request ''k'' 100
       [(''amount'', formatAmount 9), (''payment_id'', ''q''), (''account_id'', ''other'')]"
  have "rq_source ?req = SOURCE_CARD" "rq_schema_version ?req = 1" "distinct (map fst (rq_metadata ?req))"
    "map_of (rq_metadata ?req) ''amount'' = Some (formatAmount 9)" "parseAmount (formatAmount 9) = Inr 9"
    "map_of (rq_metadata ?req) ''payment_id'' = Some ''q''"
    "map_of (rq_metadata ?req) ''account_id'' = Some ''other''"
    by (simp_all add: sample_request_def parseAmount_formatAmount)
  from metadata_overrides_request [OF this, of "sample_stamp ''p''"] show ?thesis by auto
qed

theorem SubmitPayment_saves_witness:
  "\<exists>r ws. SubmitPayment sample_codec (intake_server sample_pg memory_redis 300) (sample_stamp ''p'')
       (sample_request ''k'' 2500 []) (empty_world, empty_redis) = (Inr r, ws) \<and>
     length (txns (fst ws)) = 1 \<and> length (outbox (fst ws)) = 1"
proof -
  let ?t = "sample_normalized ''p'' ''k'' 2500"
  obtain s1 where "redisStore_Claim memory_redis 300 empty_redis (DeriveKey ?t) (PaymentID ?t) =
      (Inr (True, []), s1)" using sample_claim by blast
  moreover obtain row where "insertable sample_pg (accepted (sample_stamp ''p'') ?t) row empty_world"
    using sample_insertable [of empty_world "''p''"] by (auto simp: empty_world_def)
  moreover have "script empty_world = []" "fmt_time sample_codec (st_now (sample_stamp ''p'')) = Some (show_int 5000)"
    by (simp_all add: empty_world_def sample_codec_def sample_stamp_def)
  ultimately show ?thesis
    using SubmitPayment_saves [OF _ sample_is_normalized, of empty_world memory_redis 300 empty_redis
        "''p''" "''k''" 2500 "[]" s1 sample_pg row sample_codec "show_int 5000"]
    by (auto simp: empty_world_def)
qed

lemma sample_key: "key \<noteq> [] \<Longrightarrow> DeriveKey (sample_normalized pid key amount) = key"
  by (simp add: DeriveKey_def sample_normalized_def)

text \<open>Two submissions with the key \<open>k\<close>, the first against a database that is down.\<close>

definition down :: world where
  "down = empty_world\<lparr>script := [Refused ''down'']\<rparr>"

definition submit_sample :: "string \<Rightarrow> world \<times> memory_state \<Rightarrow>
    (intake_error + response) \<times> (world \<times> memory_state)" where
  "submit_sample pid ws =
     SubmitPayment sample_codec (intake_server sample_pg memory_redis 300) (sample_stamp pid)
       (sample_request ''k'' 2500 []) ws"

text \<open>Redis after the first one, and 299 seconds later, with another key claimed in between.\<close>

definition holding :: memory_state where
  "holding = empty_redis\<lparr>entries := [(''k'', ''p'', Some 300000000000)]\<rparr>"

definition holding_later :: memory_state where
  "holding_later = (snd (redisStore_Claim memory_redis 300 holding ''x'' ''z''))\<lparr>clock := 299000000000\<rparr>"

lemma holding_live: "entry_live holding ''k'' = Some ''p''" "entry_live holding_later ''k'' = Some ''p''"
  by (simp_all add: holding_later_def holding_def redisStore_Claim_def memory_redis_def memory_setnx_def entry_live_def
      empty_redis_def ttl_duration_def)

lemma holding_kept: "key_kept memory_redis entry_live ''k'' holding holding_later"
proof -
  have "key_kept memory_redis entry_live ''k'' holding (snd (redisStore_Claim memory_redis 300 holding ''x'' ''z''))"
    by (rule key_kept.claimed [OF key_kept.same]) (rule prod.collapse [symmetric])
  then show ?thesis
    by (rule key_kept.untouched)
      (simp add: holding_later_def holding_def redisStore_Claim_def memory_redis_def memory_setnx_def entry_live_def
        empty_redis_def ttl_duration_def)
qed

lemma submit_down: "\<exists>e w1. submit_sample ''p'' (down, empty_redis) = (Inl (SaveFailed e), (w1, holding))"
proof -
  have key: "DeriveKey (sample_normalized ''p'' ''k'' 2500) = ''k''" by (simp add: sample_key)
  have pid: "PaymentID (sample_normalized ''p'' ''k'' 2500) = ''p''" by (simp add: sample_normalized_def)
  have claim: "redisStore_Claim memory_redis 300 empty_redis ''k'' ''p'' = (Inr (True, []), holding)"
    by (simp add: redisStore_Claim_def memory_redis_def memory_setnx_def entry_live_def empty_redis_def
        ttl_duration_def holding_def)
  moreover have "\<exists>e w1. after_claim sample_codec None (SaveWithOutbox sample_pg) (sample_stamp ''p'')
      (sample_normalized ''p'' ''k'' 2500) down = (Inl (SaveFailed e), w1)"
    by (simp add: after_claim_def MarshalEvent_def sample_codec_def SaveWithOutbox_def tx_begin_def
        call_def pop_def down_def)
  ultimately show ?thesis
    by (auto simp: submit_sample_def SubmitPayment_wired sample_is_normalized key pid)
qed

lemma submit_again:
  assumes "entry_live s1 ''k'' = Some ''p''"
  shows "submit_sample ''q'' (w, s1) = (Inr (ack ''p'' True 5000), (w, s1))"
proof -
  have "DeriveKey (sample_normalized ''q'' ''k'' 2500) = ''k''" by (simp add: sample_key)
  moreover have "redisStore_Claim memory_redis 300 s1 ''k'' v = (Inr (False, ''p''), s1)" for v
    using assms by (simp add: redisStore_Claim_def memory_redis_def memory_setnx_def memory_get_def)
  ultimately show ?thesis
    by (simp add: submit_sample_def SubmitPayment_wired sample_is_normalized)
      (simp add: sample_stamp_def)
qed

theorem second_submission_deduplicated_witness:
  "\<exists>e w1 r w' s2. submit_sample ''p'' (down, empty_redis) = (Inl (SaveFailed e), (w1, holding)) \<and>
     submit_sample ''q'' (empty_world, holding_later) = (r, (w', s2)) \<and> w' = empty_world"
proof -
  obtain e w1 where first: "submit_sample ''p'' (down, empty_redis) = (Inl (SaveFailed e), (w1, holding))"
    using submit_down by blast
  obtain r w' s2 where second: "submit_sample ''q'' (empty_world, holding_later) = (r, (w', s2))"
    by (rule prod_cases3)
  have same: "DeriveKey (sample_normalized ''q'' ''k'' 2500) = DeriveKey (sample_normalized ''p'' ''k'' 2500)"
    by (simp add: sample_key)
  have kept: "key_kept memory_redis entry_live (DeriveKey (sample_normalized ''p'' ''k'' 2500)) holding holding_later"
    using holding_kept by (simp add: sample_key)
  from second_submission_deduplicated [OF memory.redis_server_axioms sample_is_normalized
      sample_is_normalized same first [unfolded submit_sample_def] _ _ kept second [unfolded submit_sample_def]]
  have "w' = empty_world" by simp
  with first second show ?thesis by blast
qed


theorem keyless_payments_clash_witness:
  "\<exists>e ws. SubmitPayment sample_codec (intake_server sample_pg memory_redis 300) (sample_stamp ''p'')
       (sample_request [] 2500 []) (empty_world\<lparr>txns := [sample_txn ''old'' []]\<rparr>, empty_redis) =
     (Inl (SaveFailed e), ws)"
proof -
  let ?w = "empty_world\<lparr>txns := [sample_txn ''old'' []]\<rparr>" and ?t = "sample_normalized ''p'' [] 2500"
  obtain s1 where claim: "redisStore_Claim memory_redis 300 empty_redis (DeriveKey ?t) (PaymentID ?t) =
      (Inr (True, []), s1)" using sample_claim by blast
  obtain r w' s' where run: "SubmitPayment sample_codec (intake_server sample_pg memory_redis 300)
      (sample_stamp ''p'') (sample_request [] 2500 []) (?w, empty_redis) = (r, (w', s'))"
    by (rule prod_cases3)
  have "IdempotencyKey ?t = []" "\<exists>row \<in> set (txns ?w). IdempotencyKey row = []" "script ?w = []"
    "fmt_time sample_codec (st_now (sample_stamp ''p'')) = Some (show_int 5000)"
    by (simp_all add: sample_normalized_def sample_txn_def empty_world_def sample_codec_def sample_stamp_def)
  from keyless_payments_clash [OF sample_is_normalized this(1,2) claim this(3,4) run] run
  show ?thesis by auto
qed

theorem wired_server_skips_validation_witness:
  "\<exists>r w' s'. SubmitPayment sample_codec (intake_server sample_pg memory_redis 300) (sample_stamp ''p'')
       (sample_request ''k'' (- 100) []) (empty_world, empty_redis) = (Inr r, (w', s')) \<and>
     length (txns w') = 1"
proof -
  let ?t = "sample_normalized ''p'' ''k'' (- 100)"
  obtain s1 where claim: "redisStore_Claim memory_redis 300 empty_redis (DeriveKey ?t) (PaymentID ?t) =
      (Inr (True, []), s1)" using sample_claim by blast
  obtain row where row: "insertable sample_pg (accepted (sample_stamp ''p'') ?t) row empty_world"
    using sample_insertable [of empty_world "''p''"] by (auto simp: empty_world_def)
  have "script empty_world = []" "sint (MinorUnits (Amount ?t)) \<le> 0"
    "fmt_time sample_codec (st_now (sample_stamp ''p'')) = Some (show_int 5000)"
    by (simp_all add: empty_world_def sample_codec_def sample_stamp_def sample_normalized_def)
  from wired_server_skips_validation [OF this(1) sample_is_normalized this(2) claim row this(3)]
  show ?thesis by (auto simp: empty_world_def)
qed

end
