(* ===== verification/Settlement_Store.thy ===== *)
theory Settlement_Store
  imports Ledger
begin

text \<open>
  \<open>internal/settlement/types.go\<close> and \<open>pgstore.go\<close>: the aggregation of captured payments and the
  transaction that persists a batch.

  \<^item> \<open>SUM(amount_minor)\<close> is exact in Postgres (NUMERIC); scanning it into an \<open>int64\<close> fails when it does
    not fit.
  \<^item> A group is ordered by the collation of its account and currency, ties broken by the text itself.
  \<^item> What a run of \<open>PersistBatch\<close> can do is the elimination rule \<open>PersistBatch_cases\<close>; the conservation of
    money that rests on it is in theory \<open>Settlement_Engine\<close>.
\<close>

record captured_group =
  cg_AccountID :: string
  cg_Currency :: string
  cg_TotalMinor :: int64
  cg_TxnCount :: int
  cg_PaymentIDs :: "string list"

definition BatchStatusPending :: string where "BatchStatusPending = ''PENDING''"
definition BatchStatusPayoutSent :: string where "BatchStatusPayoutSent = ''PAYOUT_SENT''"
definition BatchStatusReconciled :: string where "BatchStatusReconciled = ''RECONCILED''"

section \<open>AggregateCaptured\<close>

definition in_window :: "pgtypes \<Rightarrow> time \<Rightarrow> time \<Rightarrow> transaction \<Rightarrow> bool" where
  "in_window pg windowStart windowEnd r \<longleftrightarrow>
     State r = StateCaptured \<and> ts_in pg windowStart \<le> CreatedAt r \<and> CreatedAt r < ts_in pg windowEnd"

definition group_key :: "transaction \<Rightarrow> string \<times> string" where
  "group_key r = (AccountID r, Currency (Amount r))"

definition group_order :: "pgtypes \<Rightarrow> string \<times> string \<Rightarrow> string list" where
  "group_order pg k = [collate pg (fst k), fst k, collate pg (snd k), snd k]"

definition sum_minor :: "transaction list \<Rightarrow> int" where
  "sum_minor rows = sum_list (map (\<lambda>r. sint (MinorUnits (Amount r))) rows)"

text \<open>A row of the result: the key and the payments of the group.\<close>

definition select_groups ::
  "pgtypes \<Rightarrow> time \<Rightarrow> time \<Rightarrow> world \<Rightarrow> ((string \<times> string) \<times> transaction list) list" where
  "select_groups pg windowStart windowEnd w =
     (let rows = filter (in_window pg windowStart windowEnd) (txns w);
          keys = sort_key (group_order pg) (remdups (map group_key rows))
      in map (\<lambda>k. (k, filter (\<lambda>r. group_key r = k) rows)) keys)"

fun scan_groups ::
  "((string \<times> string) \<times> transaction list) list \<Rightarrow> goerr + captured_group list" where
  "scan_groups [] = Inr []"
| "scan_groups ((k, rows) # gs) =
     (if in_int64 (sum_minor rows) then
        (case scan_groups gs of
           Inl err \<Rightarrow> Inl err
         | Inr groups \<Rightarrow>
             Inr (\<lparr>cg_AccountID = fst k, cg_Currency = snd k,
                   cg_TotalMinor = word_of_int (sum_minor rows), cg_TxnCount = int (length rows),
                   cg_PaymentIDs = map PaymentID rows\<rparr> # groups))
      else Inl (Wrap ''scan group row: '' (Plain ''value out of range for int64'')))"

text \<open>The last call is \<open>rows.Err()\<close>.\<close>

definition AggregateCaptured ::
  "pgtypes \<Rightarrow> time \<Rightarrow> time \<Rightarrow> world \<Rightarrow> (goerr + captured_group list) \<times> world" where
  "AggregateCaptured pg windowStart windowEnd w =
     (case call (\<lambda>w. Inr (select_groups pg windowStart windowEnd w, w)) w of
        (Inl err, w1) \<Rightarrow> (Inl (Wrap ''aggregate query: '' err), w1)
      | (Inr rows, w1) \<Rightarrow>
          (case scan_groups rows of
             Inl err \<Rightarrow> (Inl err, w1)
           | Inr groups \<Rightarrow> call (\<lambda>w. Inr (groups, w)) w1))"

section \<open>PersistBatch\<close>

definition same_window :: "batch_row \<Rightarrow> batch_row \<Rightarrow> bool" where
  "same_window a b \<longleftrightarrow>
     bt_AccountID a = bt_AccountID b \<and> bt_Currency a = bt_Currency b \<and>
     bt_WindowStart a = bt_WindowStart b \<and> bt_WindowEnd a = bt_WindowEnd b"

definition batch_columns :: "pgtypes \<Rightarrow> batch_row \<Rightarrow> goerr + batch_row" where
  "batch_columns pg b =
     (case as_uuid pg (bt_ID b) of
        Inl e \<Rightarrow> Inl e
      | Inr u \<Rightarrow>
          (case as_char3 pg (bt_Currency b) of
             Inl e \<Rightarrow> Inl e
           | Inr c \<Rightarrow>
               Inr (b\<lparr>bt_ID := u, bt_Currency := c, bt_WindowStart := ts_in pg (bt_WindowStart b),
                      bt_WindowEnd := ts_in pg (bt_WindowEnd b),
                      bt_CreatedAt := ts_in pg (bt_CreatedAt b)\<rparr>)))"

definition insert_batch :: "pgtypes \<Rightarrow> batch_row \<Rightarrow> world \<Rightarrow> goerr + nat \<times> world" where
  "insert_batch pg b w =
     (case batch_columns pg b of
        Inl e \<Rightarrow> Inl e
      | Inr row \<Rightarrow>
          if \<exists>r \<in> set (batches w). same_window r row then Inr (0, w)
          else if bt_ID row \<in> bt_ID ` set (batches w)
          then reject pg (DuplicateKey ''settlement_batches_pkey'')
          else Inr (1, w\<lparr>batches := batches w @ [row]\<rparr>))"

fun uuid_array :: "pgtypes \<Rightarrow> string list \<Rightarrow> goerr + string list" where
  "uuid_array pg [] = Inr []"
| "uuid_array pg (s # ss) =
     (case as_uuid pg s of
        Inl e \<Rightarrow> Inl e
      | Inr u \<Rightarrow> (case uuid_array pg ss of Inl e \<Rightarrow> Inl e | Inr us \<Rightarrow> Inr (u # us)))"

definition settle_txns :: "pgtypes \<Rightarrow> time \<Rightarrow> string list \<Rightarrow> world \<Rightarrow> goerr + unit \<times> world" where
  "settle_txns pg now ids w =
     (case uuid_array pg ids of
        Inl e \<Rightarrow> Inl e
      | Inr us \<Rightarrow>
          Inr ((), w\<lparr>txns := update_where (\<lambda>r. PaymentID r \<in> set us \<and> State r = StateCaptured)
                        (\<lambda>r. r\<lparr>State := StateSettled, UpdatedAt := now\<rparr>) (txns w)\<rparr>))"

text \<open>\<open>created_at\<close> takes its default, the clock of the database.\<close>

definition insertOutboxRow ::
  "pgtypes \<Rightarrow> time \<Rightarrow> string \<Rightarrow> string \<Rightarrow> string \<Rightarrow> payload \<Rightarrow> world \<Rightarrow> (goerr + unit) \<times> world" where
  "insertOutboxRow pg now aggregateID topic partitionKey p w =
     call (insert_outbox pg aggregateID topic partitionKey p now) w"

definition PersistBatch ::
  "pgtypes \<Rightarrow> time \<Rightarrow> batch_row \<Rightarrow> captured_group \<Rightarrow> payload \<Rightarrow> payload \<Rightarrow> world \<Rightarrow>
   (goerr + bool) \<times> world" where
  "PersistBatch pg now batch grp settledPayload payoutPayload w =
     (case tx_begin w of
        (Inl err, w0) \<Rightarrow> (Inl (Wrap ''begin tx: '' err), w0)
      | (Inr _, w0) \<Rightarrow>
          (case call (insert_batch pg batch) w0 of
             (Inl err, w1) \<Rightarrow> (Inl (Wrap ''insert settlement_batch: '' err), tx_rollback w0 w1)
           | (Inr n, w1) \<Rightarrow>
               if n = 0 then (Inr True, tx_rollback w0 w1)
               else
                 (case call (settle_txns pg now (cg_PaymentIDs grp)) w1 of
                    (Inl err, w2) \<Rightarrow> (Inl (Wrap ''bulk update transactions: '' err), tx_rollback w0 w2)
                  | (Inr _, w2) \<Rightarrow>
                      (case insertOutboxRow pg now (bt_ID batch) ''payments.settled''
                              (bt_AccountID batch) settledPayload w2 of
                         (Inl err, w3) \<Rightarrow> (Inl (Wrap ''outbox payments.settled: '' err), tx_rollback w0 w3)
                       | (Inr _, w3) \<Rightarrow>
                           (case insertOutboxRow pg now (bt_ID batch) ''payouts.requested''
                                   (bt_AccountID batch) payoutPayload w3 of
                              (Inl err, w4) \<Rightarrow>
                                (Inl (Wrap ''outbox payouts.requested: '' err), tx_rollback w0 w4)
                            | (Inr _, w4) \<Rightarrow>
                                (case tx_commit w0 w4 of
                                   (Some err, w5) \<Rightarrow> (Inl (Wrap ''commit: '' err), w5)
                                 | (None, w5) \<Rightarrow> (Inr False, w5)))))))"

section \<open>Effects\<close>

definition settled_txns :: "time \<Rightarrow> string list \<Rightarrow> transaction list \<Rightarrow> transaction list" where
  "settled_txns now us rows =
     update_where (\<lambda>r. PaymentID r \<in> set us \<and> State r = StateCaptured)
       (\<lambda>r. r\<lparr>State := StateSettled, UpdatedAt := now\<rparr>) rows"

definition payout_rows ::
  "pgtypes \<Rightarrow> time \<Rightarrow> int \<Rightarrow> string \<Rightarrow> string \<Rightarrow> json \<Rightarrow> json \<Rightarrow> outbox_row list" where
  "payout_rows pg now i u account js jp =
     [outbox_entry pg i u ''payments.settled'' account js now,
      outbox_entry pg (i + 1) u ''payouts.requested'' account jp now]"

text \<open>The world after a batch was persisted.\<close>

definition settled_world ::
  "pgtypes \<Rightarrow> time \<Rightarrow> batch_row \<Rightarrow> string list \<Rightarrow> json \<Rightarrow> json \<Rightarrow> world \<Rightarrow> world" where
  "settled_world pg now row us js jp w =
     w\<lparr>batches := batches w @ [row], txns := settled_txns now us (txns w),
       outbox := outbox w @ payout_rows pg now (outbox_seq w) (bt_ID row) (bt_AccountID row) js jp,
       outbox_seq := outbox_seq w + 2\<rparr>"

lemma batch_columns_fields:
  "batch_columns pg b = Inr row \<Longrightarrow> uuid_in pg (bt_ID b) = Some (bt_ID row) \<and>
     char3_in pg (bt_Currency b) = Some (bt_Currency row) \<and> bt_AccountID row = bt_AccountID b \<and>
     bt_TotalMinor row = bt_TotalMinor b \<and> bt_TxnCount row = bt_TxnCount b \<and>
     bt_WindowStart row = ts_in pg (bt_WindowStart b) \<and> bt_WindowEnd row = ts_in pg (bt_WindowEnd b)"
  by (auto simp: batch_columns_def as_uuid_def as_char3_def reject_def split: sum.splits option.splits)

text \<open>The row violates no constraint of the table.\<close>

definition new_batch :: "batch_row \<Rightarrow> world \<Rightarrow> bool" where
  "new_batch row w \<longleftrightarrow>
     (\<forall>b \<in> set (batches w). \<not> same_window b row) \<and> bt_ID row \<notin> bt_ID ` set (batches w)"

lemma insert_batch_effect:
  "insert_batch pg b w = Inr (n, w') \<longleftrightarrow>
     (\<exists>row. batch_columns pg b = Inr row \<and>
        ((\<exists>r \<in> set (batches w). same_window r row) \<and> n = 0 \<and> w' = w \<or>
         new_batch row w \<and> n = 1 \<and> w' = w\<lparr>batches := batches w @ [row]\<rparr>))"
  by (auto simp: insert_batch_def new_batch_def reject_def split: sum.splits if_splits)

lemma settle_txns_effect:
  "settle_txns pg now ids w = Inr (x, w') \<longleftrightarrow>
     (\<exists>us. uuid_array pg ids = Inr us \<and> w' = w\<lparr>txns := settled_txns now us (txns w)\<rparr>)"
  by (auto simp: settle_txns_def settled_txns_def split: sum.splits)

lemma insert_outbox_call:
  assumes "call (insert_outbox pg a topic key p created) w = (Inr x, w')"
  shows "\<exists>u j s. uuid_in pg a = Some u \<and> p = Doc j \<and>
    w' = w\<lparr>outbox := outbox w @ [outbox_entry pg (outbox_seq w) u topic key j created],
           outbox_seq := outbox_seq w + 1, script := s\<rparr>"
proof -
  from assms obtain s where "insert_outbox pg a topic key p created (w\<lparr>script := s\<rparr>) = Inr (x, w')"
    by (rule call_success)
  then obtain u j where "uuid_in pg a = Some u" "p = Doc j"
    "w' = w\<lparr>outbox := outbox w @ [outbox_entry pg (outbox_seq w) u topic key j created],
           outbox_seq := outbox_seq w + 1, script := s\<rparr>"
    by (auto simp: insert_outbox_effect)
  then show ?thesis by blast
qed

lemma insert_batch_call:
  assumes "call (insert_batch pg b) w = (Inr n, w')"
  shows "\<exists>row s. batch_columns pg b = Inr row \<and>
    ((\<exists>r \<in> set (batches w). same_window r row) \<and> n = 0 \<or>
     new_batch row w \<and> n = 1 \<and>
     w' = w\<lparr>batches := batches w @ [row], script := s\<rparr>)"
proof -
  from assms obtain s where "insert_batch pg b (w\<lparr>script := s\<rparr>) = Inr (n, w')" by (rule call_success)
  then obtain row where "batch_columns pg b = Inr row"
    "(\<exists>r \<in> set (batches w). same_window r row) \<and> n = 0 \<or>
     new_batch row w \<and> n = 1 \<and>
     w' = w\<lparr>batches := batches w @ [row], script := s\<rparr>"
    by (auto simp: insert_batch_effect new_batch_def)
  then show ?thesis by blast
qed

lemma settle_txns_call:
  assumes "call (settle_txns pg now ids) w = (Inr x, w')"
  shows "\<exists>us s. uuid_array pg ids = Inr us \<and>
    w' = w\<lparr>txns := settled_txns now us (txns w), script := s\<rparr>"
proof -
  from assms obtain s where "settle_txns pg now ids (w\<lparr>script := s\<rparr>) = Inr (x, w')" by (rule call_success)
  then obtain us where "uuid_array pg ids = Inr us" "w' = w\<lparr>txns := settled_txns now us (txns w), script := s\<rparr>"
    by (auto simp: settle_txns_effect)
  then show ?thesis by blast
qed

text \<open>
  Every run changes nothing, because of an error or of a batch for the same window, or persists the
  whole batch; and \<open>True\<close> (already existed) is answered only for an existing window.
\<close>

lemma PersistBatch_cases:
  assumes run: "PersistBatch pg now batch g ps pp w = (r, w')"
  obtains (unchanged) "idle w w'" "r \<noteq> Inr False"
      "r = Inr True \<Longrightarrow> \<exists>row. batch_columns pg batch = Inr row \<and> (\<exists>b \<in> set (batches w). same_window b row)"
    | (saved) row us js jp s where "r \<noteq> Inr True" "batch_columns pg batch = Inr row"
        "new_batch row w" "uuid_array pg (cg_PaymentIDs g) = Inr us"
        "ps = Doc js" "pp = Doc jp" "w' = (settled_world pg now row us js jp w)\<lparr>script := s\<rparr>"
proof -
  let ?ob1 = "insert_outbox pg (bt_ID batch) ''payments.settled'' (bt_AccountID batch) ps now"
  let ?ob2 = "insert_outbox pg (bt_ID batch) ''payouts.requested'' (bt_AccountID batch) pp now"
  obtain b w0 where b: "tx_begin w = (b, w0)" by (cases "tx_begin w")
  then obtain s0 where w0: "w0 = w\<lparr>script := s0\<rparr>" by (auto dest: tx_begin_world)
  obtain r1 w1 where c1: "call (insert_batch pg batch) w0 = (r1, w1)" by (rule prod.exhaust)
  obtain r2 w2 where c2: "call (settle_txns pg now (cg_PaymentIDs g)) w1 = (r2, w2)" by (rule prod.exhaust)
  obtain r3 w3 where c3: "call ?ob1 w2 = (r3, w3)" by (rule prod.exhaust)
  obtain r4 w4 where c4: "call ?ob2 w3 = (r4, w4)" by (rule prod.exhaust)
  obtain rc wc where cc: "tx_commit w0 w4 = (rc, wc)" by (rule prod.exhaust)
  have seq: "outbox_seq w0 \<le> outbox_seq w1" "outbox_seq w1 \<le> outbox_seq w2"
    "outbox_seq w2 \<le> outbox_seq w3" "outbox_seq w3 \<le> outbox_seq w4"
    using c1 c2 c3 c4
    by (auto elim!: call_seq simp: insert_batch_effect settle_txns_effect insert_outbox_effect)
  have idle0: "idle w w0" using w0 by simp
  have idles: "idle w (tx_rollback w0 w1)" "idle w (tx_rollback w0 w2)" "idle w (tx_rollback w0 w3)"
    "idle w (tx_rollback w0 w4)"
    using idle0 seq by (auto intro: idle_rollback)
  show ?thesis
  proof (cases "\<exists>x n y z u. b = Inr x \<and> r1 = Inr n \<and> n \<noteq> 0 \<and> r2 = Inr y \<and> r3 = Inr z \<and> r4 = Inr u")
    case False
    with run b c1 c2 c3 c4 cc idle0 idles have "idle w w' \<and> r \<noteq> Inr False"
      unfolding PersistBatch_def insertOutboxRow_def by (auto split: sum.splits if_splits)
    moreover have "\<exists>row. batch_columns pg batch = Inr row \<and> (\<exists>b \<in> set (batches w). same_window b row)"
      if "r = Inr True"
    proof -
      from that False run b c1 c2 c3 c4 cc have "r1 = Inr 0"
        unfolding PersistBatch_def insertOutboxRow_def by (auto split: sum.splits if_splits)
      from insert_batch_call [OF c1 [unfolded this]] w0 show ?thesis by auto
    qed
    ultimately show ?thesis by (intro unchanged) auto
  next
    case True
    then obtain x n y z u where ok: "b = Inr x" "r1 = Inr n" "n \<noteq> 0" "r2 = Inr y" "r3 = Inr z" "r4 = Inr u"
      by blast
    from insert_batch_call [OF c1 [unfolded ok(2)]] ok(3) w0 obtain row s1 where row:
      "batch_columns pg batch = Inr row" "new_batch row w"
      "w1 = w\<lparr>batches := batches w @ [row], script := s1\<rparr>" by (auto simp: new_batch_def)
    from settle_txns_call [OF c2 [unfolded ok(4)]] obtain us s2 where us:
      "uuid_array pg (cg_PaymentIDs g) = Inr us" "w2 = w1\<lparr>txns := settled_txns now us (txns w1), script := s2\<rparr>"
      by blast
    from insert_outbox_call [OF c3 [unfolded ok(5)]] insert_outbox_call [OF c4 [unfolded ok(6)]]
    obtain u1 js s3 u2 jp s4 where out: "uuid_in pg (bt_ID batch) = Some u1" "ps = Doc js"
      "w3 = w2\<lparr>outbox := outbox w2 @ [outbox_entry pg (outbox_seq w2) u1 ''payments.settled''
        (bt_AccountID batch) js now], outbox_seq := outbox_seq w2 + 1, script := s3\<rparr>"
      "uuid_in pg (bt_ID batch) = Some u2" "pp = Doc jp"
      "w4 = w3\<lparr>outbox := outbox w3 @ [outbox_entry pg (outbox_seq w3) u2 ''payouts.requested''
        (bt_AccountID batch) jp now], outbox_seq := outbox_seq w3 + 1, script := s4\<rparr>"
      by blast
    have ids: "u1 = bt_ID row" "u2 = bt_ID row" "bt_AccountID batch = bt_AccountID row"
      using out(1,4) batch_columns_fields [OF row(1)] by simp_all
    have w4: "w4 = (settled_world pg now row us js jp w)\<lparr>script := s4\<rparr>"
      unfolding out(6) out(3) us(2) row(3) ids
      by (simp add: settled_world_def payout_rows_def)
    from run b c1 c2 c3 c4 cc ok have r: "w' = wc" "r = (case rc of None \<Rightarrow> Inr False | Some err \<Rightarrow> Inl (Wrap ''commit: '' err))"
      unfolding PersistBatch_def insertOutboxRow_def by (auto split: option.splits)
    from cc show ?thesis
    proof (cases rule: tx_commit_cases)
      case (committed s)
      show ?thesis
        using r committed w4 row us out by (intro saved) (auto split: option.splits)
    next
      case (aborted s)
      have "idle w w'"
        unfolding r(1) aborted(1) using idle0 seq by (intro idle_rollback) auto
      with aborted(2) r(2) show ?thesis by (intro unchanged) (auto split: option.splits)
    qed
  qed
qed

lemma PersistBatch_clean:
  assumes "script w = []" "batch_columns pg batch = Inr row"
    and "\<forall>b \<in> set (batches w). \<not> same_window b row" "bt_ID row \<notin> bt_ID ` set (batches w)"
    and "uuid_array pg (cg_PaymentIDs g) = Inr us"
  shows "PersistBatch pg now batch g (Doc js) (Doc jp) w = (Inr False, settled_world pg now row us js jp w)"
proof -
  note cols = batch_columns_fields [OF assms(2)]
  let ?w1 = "w\<lparr>batches := batches w @ [row]\<rparr>"
  let ?w2 = "?w1\<lparr>txns := settled_txns now us (txns w)\<rparr>"
  have "call (insert_batch pg batch) w = (Inr 1, ?w1)"
    using assms(1-4) insert_batch_effect [of pg batch w 1 ?w1] by (simp add: call_nil new_batch_def)
  moreover have "call (settle_txns pg now (cg_PaymentIDs g)) ?w1 = (Inr (), ?w2)"
    using assms(1,5) by (simp add: call_nil settle_txns_def settled_txns_def)
  moreover have "insertOutboxRow pg now (bt_ID batch) topic (bt_AccountID batch) (Doc j) v =
      (Inr (), v\<lparr>outbox := outbox v @ [outbox_entry pg (outbox_seq v) (bt_ID row) topic (bt_AccountID row) j now],
        outbox_seq := outbox_seq v + 1\<rparr>)" if "script v = []" for v topic j
  proof -
    have "insert_outbox pg (bt_ID batch) topic (bt_AccountID batch) (Doc j) now v = Inr ((),
        v\<lparr>outbox := outbox v @ [outbox_entry pg (outbox_seq v) (bt_ID row) topic (bt_AccountID row) j now],
          outbox_seq := outbox_seq v + 1\<rparr>)"
      unfolding insert_outbox_effect using cols by simp
    with that show ?thesis by (simp add: insertOutboxRow_def call_nil)
  qed
  ultimately show ?thesis
    using assms(1)
    by (simp add: PersistBatch_def tx_begin_def call_nil tx_commit_def pop_nil settled_world_def
        payout_rows_def add.assoc)
qed

text \<open>
  C14. However the database calls fail, a batch is persisted as a whole or not at all: the batch row,
  the move of exactly the group's captured payments to SETTLED and the two outbox rows, one for
  \<open>payments.settled\<close> and one for \<open>payouts.requested\<close>, appear together.
\<close>

theorem PersistBatch_atomic:
  assumes "PersistBatch pg now batch g ps pp w = (r, w')"
  shows "visible w' = visible w \<and> r \<noteq> Inr False \<or>
    (\<exists>row us a b. uuid_array pg (cg_PaymentIDs g) = Inr us \<and>
       ob_topic a = ''payments.settled'' \<and> ob_topic b = ''payouts.requested'' \<and>
       ob_partition_key a = bt_AccountID batch \<and> ob_partition_key b = bt_AccountID batch \<and>
       bt_TotalMinor row = bt_TotalMinor batch \<and>
       visible w' = visible (w\<lparr>batches := batches w @ [row], outbox := outbox w @ [a, b],
         txns := map (\<lambda>t. if PaymentID t \<in> set us \<and> State t = StateCaptured
                         then t\<lparr>State := StateSettled, UpdatedAt := now\<rparr> else t) (txns w)\<rparr>))"
  using assms
proof (cases rule: PersistBatch_cases)
  case unchanged
  then show ?thesis by (simp add: idle_visible)
next
  case (saved row us js jp s)
  let ?a = "outbox_entry pg (outbox_seq w) (bt_ID row) ''payments.settled'' (bt_AccountID row) js now"
  let ?b = "outbox_entry pg (outbox_seq w + 1) (bt_ID row) ''payouts.requested'' (bt_AccountID row) jp now"
  have "visible w' = visible (w\<lparr>batches := batches w @ [row], outbox := outbox w @ [?a, ?b],
      txns := settled_txns now us (txns w)\<rparr>)"
    by (simp add: saved settled_world_def payout_rows_def visible_def)
  with saved(4) batch_columns_fields [OF saved(2)] show ?thesis
    unfolding settled_txns_def update_where_def
    by (intro disjI2 exI [of _ row] exI [of _ us] exI [of _ ?a] exI [of _ ?b]) (simp add: outbox_entry_def)
qed

text \<open>
  C29. A window is settled at most once per account and currency: when a batch for it exists, persisting
  another one changes nothing and never reports a new batch, however the calls fail.
\<close>

theorem window_settled_once:
  assumes "batch_columns pg batch = Inr row" "b \<in> set (batches w)" "same_window b row"
    and "PersistBatch pg now batch g ps pp w = (r, w')"
  shows "visible w' = visible w \<and> r \<noteq> Inr False"
  using assms(4)
proof (cases rule: PersistBatch_cases)
  case unchanged
  then show ?thesis by (simp add: idle_visible)
next
  case (saved row' us js jp s)
  with assms(1-3) show ?thesis by (simp add: new_batch_def)
qed

text \<open>
  Nobody looks at how many payments the bulk update moved: a group that another engine has
  settled in the meantime, under a window that starts or ends a little later, gets a second
  batch over the same money and a second payout request, and no payment changes.
\<close>

theorem stale_group_paid_twice:
  assumes "script w = []" "batch_columns pg batch = Inr row"
    and "\<forall>b \<in> set (batches w). \<not> same_window b row" "bt_ID row \<notin> bt_ID ` set (batches w)"
    and "uuid_array pg (cg_PaymentIDs g) = Inr us"
    and "\<forall>t \<in> set (txns w). PaymentID t \<in> set us \<longrightarrow> State t = StateSettled"
  shows "\<exists>w'. PersistBatch pg now batch g (Doc js) (Doc jp) w = (Inr False, w') \<and> txns w' = txns w \<and>
    batches w' = batches w @ [row] \<and> bt_TotalMinor row = bt_TotalMinor batch \<and>
    map ob_topic (outbox w') = map ob_topic (outbox w) @ [''payments.settled'', ''payouts.requested'']"
proof -
  have "settled_txns now us (txns w) = txns w"
    unfolding settled_txns_def using assms(6)
    by (intro update_where_none) (auto simp: StateSettled_def StateCaptured_def)
  then show ?thesis
    using PersistBatch_clean [OF assms(1-5)] batch_columns_fields [OF assms(2)]
    by (simp add: settled_world_def payout_rows_def outbox_entry_def)
qed

section \<open>Witnesses\<close>

definition sample_batch :: "string \<Rightarrow> time \<Rightarrow> batch_row" where
  "sample_batch i start =
     \<lparr>bt_ID = i, bt_AccountID = ''acct'', bt_Currency = ''USD'', bt_WindowStart = start,
      bt_WindowEnd = start + 1000000, bt_TotalMinor = 2500, bt_TxnCount = 1,
      bt_Status = BatchStatusPending, bt_CreatedAt = 0\<rparr>"

definition sample_group :: captured_group where
  "sample_group = \<lparr>cg_AccountID = ''acct'', cg_Currency = ''USD'', cg_TotalMinor = 2500, cg_TxnCount = 1,
     cg_PaymentIDs = [''p'']\<rparr>"

lemma sample_batch_columns:
  "batch_columns sample_pg (sample_batch ''b'' 0) = Inr (sample_batch ''b'' 0)"
  "batch_columns sample_pg (sample_batch ''b'' 2000) = Inr (sample_batch ''b'' 2000)"
  "batch_columns sample_pg (sample_batch ''a'' 0) = Inr (sample_batch ''a'' 0)"
  by (simp_all add: batch_columns_def as_uuid_def as_char3_def sample_pg_def sample_batch_def)

theorem PersistBatch_atomic_witness:
  "\<exists>r w'. PersistBatch sample_pg 9 (sample_batch ''b'' 0) sample_group (Doc JNull) (Doc JNull)
       ((one_payment StateCaptured)\<lparr>script := [Done, Done, Done, Refused ''x'']\<rparr>) = (r, w') \<and>
     length (batches w') \<le> 1"
proof -
  let ?w = "(one_payment StateCaptured)\<lparr>script := [Done, Done, Done, Refused ''x'']\<rparr>"
  obtain r w' where run: "PersistBatch sample_pg 9 (sample_batch ''b'' 0) sample_group (Doc JNull)
      (Doc JNull) ?w = (r, w')" by (rule prod.exhaust)
  have same: "length (batches w') = length (batches v)" if "visible w' = visible v" for v
    using arg_cong [OF that, of batches] by (simp add: visible_def)
  have none: "batches ?w = []" and none': "batches (one_payment StateCaptured) = []"
    by (simp_all add: one_payment_def empty_world_def)
  have "length (batches w') \<le> 1"
    using PersistBatch_atomic [OF run] by (elim disjE conjE exE) (simp_all add: same none none')
  with run show ?thesis by blast
qed

theorem window_settled_once_witness:
  "\<exists>r w'. PersistBatch sample_pg 9 (sample_batch ''a'' 0) sample_group (Doc JNull) (Doc JNull)
       (empty_world\<lparr>batches := [sample_batch ''b'' 0]\<rparr>) = (r, w') \<and> r \<noteq> Inr False"
proof -
  obtain r w' where run: "PersistBatch sample_pg 9 (sample_batch ''a'' 0) sample_group (Doc JNull)
      (Doc JNull) (empty_world\<lparr>batches := [sample_batch ''b'' 0]\<rparr>) = (r, w')" by (rule prod.exhaust)
  have "sample_batch ''b'' 0 \<in> set (batches (empty_world\<lparr>batches := [sample_batch ''b'' 0]\<rparr>))"
    "same_window (sample_batch ''b'' 0) (sample_batch ''a'' 0)"
    by (simp_all add: same_window_def sample_batch_def)
  from window_settled_once [OF sample_batch_columns(3) this run] run show ?thesis by blast
qed

theorem stale_group_paid_twice_witness:
  "\<exists>w'. PersistBatch sample_pg 9 (sample_batch ''b'' 2000) sample_group (Doc JNull) (Doc JNull)
       ((one_payment StateSettled)\<lparr>batches := [sample_batch ''a'' 0]\<rparr>) = (Inr False, w') \<and>
     sum_list (map (\<lambda>b. sint (bt_TotalMinor b)) (batches w')) = 5000 \<and> sum_minor (txns w') = 2500"
proof -
  let ?w = "(one_payment StateSettled)\<lparr>batches := [sample_batch ''a'' 0]\<rparr>"
  have "script ?w = []" "\<forall>b \<in> set (batches ?w). \<not> same_window b (sample_batch ''b'' 2000)"
    "bt_ID (sample_batch ''b'' 2000) \<notin> bt_ID ` set (batches ?w)"
    "uuid_array sample_pg (cg_PaymentIDs sample_group) = Inr [''p'']"
    "\<forall>t \<in> set (txns ?w). PaymentID t \<in> set [''p''] \<longrightarrow> State t = StateSettled"
    by (simp_all add: one_payment_def empty_world_def same_window_def sample_batch_def sample_group_def
        as_uuid_def sample_pg_def)
  from stale_group_paid_twice [OF this(1) sample_batch_columns(2) this(2-5), of 9 JNull JNull]
  show ?thesis
    by (auto simp: one_payment_def sum_minor_def sample_txn_def sample_batch_def)
qed

end
