(* ===== verification/Settlement_Engine.thy ===== *)
theory Settlement_Engine
  imports Settlement_Store
begin

text \<open>
  \<open>internal/settlement/engine.go\<close>: \<open>processGroup\<close>, \<open>settle\<close> and the ticks of \<open>Run\<close>.

  \<^item> The store is an argument (its two methods, over a state of any type), as the engine only knows the
    interface. The locale \<open>settlement_store\<close> states what the engine needs of it to keep an
    invariant, and is interpreted with the Postgres store and the conservation of money.
  \<^item> \<open>draw\<close> gives the UUIDs and the clock a group is processed with.
  \<^item> Instants are unbounded integers in nanoseconds; \<open>Time.Sub\<close> saturates at the range of a duration.
\<close>

type_synonym 's aggregator = "time \<Rightarrow> time \<Rightarrow> 's \<Rightarrow> (goerr + captured_group list) \<times> 's"
type_synonym 's persister =
  "batch_row \<Rightarrow> captured_group \<Rightarrow> payload \<Rightarrow> payload \<Rightarrow> 's \<Rightarrow> (goerr + bool) \<times> 's"

record drawn =
  dr_batch_id :: string
  dr_payout_id :: string
  dr_now :: time

record engine_config =
  WindowSize :: int64
  Buffer :: int64
  Interval :: int64

text \<open>The engine without its store and logger; the end of the last window starts as the zero time.\<close>

record pg_engine =
  en_cfg :: engine_config
  en_lastWindowEnd :: time

definition New :: "engine_config \<Rightarrow> pg_engine" where
  "New cfg = \<lparr>en_cfg = cfg, en_lastWindowEnd = zero_time\<rparr>"

section \<open>One group\<close>

definition marshal_time_error :: goerr where
  "marshal_time_error = Plain ''json: error calling MarshalJSON for type time.Time''"

definition settled_event ::
  "codec \<Rightarrow> string \<Rightarrow> captured_group \<Rightarrow> time \<Rightarrow> time \<Rightarrow> goerr + json" where
  "settled_event c batchID g windowStart windowEnd =
     (case (fmt_time c windowStart, fmt_time c windowEnd) of
        (Some a, Some b) \<Rightarrow>
          Inr (JObj [(''batch_id'', JStr batchID), (''account_id'', JStr (cg_AccountID g)),
                     (''currency'', JStr (cg_Currency g)), (''window_start'', JStr a),
                     (''window_end'', JStr b), (''total_minor'', JNum (sint (cg_TotalMinor g))),
                     (''txn_count'', JNum (cg_TxnCount g))])
      | _ \<Rightarrow> Inl marshal_time_error)"

definition payout_event ::
  "codec \<Rightarrow> string \<Rightarrow> string \<Rightarrow> captured_group \<Rightarrow> time \<Rightarrow> goerr + json" where
  "payout_event c payoutID batchID g now =
     (case fmt_time c now of
        None \<Rightarrow> Inl marshal_time_error
      | Some a \<Rightarrow>
          Inr (JObj [(''payout_id'', JStr payoutID), (''batch_id'', JStr batchID),
                     (''account_id'', JStr (cg_AccountID g)), (''currency'', JStr (cg_Currency g)),
                     (''total_minor'', JNum (sint (cg_TotalMinor g))), (''requested_at'', JStr a)]))"

definition group_batch :: "drawn \<Rightarrow> captured_group \<Rightarrow> time \<Rightarrow> time \<Rightarrow> batch_row" where
  "group_batch d g windowStart windowEnd =
     \<lparr>bt_ID = dr_batch_id d, bt_AccountID = cg_AccountID g, bt_Currency = cg_Currency g,
      bt_WindowStart = windowStart, bt_WindowEnd = windowEnd, bt_TotalMinor = cg_TotalMinor g,
      bt_TxnCount = cg_TxnCount g, bt_Status = BatchStatusPending, bt_CreatedAt = dr_now d\<rparr>"

definition processGroup ::
  "codec \<Rightarrow> 's persister \<Rightarrow> drawn \<Rightarrow> captured_group \<Rightarrow> time \<Rightarrow> time \<Rightarrow> 's \<Rightarrow> goerr option \<times> 's" where
  "processGroup c persist d g windowStart windowEnd s =
     (let batch = group_batch d g windowStart windowEnd
      in case settled_event c (dr_batch_id d) g windowStart windowEnd of
           Inl err \<Rightarrow> (Some (Wrap ''marshal settled event: '' err), s)
         | Inr settledPayload \<Rightarrow>
             (case payout_event c (dr_payout_id d) (dr_batch_id d) g (dr_now d) of
                Inl err \<Rightarrow> (Some (Wrap ''marshal payout event: '' err), s)
              | Inr payoutPayload \<Rightarrow>
                  (case persist batch g (Doc settledPayload) (Doc payoutPayload) s of
                     (Inl err, s1) \<Rightarrow>
                       (Some (Wrap (''persist batch (account='' @ cg_AccountID g @ '' currency='' @
                                    cg_Currency g @ ''): '') err), s1)
                   | (Inr alreadyExisted, s1) \<Rightarrow> (None, s1))))"

section \<open>One window\<close>

text \<open>The error of a group is logged, and the loop goes on.\<close>

fun process_groups ::
  "codec \<Rightarrow> 's persister \<Rightarrow> (captured_group \<Rightarrow> drawn) \<Rightarrow> time \<Rightarrow> time \<Rightarrow> captured_group list \<Rightarrow> 's \<Rightarrow> 's" where
  "process_groups c persist draw windowStart windowEnd [] s = s"
| "process_groups c persist draw windowStart windowEnd (g # gs) s =
     process_groups c persist draw windowStart windowEnd gs
       (snd (processGroup c persist (draw g) g windowStart windowEnd s))"

definition settle ::
  "codec \<Rightarrow> 's aggregator \<Rightarrow> 's persister \<Rightarrow> (captured_group \<Rightarrow> drawn) \<Rightarrow> time \<Rightarrow> time \<Rightarrow> 's \<Rightarrow>
   goerr option \<times> 's" where
  "settle c aggregate persist draw windowStart windowEnd s =
     (case aggregate windowStart windowEnd s of
        (Inl err, s1) \<Rightarrow> (Some (Wrap ''aggregate captured: '' err), s1)
      | (Inr groups, s1) \<Rightarrow>
          if groups = [] then (None, s1)
          else (None, process_groups c persist draw windowStart windowEnd groups s1))"

section \<open>The ticks\<close>

definition time_sub :: "time \<Rightarrow> time \<Rightarrow> int" where
  "time_sub a b = max min_int64 (min max_int64 (a - b))"

text \<open>The state of \<open>Run\<close> is \<open>lastWindowEnd\<close> and the store; the zero instant stands for "none yet".\<close>

definition engine_tick ::
  "engine_config \<Rightarrow> (time \<Rightarrow> time \<Rightarrow> 's \<Rightarrow> goerr option \<times> 's) \<Rightarrow> time \<Rightarrow> time \<times> 's \<Rightarrow> time \<times> 's" where
  "engine_tick cfg settle_window tick st =
     (let windowEnd = tick + sint (- Buffer cfg);
          lastWindowEnd = (if fst st = zero_time then windowEnd + sint (- WindowSize cfg) else fst st);
          windowStart = lastWindowEnd
      in if time_sub windowEnd windowStart < sint (WindowSize cfg) then (lastWindowEnd, snd st)
         else
           (case settle_window windowStart windowEnd (snd st) of
              (Some err, s1) \<Rightarrow> (lastWindowEnd, s1)
            | (None, s1) \<Rightarrow> (windowEnd, s1)))"

datatype engine_event = EngineTick time | EngineDone goerr

text \<open>The first component is what \<open>Run\<close> returned, if it did.\<close>

fun engine_run ::
  "engine_config \<Rightarrow> (time \<Rightarrow> time \<Rightarrow> 's \<Rightarrow> goerr option \<times> 's) \<Rightarrow> engine_event list \<Rightarrow> time \<times> 's \<Rightarrow>
   goerr option \<times> (time \<times> 's)" where
  "engine_run cfg settle_window [] st = (None, st)"
| "engine_run cfg settle_window (EngineTick tick # es) st =
     engine_run cfg settle_window es (engine_tick cfg settle_window tick st)"
| "engine_run cfg settle_window (EngineDone err # es) st = (Some err, st)"

text \<open>What every settlement of a window keeps, the engine keeps.\<close>

lemma engine_run_keeps:
  assumes "\<And>a b s e s'. settle_window a b s = (e, s') \<Longrightarrow> I s \<Longrightarrow> I s'"
  shows "engine_run cfg settle_window es (t, s) = (r, (t', s')) \<Longrightarrow> I s \<Longrightarrow> I s'"
proof (induction es arbitrary: t s)
  case Nil
  then show ?case by simp
next
  case (Cons e es)
  show ?case
  proof (cases e)
    case (EngineTick tick)
    obtain t1 s1 where tick: "engine_tick cfg settle_window tick (t, s) = (t1, s1)" by (rule prod.exhaust)
    then have "I s1"
      using Cons.prems(2) assms
      by (auto simp: engine_tick_def Let_def split: if_splits prod.splits option.splits)
    with Cons EngineTick tick show ?thesis by simp
  qed (use Cons.prems in simp)
qed

section \<open>What the engine needs of its store\<close>

definition cg_key :: "captured_group \<Rightarrow> string \<times> string" where
  "cg_key g = (cg_AccountID g, cg_Currency g)"

text \<open>
  \<open>current g s\<close>: in state \<open>s\<close> the group still describes captured payments. The laws: an aggregation
  gives current groups with different keys, persisting the batch of a current group keeps the
  invariant and does not disturb the groups with other keys.
\<close>

locale settlement_store =
  fixes aggregate :: "'s aggregator" and persist :: "'s persister"
    and I :: "'s \<Rightarrow> bool" and current :: "captured_group \<Rightarrow> 's \<Rightarrow> bool"
  assumes aggregate_keeps: "aggregate a b s = (ra, s') \<Longrightarrow> I s \<Longrightarrow> I s'"
    and aggregate_current: "aggregate a b s = (Inr gs, s') \<Longrightarrow> I s \<Longrightarrow>
      distinct (map cg_key gs) \<and> (\<forall>g \<in> set gs. current g s')"
    and persist_keeps: "persist batch g ps pp s = (r, s') \<Longrightarrow> I s \<Longrightarrow> current g s \<Longrightarrow>
      bt_AccountID batch = cg_AccountID g \<Longrightarrow> bt_Currency batch = cg_Currency g \<Longrightarrow>
      bt_TotalMinor batch = cg_TotalMinor g \<Longrightarrow> I s'"
    and persist_others: "persist batch g ps pp s = (r, s') \<Longrightarrow> I s \<Longrightarrow> current g s \<Longrightarrow>
      current g' s \<Longrightarrow> cg_key g' \<noteq> cg_key g \<Longrightarrow> current g' s'"
begin

lemma processGroup_keeps:
  assumes "processGroup c persist d g a b s = (r, s')" "I s" "current g s"
  shows "I s'" and "current g' s \<Longrightarrow> cg_key g' \<noteq> cg_key g \<Longrightarrow> current g' s'"
proof -
  have "s' = s \<or> (\<exists>ps pp x. persist (group_batch d g a b) g ps pp s = (x, s'))"
    using assms(1) unfolding processGroup_def Let_def by (auto split: sum.splits prod.splits)
  then show "I s'" "current g' s \<Longrightarrow> cg_key g' \<noteq> cg_key g \<Longrightarrow> current g' s'"
    using assms(2,3) persist_keeps persist_others by (fastforce simp: group_batch_def)+
qed

lemma process_groups_keeps:
  "I s \<Longrightarrow> distinct (map cg_key gs) \<Longrightarrow> \<forall>g \<in> set gs. current g s \<Longrightarrow>
   I (process_groups c persist draw a b gs s)"
proof (induction gs arbitrary: s)
  case Nil
  then show ?case by simp
next
  case (Cons g gs)
  obtain r s1 where run: "processGroup c persist (draw g) g a b s = (r, s1)" by (rule prod.exhaust)
  have "I s1" using processGroup_keeps(1) [OF run] Cons.prems by simp
  moreover have "\<forall>g' \<in> set gs. current g' s1"
  proof
    fix g' assume g': "g' \<in> set gs"
    with Cons.prems(2) have "cg_key g' \<noteq> cg_key g" by (auto simp: image_iff)
    with g' Cons.prems show "current g' s1"
      by (intro processGroup_keeps(2) [OF run]) simp_all
  qed
  ultimately show ?case using Cons.IH [of s1] Cons.prems(2) run by simp
qed

lemma settle_keeps:
  assumes "settle c aggregate persist draw a b s = (r, s')" "I s"
  shows "I s'"
proof -
  obtain x s1 where agg: "aggregate a b s = (x, s1)" by (rule prod.exhaust)
  have s1: "I s1" using aggregate_keeps [OF agg assms(2)] .
  show ?thesis
  proof (cases x)
    case (Inl err)
    with assms(1) agg s1 show ?thesis by (simp add: settle_def)
  next
    case (Inr gs)
    with assms(1) agg s1 aggregate_current [OF agg [unfolded Inr] assms(2)] show ?thesis
      by (auto simp: settle_def intro: process_groups_keeps split: if_splits)
  qed
qed

end

section \<open>Windows\<close>

text \<open>A store that writes down the windows it settles; \<open>works\<close> tells which attempts succeed.\<close>

definition log_window ::
  "(time \<Rightarrow> time \<Rightarrow> bool) \<Rightarrow> time \<Rightarrow> time \<Rightarrow> (time \<times> time) list \<Rightarrow> goerr option \<times> (time \<times> time) list" where
  "log_window works a b ws =
     (if works a b then (None, ws @ [(a, b)]) else (Some (Plain ''down''), ws))"

fun tiled :: "time \<Rightarrow> (time \<times> time) list \<Rightarrow> time \<Rightarrow> bool" where
  "tiled start [] stop \<longleftrightarrow> start = stop"
| "tiled start ((a, b) # ws) stop \<longleftrightarrow> a = start \<and> tiled b ws stop"

lemma tiled_snoc: "tiled start ws a \<Longrightarrow> tiled start (ws @ [(a, b)]) b"
  by (induction ws arbitrary: start) auto

lemma engine_run_tiles:
  assumes "engine_run cfg (log_window works) es (t, ws) = (r, (stop, ws'))" "t \<noteq> zero_time"
    and "\<forall>tick. EngineTick tick \<in> set es \<longrightarrow> tick + sint (- Buffer cfg) \<noteq> zero_time"
    and "tiled start ws t" "\<forall>(a, b) \<in> set ws. sint (WindowSize cfg) \<le> time_sub b a"
  shows "tiled start ws' stop \<and> (\<forall>(a, b) \<in> set ws'. sint (WindowSize cfg) \<le> time_sub b a)"
  using assms
proof (induction es arbitrary: t ws)
  case Nil
  then show ?case by simp
next
  case (Cons e es)
  show ?case
  proof (cases e)
    case (EngineTick tick)
    let ?until = "tick + sint (- Buffer cfg)"
    have ok: "?until \<noteq> zero_time" using Cons.prems(3) EngineTick by simp
    have rest: "\<forall>tick. EngineTick tick \<in> set es \<longrightarrow> tick + sint (- Buffer cfg) \<noteq> zero_time"
      using Cons.prems(3) by simp
    show ?thesis
    proof (cases "time_sub ?until t < sint (WindowSize cfg) \<or> \<not> works t ?until")
      case True
      then have "engine_tick cfg (log_window works) tick (t, ws) = (t, ws)"
        using Cons.prems(2) by (auto simp: engine_tick_def log_window_def Let_def)
      with Cons.IH [OF _ Cons.prems(2) rest Cons.prems(4,5)] Cons.prems(1) EngineTick
      show ?thesis by simp
    next
      case False
      then have "engine_tick cfg (log_window works) tick (t, ws) = (?until, ws @ [(t, ?until)])"
        using Cons.prems(2) by (auto simp: engine_tick_def log_window_def Let_def)
      moreover have "tiled start (ws @ [(t, ?until)]) ?until" using Cons.prems(4) by (rule tiled_snoc)
      moreover have "\<forall>(a, b) \<in> set (ws @ [(t, ?until)]). sint (WindowSize cfg) \<le> time_sub b a"
        using Cons.prems(5) False by auto
      ultimately show ?thesis
        using Cons.IH [OF _ ok rest] Cons.prems(1) EngineTick by simp
    qed
  qed (use Cons.prems in simp)
qed

text \<open>Where the first window of a run starts: a process that has settled nothing yet opens it at its first tick.\<close>

fun first_start :: "engine_config \<Rightarrow> engine_event list \<Rightarrow> time \<Rightarrow> time" where
  "first_start cfg (EngineTick tick # es) t =
     (if t = zero_time then tick + sint (- Buffer cfg) + sint (- WindowSize cfg) else t)"
| "first_start cfg es t = t"

lemma engine_run_first_start:
  assumes "first_start cfg es t \<noteq> zero_time"
  shows "engine_run cfg settle_window es (t, s) = engine_run cfg settle_window es (first_start cfg es t, s)"
proof (cases "t = zero_time")
  case True
  with assms show ?thesis
    by (cases "(cfg, es, t)" rule: first_start.cases) (auto simp: engine_tick_def Let_def)
next
  case False
  then have "first_start cfg es t = t" by (cases "(cfg, es, t)" rule: first_start.cases) auto
  then show ?thesis by simp
qed

text \<open>
  C30. The windows the engine settles tile the time line, also when some attempts fail, the very first one
  included: the first window starts where the engine stands, or for an engine that \<open>New\<close> has just made at its
  first tick less the buffer and the window size; each further one starts where the last settled one ended, none is
  shorter than the configured size, and the end of the last one is what the engine remembers. So no instant
  after that start is skipped or covered twice. The hypotheses exclude only clocks at which a boundary of a window
  is Go's zero time, the beginning of the year 1, which the engine takes for not set.
\<close>

theorem windows_tile:
  assumes "engine_run cfg (log_window works) es (start, []) = (r, (stop, ws))"
    and "first_start cfg es start \<noteq> zero_time"
    and "\<forall>tick. EngineTick tick \<in> set es \<longrightarrow> tick + sint (- Buffer cfg) \<noteq> zero_time"
  shows "tiled (first_start cfg es start) ws stop \<and> (\<forall>(a, b) \<in> set ws. sint (WindowSize cfg) \<le> time_sub b a)"
  using engine_run_tiles [OF _ assms(2,3)] assms(1) engine_run_first_start [OF assms(2), of "log_window works" "[]"]
  by simp

definition hourly :: engine_config where
  "hourly = \<lparr>WindowSize = 3600, Buffer = 300, Interval = 60\<rparr>"

text \<open>A fresh engine whose first attempt fails: the second one covers the window of the first.\<close>

theorem windows_tile_witness:
  "tiled 100 [(100, 3760), (3760, 7400)] 7400 \<and>
   snd (engine_run hourly (log_window (\<lambda>a b. b \<noteq> 3700)) (map EngineTick [4000, 4060, 4120, 7700])
     (en_lastWindowEnd (New hourly), [])) = (7400, [(100, 3760), (3760, 7400)])"
proof -
  have run: "engine_run hourly (log_window (\<lambda>a b. b \<noteq> 3700)) (map EngineTick [4000, 4060, 4120, 7700])
      (zero_time, []) = (None, (7400, [(100, 3760), (3760, 7400)]))"
    by (simp add: engine_tick_def hourly_def log_window_def Let_def time_sub_def zero_time_def
        max_int64_def min_int64_def)
  have "tiled 100 [(100, 3760), (3760, 7400)] 7400"
    using windows_tile [OF run] by (simp add: zero_time_def hourly_def)
  with run show ?thesis by (simp add: New_def)
qed

section \<open>Conservation of money\<close>

text \<open>Per account and currency, the batches add up to the settled payments.\<close>

definition is_settled :: "string \<times> string \<Rightarrow> transaction \<Rightarrow> bool" where
  "is_settled k r \<longleftrightarrow> group_key r = k \<and> (State r = StateSettled \<or> State r = StateReconciled)"

definition batch_key :: "batch_row \<Rightarrow> string \<times> string" where
  "batch_key b = (bt_AccountID b, bt_Currency b)"

definition batched :: "string \<times> string \<Rightarrow> batch_row list \<Rightarrow> int" where
  "batched k bs = sum_list (map (\<lambda>b. sint (bt_TotalMinor b)) (filter (\<lambda>b. batch_key b = k) bs))"

definition stored_columns :: "pgtypes \<Rightarrow> world \<Rightarrow> bool" where
  "stored_columns pg w \<longleftrightarrow>
     (\<forall>r \<in> set (txns w). uuid_in pg (PaymentID r) = Some (PaymentID r) \<and>
        char3_in pg (Currency (Amount r)) = Some (Currency (Amount r)))"

definition conserved :: "pgtypes \<Rightarrow> world \<Rightarrow> bool" where
  "conserved pg w \<longleftrightarrow>
     distinct (map PaymentID (txns w)) \<and> stored_columns pg w \<and>
     (\<forall>k. batched k (batches w) = sum_minor (filter (is_settled k) (txns w)))"

definition group_rows :: "captured_group \<Rightarrow> world \<Rightarrow> transaction list" where
  "group_rows g w = filter (\<lambda>r. PaymentID r \<in> set (cg_PaymentIDs g)) (txns w)"

definition current_group :: "pgtypes \<Rightarrow> captured_group \<Rightarrow> world \<Rightarrow> bool" where
  "current_group pg g w \<longleftrightarrow>
     uuid_array pg (cg_PaymentIDs g) = Inr (cg_PaymentIDs g) \<and>
     char3_in pg (cg_Currency g) = Some (cg_Currency g) \<and>
     (\<forall>r \<in> set (group_rows g w). State r = StateCaptured \<and> group_key r = cg_key g) \<and>
     sint (cg_TotalMinor g) = sum_minor (group_rows g w)"

interpretation conservation: world_invariant "conserved pg" for pg
  by unfold_locales (simp_all add: conserved_def stored_columns_def)

lemma uuid_array_self: "\<forall>s \<in> set ss. uuid_in pg s = Some s \<Longrightarrow> uuid_array pg ss = Inr ss"
  by (induction ss) (simp_all add: as_uuid_def)

lemma sum_minor_settled:
  "sum_minor (filter (is_settled k) (settled_txns now us rows)) =
   sum_minor (filter (is_settled k) rows) +
   sum_minor (filter (\<lambda>r. PaymentID r \<in> set us \<and> State r = StateCaptured \<and> group_key r = k) rows)"
proof (induction rows)
  case Nil
  then show ?case by (simp add: sum_minor_def settled_txns_def)
next
  case (Cons r rows)
  have c: "StateCaptured \<noteq> StateSettled" "StateCaptured \<noteq> StateReconciled"
    by (simp_all add: StateCaptured_def StateSettled_def StateReconciled_def)
  show ?case
  proof (cases "PaymentID r \<in> set us \<and> State r = StateCaptured")
    case True
    with Cons c show ?thesis
      by (cases "group_key r = k") (simp_all add: sum_minor_def settled_txns_def is_settled_def group_key_def)
  next
    case False
    with Cons show ?thesis
      by (cases "is_settled k r") (auto simp: sum_minor_def settled_txns_def)
  qed
qed

lemma settled_txns_ids [simp]: "map PaymentID (settled_txns now us rows) = map PaymentID rows"
  by (simp add: settled_txns_def map_update_where)

lemma settled_txns_columns:
  "(\<forall>r \<in> set (settled_txns now us rows). uuid_in pg (PaymentID r) = Some (PaymentID r) \<and>
      char3_in pg (Currency (Amount r)) = Some (Currency (Amount r))) \<longleftrightarrow>
   (\<forall>r \<in> set rows. uuid_in pg (PaymentID r) = Some (PaymentID r) \<and>
      char3_in pg (Currency (Amount r)) = Some (Currency (Amount r)))"
  by (induction rows) (auto simp: settled_txns_def)

lemma settled_txns_others:
  "\<forall>r \<in> set rows. P (PaymentID r) \<longrightarrow> \<not> (PaymentID r \<in> set us \<and> State r = StateCaptured) \<Longrightarrow>
   filter (\<lambda>r. P (PaymentID r)) (settled_txns now us rows) = filter (\<lambda>r. P (PaymentID r)) rows"
  by (induction rows) (auto simp: settled_txns_def)

text \<open>Persisting a current group moves exactly its money.\<close>

lemma conserved_settled_world:
  assumes "conserved pg w" "current_group pg g w" "batch_columns pg b = Inr row"
    and "bt_AccountID b = cg_AccountID g" "bt_Currency b = cg_Currency g" "bt_TotalMinor b = cg_TotalMinor g"
  shows "conserved pg (settled_world pg now row (cg_PaymentIDs g) js jp w)"
proof -
  note cols = batch_columns_fields [OF assms(3)]
  have key: "batch_key row = cg_key g"
    using cols assms(2,4,5) by (simp add: batch_key_def cg_key_def current_group_def)
  have rows: "\<forall>r \<in> set (group_rows g w). State r = StateCaptured \<and> group_key r = cg_key g"
    "sint (cg_TotalMinor g) = sum_minor (group_rows g w)"
    using assms(2) by (simp_all add: current_group_def)
  have moved: "filter (\<lambda>r. PaymentID r \<in> set (cg_PaymentIDs g) \<and> State r = StateCaptured \<and> group_key r = k)
      (txns w) = (if k = cg_key g then group_rows g w else [])" for k
    using rows(1) unfolding group_rows_def by (auto intro!: filter_cong filter_none)
  have "batched k (batches w @ [row]) = sum_minor (filter (is_settled k) (settled_txns now (cg_PaymentIDs g) (txns w)))"
    for k
  proof -
    have old: "batched k (batches w) = sum_minor (filter (is_settled k) (txns w))"
      using assms(1) unfolding conserved_def by (elim conjE allE) assumption
    have "batched k (batches w @ [row]) =
        batched k (batches w) + (if k = cg_key g then sint (cg_TotalMinor g) else 0)"
      using assms(6) cols key by (simp add: batched_def)
    with old rows(2) show ?thesis
      unfolding sum_minor_settled moved by (simp add: sum_minor_def)
  qed
  with assms(1) show ?thesis
    unfolding conserved_def stored_columns_def settled_world_def
    by (simp add: settled_txns_columns)
qed

lemma PersistBatch_conserves:
  assumes "PersistBatch pg now b g ps pp w = (r, w')" "conserved pg w" "current_group pg g w"
    and "bt_AccountID b = cg_AccountID g" "bt_Currency b = cg_Currency g" "bt_TotalMinor b = cg_TotalMinor g"
  shows "conserved pg w'"
  using assms(1)
proof (cases rule: PersistBatch_cases)
  case unchanged
  then show ?thesis using assms(2) by (simp add: conservation.idle_keeps)
next
  case (saved row us js jp s)
  from assms(3) saved(4) have "us = cg_PaymentIDs g" by (simp add: current_group_def)
  with conserved_settled_world [OF assms(2,3) saved(2) assms(4-6)] show ?thesis
    unfolding saved(7) by (simp only: conservation.script_blind)
qed

lemma PersistBatch_others:
  assumes "PersistBatch pg now b g ps pp w = (r, w')" "current_group pg g w"
    and "current_group pg g' w" "cg_key g' \<noteq> cg_key g"
  shows "current_group pg g' w'"
  using assms(1)
proof (cases rule: PersistBatch_cases)
  case unchanged
  then show ?thesis using assms(3) by (simp add: current_group_def group_rows_def idle_tables)
next
  case (saved row us js jp s)
  from assms(2) saved(4) have us: "us = cg_PaymentIDs g" by (simp add: current_group_def)
  have "\<forall>r \<in> set (txns w). PaymentID r \<in> set (cg_PaymentIDs g') \<longrightarrow>
      \<not> (PaymentID r \<in> set us \<and> State r = StateCaptured)"
    using assms(2-4) us by (auto simp: current_group_def group_rows_def)
  from settled_txns_others [OF this] have "group_rows g' w' = group_rows g' w"
    unfolding saved(7) by (simp add: group_rows_def settled_world_def)
  with assms(3) show ?thesis by (simp add: current_group_def)
qed

lemma filter_key_self:
  "distinct (map key xs) \<Longrightarrow> filter (\<lambda>r. key r \<in> key ` set (filter P xs)) xs = filter P xs"
  by (rule filter_cong [OF refl]) (auto dest: distinct_map_unique)

text \<open>A scanned result has one current group per key.\<close>

lemma scan_groups_current:
  "scan_groups gs = Inr groups \<Longrightarrow> map cg_key groups = map fst gs \<and> (\<forall>g \<in> set groups.
    \<exists>rows. (cg_key g, rows) \<in> set gs \<and> cg_PaymentIDs g = map PaymentID rows \<and>
       sint (cg_TotalMinor g) = sum_minor rows)"
proof (induction gs arbitrary: groups)
  case Nil
  then show ?case by simp
next
  case (Cons x gs)
  obtain k rows where x: "x = (k, rows)" by (cases x)
  with Cons.prems obtain groups' where rest: "scan_groups gs = Inr groups'" "in_int64 (sum_minor rows)"
    "groups = \<lparr>cg_AccountID = fst k, cg_Currency = snd k, cg_TotalMinor = word_of_int (sum_minor rows),
       cg_TxnCount = int (length rows), cg_PaymentIDs = map PaymentID rows\<rparr> # groups'"
    by (auto split: if_splits sum.splits)
  from Cons.IH [OF rest(1)] x rest(2,3) show ?case
    by (auto simp: cg_key_def sint_of_int64)
qed

lemma AggregateCaptured_result:
  assumes "AggregateCaptured pg a b w = (r, w')"
  shows "idle w w' \<and> (\<forall>groups. r = Inr groups \<longrightarrow> scan_groups (select_groups pg a b w) = Inr groups)"
proof -
  obtain x w1 where c: "call (\<lambda>w. Inr (select_groups pg a b w, w)) w = (x, w1)" by (rule prod.exhaust)
  have w1: "idle w w1" using c by (cases rule: call_cases) auto
  show ?thesis
  proof (cases x)
    case (Inl err)
    with assms c w1 show ?thesis by (auto simp: AggregateCaptured_def)
  next
    case (Inr rows)
    from c [unfolded Inr] have rows: "rows = select_groups pg a b w"
      by (rule call_success) (auto simp: select_groups_def)
    show ?thesis
    proof (cases "scan_groups rows")
      case (Inl err)
      with assms c Inr w1 show ?thesis by (auto simp: AggregateCaptured_def)
    next
      case sc: (Inr groups)
      with assms c Inr have last: "call (\<lambda>w. Inr (groups, w)) w1 = (r, w')"
        by (simp add: AggregateCaptured_def)
      then have "idle w1 w' \<and> (\<forall>gs. r = Inr gs \<longrightarrow> gs = groups)" by (cases rule: call_cases) auto
      with w1 sc rows show ?thesis by (auto intro: idle_trans)
    qed
  qed
qed

lemma select_groups_keys: "distinct (map fst (select_groups pg a b w))"
  by (simp add: select_groups_def Let_def comp_def)

lemma AggregateCaptured_current:
  assumes "AggregateCaptured pg a b w = (Inr groups, w')" "conserved pg w"
  shows "distinct (map cg_key groups) \<and> (\<forall>g \<in> set groups. current_group pg g w')"
proof -
  have res: "idle w w'" "scan_groups (select_groups pg a b w) = Inr groups"
    using AggregateCaptured_result [OF assms(1)] by simp_all
  note scanned = scan_groups_current [OF res(2)]
  have ids: "distinct (map PaymentID (txns w))" "stored_columns pg w"
    using assms(2) by (simp_all add: conserved_def)
  have "current_group pg g w" if "g \<in> set groups" for g
  proof -
    let ?P = "\<lambda>r. in_window pg a b r \<and> group_key r = cg_key g"
    from scanned that obtain rows where rows: "(cg_key g, rows) \<in> set (select_groups pg a b w)"
      "cg_PaymentIDs g = map PaymentID rows" "sint (cg_TotalMinor g) = sum_minor rows" by blast
    then have flt: "rows = filter ?P (txns w)" and "cg_key g \<in> group_key ` set (txns w)"
      by (auto simp: select_groups_def Let_def conj_commute)
    then obtain r where r: "r \<in> set (txns w)" "group_key r = cg_key g" by auto
    have "group_rows g w = rows"
      unfolding group_rows_def rows(2) flt using filter_key_self [OF ids(1), of ?P] by simp
    moreover have "\<forall>r \<in> set rows. State r = StateCaptured \<and> group_key r = cg_key g"
      unfolding flt by (simp add: in_window_def)
    moreover have "uuid_array pg (cg_PaymentIDs g) = Inr (cg_PaymentIDs g)"
      unfolding rows(2) flt using ids(2) by (intro uuid_array_self) (auto simp: stored_columns_def)
    moreover have "char3_in pg (cg_Currency g) = Some (cg_Currency g)"
      using r ids(2) by (auto simp: stored_columns_def group_key_def cg_key_def)
    ultimately show ?thesis using rows(3) by (simp add: current_group_def)
  qed
  with scanned select_groups_keys [of pg a b w] show ?thesis
    by (simp add: current_group_def group_rows_def idle_tables [OF res(1)])
qed

lemma AggregateCaptured_idle: "AggregateCaptured pg a b w = (r, w') \<Longrightarrow> idle w w'"
  using AggregateCaptured_result by blast

interpretation settlement: settlement_store "AggregateCaptured pg" "PersistBatch pg now" "conserved pg"
    "current_group pg" for pg now
proof
  show "conserved pg s'" if "AggregateCaptured pg a b s = (ra, s')" "conserved pg s" for a b s ra s'
    using that conservation.idle_keeps AggregateCaptured_idle by blast
  show "distinct (map cg_key gs) \<and> (\<forall>g \<in> set gs. current_group pg g s')"
    if "AggregateCaptured pg a b s = (Inr gs, s')" "conserved pg s" for a b s gs s'
    using that by (rule AggregateCaptured_current)
  show "conserved pg s'"
    if "PersistBatch pg now batch g ps pp s = (r, s')" "conserved pg s" "current_group pg g s"
      "bt_AccountID batch = cg_AccountID g" "bt_Currency batch = cg_Currency g"
      "bt_TotalMinor batch = cg_TotalMinor g" for batch g ps pp s r s'
    using that by (rule PersistBatch_conserves)
  show "current_group pg g' s'"
    if "PersistBatch pg now batch g ps pp s = (r, s')" "conserved pg s" "current_group pg g s"
      "current_group pg g' s" "cg_key g' \<noteq> cg_key g" for batch g g' ps pp s r s'
    using that(1,3-5) by (rule PersistBatch_others)
qed

text \<open>An engine on a world with one captured payment.\<close>

definition sample_draw :: "time \<Rightarrow> time \<Rightarrow> captured_group \<Rightarrow> drawn" where
  "sample_draw a b g = \<lparr>dr_batch_id = ''b'' @ show_int b, dr_payout_id = ''q'', dr_now = b\<rparr>"

lemma one_payment_conserved: "conserved sample_pg (one_payment StateCaptured)"
proof -
  have "\<not> is_settled k ((sample_txn ''p'' ''k'')\<lparr>State := StateCaptured\<rparr>)" for k
    by (simp add: is_settled_def StateCaptured_def StateSettled_def StateReconciled_def)
  then show ?thesis
    by (simp add: conserved_def stored_columns_def one_payment_def empty_world_def batched_def sum_minor_def
        sample_txn_def sample_pg_def)
qed

section \<open>What a window has missed\<close>

text \<open>Settling a window leaves alone every payment outside of it.\<close>

definition untouched :: "pgtypes \<Rightarrow> time \<Rightarrow> time \<Rightarrow> transaction \<Rightarrow> world \<Rightarrow> bool" where
  "untouched pg a b r w \<longleftrightarrow>
     r \<in> set (txns w) \<and> distinct (map PaymentID (txns w)) \<and> stored_columns pg w \<and> \<not> in_window pg a b r"

definition spares :: "pgtypes \<Rightarrow> transaction \<Rightarrow> captured_group \<Rightarrow> world \<Rightarrow> bool" where
  "spares pg r g w \<longleftrightarrow>
     uuid_array pg (cg_PaymentIDs g) = Inr (cg_PaymentIDs g) \<and> PaymentID r \<notin> set (cg_PaymentIDs g)"

lemma untouched_idle: "idle w w' \<Longrightarrow> untouched pg a b r w \<Longrightarrow> untouched pg a b r w'"
  by (simp add: untouched_def stored_columns_def idle_tables)

lemma untouched_settled_world:
  assumes "untouched pg a b r w" "PaymentID r \<notin> set us"
  shows "untouched pg a b r (settled_world pg now row us js jp w)"
proof -
  have "r \<in> set (settled_txns now us (txns w))"
    using assms by (auto simp: untouched_def settled_txns_def set_update_where image_iff intro!: bexI [of _ r])
  with assms(1) show ?thesis
    by (simp add: untouched_def stored_columns_def settled_world_def settled_txns_columns)
qed

lemma aggregated_in_window:
  assumes "AggregateCaptured pg a b w = (Inr groups, w')" "untouched pg a b r w" "g \<in> set groups"
  shows "spares pg r g w'"
proof -
  have "scan_groups (select_groups pg a b w) = Inr groups"
    using AggregateCaptured_result [OF assms(1)] by simp
  with assms(3) scan_groups_current obtain rows where
    "(cg_key g, rows) \<in> set (select_groups pg a b w)" "cg_PaymentIDs g = map PaymentID rows" by blast
  then have ids: "cg_PaymentIDs g = map PaymentID (filter (\<lambda>x. in_window pg a b x \<and> group_key x = cg_key g) (txns w))"
    by (auto simp: select_groups_def Let_def conj_commute)
  have "PaymentID r \<notin> set (cg_PaymentIDs g)"
  proof
    assume "PaymentID r \<in> set (cg_PaymentIDs g)"
    then obtain x where x: "x \<in> set (txns w)" "in_window pg a b x" "PaymentID x = PaymentID r"
      unfolding ids by auto
    then have "x = r"
      using assms(2) distinct_map_unique [of PaymentID "txns w" x r] by (simp add: untouched_def)
    with x(2) assms(2) show False by (simp add: untouched_def)
  qed
  moreover have "uuid_array pg (cg_PaymentIDs g) = Inr (cg_PaymentIDs g)"
    unfolding ids using assms(2) by (intro uuid_array_self) (auto simp: untouched_def stored_columns_def)
  ultimately show ?thesis by (simp add: spares_def)
qed

interpretation outside: settlement_store "\<lambda>_ _. AggregateCaptured pg a b" "PersistBatch pg now"
    "untouched pg a b r" "spares pg r" for pg a b now r
proof
  show "untouched pg a b r s'" if "AggregateCaptured pg a b s = (ra, s')" "untouched pg a b r s"
    for ra s s'
    using that AggregateCaptured_idle untouched_idle by blast
  show "distinct (map cg_key gs) \<and> (\<forall>g \<in> set gs. spares pg r g s')"
    if "AggregateCaptured pg a b s = (Inr gs, s')" "untouched pg a b r s" for gs s s'
  proof -
    have "scan_groups (select_groups pg a b s) = Inr gs" using AggregateCaptured_result [OF that(1)] by simp
    with scan_groups_current select_groups_keys [of pg a b s] have "distinct (map cg_key gs)" by metis
    with aggregated_in_window [OF that] show ?thesis by simp
  qed
  show "untouched pg a b r s'"
    if "PersistBatch pg now batch g ps pp s = (x, s')" "untouched pg a b r s" "spares pg r g s"
    for batch g ps pp s x s'
    using that(1)
  proof (cases rule: PersistBatch_cases)
    case unchanged
    then show ?thesis using that(2) untouched_idle by blast
  next
    case (saved row us js jp z)
    with that(3) have "PaymentID r \<notin> set us" by (simp add: spares_def)
    from untouched_settled_world [OF that(2) this] show ?thesis
      unfolding saved(7) by (simp add: untouched_def stored_columns_def)
  qed
qed (simp add: spares_def)

lemma settle_outside:
  assumes "settle c (AggregateCaptured pg) (PersistBatch pg now) draw a b w = (e, w')" "untouched pg a b r w"
  shows "untouched pg a b r w'"
proof -
  have "settle c (\<lambda>_ _. AggregateCaptured pg a b) (PersistBatch pg now) draw a b w = (e, w')"
    using assms(1) by (simp add: settle_def)
  from outside.settle_keeps [OF this assms(2)] show ?thesis .
qed

lemma tick_forward:
  assumes "engine_tick cfg settle_window tick (t, s) = (t', s')" "zero_time < t" "0 \<le> sint (WindowSize cfg)"
  shows "t \<le> t' \<and> (s' = s \<or> (\<exists>b e. settle_window t b s = (e, s')))"
proof (cases "time_sub (tick + sint (- Buffer cfg)) t < sint (WindowSize cfg)")
  case True
  with assms show ?thesis by (simp add: engine_tick_def Let_def)
next
  case False
  then have "t \<le> tick + sint (- Buffer cfg)"
    using assms(3) by (auto simp: time_sub_def max_int64_def min_int64_def max_def min_def split: if_splits)
  with False assms show ?thesis
    by (auto simp: engine_tick_def Let_def split: prod.splits option.splits)
qed

lemma earlier_payment_untouched:
  assumes "engine_run cfg (\<lambda>a b. settle c (AggregateCaptured pg) (PersistBatch pg (now a b)) (draw a b) a b)
      es (t, w) = (x, (t', w'))"
    and "r \<in> set (txns w)" "State r = StateCaptured" "CreatedAt r < ts_in pg t" "zero_time < t"
    and "distinct (map PaymentID (txns w))" "stored_columns pg w"
    and "0 \<le> sint (WindowSize cfg)" "\<forall>a b. a \<le> b \<longrightarrow> ts_in pg a \<le> ts_in pg b"
  shows "r \<in> set (txns w')"
proof -
  let ?P = "\<lambda>w. r \<in> set (txns w) \<and> distinct (map PaymentID (txns w)) \<and> stored_columns pg w"
  have "?P w \<Longrightarrow> CreatedAt r < ts_in pg t \<Longrightarrow> zero_time < t \<Longrightarrow> r \<in> set (txns w')"
    using assms(1)
  proof (induction es arbitrary: t w)
    case Nil
    then show ?case by simp
  next
    case (Cons e es)
    show ?case
    proof (cases e)
      case (EngineTick tick)
      obtain t1 w1 where tick: "engine_tick cfg (\<lambda>a b. settle c (AggregateCaptured pg)
          (PersistBatch pg (now a b)) (draw a b) a b) tick (t, w) = (t1, w1)" by (rule prod.exhaust)
      note step = tick_forward [OF tick Cons.prems(3) assms(8)]
      have late: "CreatedAt r < ts_in pg t1" using Cons.prems(2) step assms(9) by force
      have "\<not> in_window pg t b r" for b using Cons.prems(2) by (simp add: in_window_def)
      then have "untouched pg t b r w" for b using Cons.prems(1) by (simp add: untouched_def)
      with step have "?P w1"
        using Cons.prems(1) settle_outside unfolding untouched_def by metis
      moreover have "zero_time < t1" using step Cons.prems(3) by simp
      moreover have "engine_run cfg (\<lambda>a b. settle c (AggregateCaptured pg) (PersistBatch pg (now a b))
          (draw a b) a b) es (t1, w1) = (x, (t', w'))"
        using Cons.prems(4) EngineTick tick by simp
      ultimately show ?thesis using Cons.IH late by blast
    qed (use Cons.prems in simp)
  qed
  with assms(2,4-7) show ?thesis by blast
qed

text \<open>
  C39. A window is never opened again, and a process that starts opens none before its first one. With a window size
  that is not negative, and for an engine that runs alone, a payment that is CAPTURED with a creation time before the
  start of the first window of a run is never settled by it, whatever ticks follow and whatever fails: its row stays as it
  is, CAPTURED, and the batches of its account and currency add up to other payments, those that are settled, so that
  it is not paid out. This is the lot of a payment that was captured late, after the window of its creation time was
  settled, of every group whose batch failed, since \<open>settle\<close> swallows that error, and of every payment older than
  the window and the buffer when the process is started again: the end of the last window is kept in memory only.
  The remaining hypotheses: the first window starts after Go's zero time, batches and settled payments balance
  before the run, as they do in every world one settlement process reaches, and Postgres keeps the order of instants.
\<close>

theorem missed_payment_never_settled:
  assumes "engine_run cfg (\<lambda>a b. settle c (AggregateCaptured pg) (PersistBatch pg (now a b)) (draw a b) a b)
      es (t, w) = (x, (t', w'))"
    and "r \<in> set (txns w)" "State r = StateCaptured"
    and "CreatedAt r < ts_in pg (first_start cfg es t)" "zero_time < first_start cfg es t"
    and "conserved pg w" "0 \<le> sint (WindowSize cfg)" "\<forall>a b. a \<le> b \<longrightarrow> ts_in pg a \<le> ts_in pg b"
  shows "r \<in> set (txns w') \<and>
    sum_list (map (\<lambda>b. sint (bt_TotalMinor b))
      (filter (\<lambda>b. bt_AccountID b = AccountID r \<and> bt_Currency b = Currency (Amount r)) (batches w'))) =
    sum_list (map (\<lambda>r'. sint (MinorUnits (Amount r')))
      (filter (\<lambda>r'. PaymentID r' \<noteq> PaymentID r \<and> AccountID r' = AccountID r \<and>
        Currency (Amount r') = Currency (Amount r) \<and> (State r' = StateSettled \<or> State r' = StateReconciled))
        (txns w')))"
proof
  let ?f = "\<lambda>a b. settle c (AggregateCaptured pg) (PersistBatch pg (now a b)) (draw a b) a b"
  obtain y t1 w1 where run: "engine_run cfg ?f es (first_start cfg es t, w) = (y, (t1, w1))" by (rule prod_cases3)
  have "w' = w1" using engine_run_first_start [of cfg es t ?f w] assms(1,5) run by simp
  moreover have "distinct (map PaymentID (txns w))" "stored_columns pg w"
    using assms(6) by (simp_all add: conserved_def)
  ultimately show kept: "r \<in> set (txns w')"
    using earlier_payment_untouched [OF run assms(2-5) _ _ assms(7,8)] by simp
  have conserved: "conserved pg w'"
    by (rule engine_run_keeps [where I = "conserved pg", OF _ assms(1,6)]) (rule settlement.settle_keeps)
  then have "inj_on PaymentID (set (txns w'))" by (simp add: conserved_def distinct_map)
  then have "PaymentID r' \<noteq> PaymentID r"
    if "r' \<in> set (txns w')" "State r' = StateSettled \<or> State r' = StateReconciled" for r'
    using that kept assms(3) unfolding inj_on_def
    by (auto simp: StateCaptured_def StateReconciled_def StateSettled_def)
  then have "filter (is_settled (AccountID r, Currency (Amount r))) (txns w') =
      filter (\<lambda>r'. PaymentID r' \<noteq> PaymentID r \<and> AccountID r' = AccountID r \<and>
        Currency (Amount r') = Currency (Amount r) \<and> (State r' = StateSettled \<or> State r' = StateReconciled)) (txns w')"
    by (intro filter_cong) (auto simp: is_settled_def group_key_def)
  with conserved show "sum_list (map (\<lambda>b. sint (bt_TotalMinor b))
      (filter (\<lambda>b. bt_AccountID b = AccountID r \<and> bt_Currency b = Currency (Amount r)) (batches w'))) =
    sum_list (map (\<lambda>r'. sint (MinorUnits (Amount r')))
      (filter (\<lambda>r'. PaymentID r' \<noteq> PaymentID r \<and> AccountID r' = AccountID r \<and>
        Currency (Amount r') = Currency (Amount r) \<and> (State r' = StateSettled \<or> State r' = StateReconciled))
        (txns w')))"
    by (simp add: conserved_def batched_def sum_minor_def batch_key_def)
qed

theorem missed_payment_never_settled_witness:
  "\<exists>x t' w'. engine_run hourly
      (\<lambda>a b. settle sample_codec (AggregateCaptured sample_pg) (PersistBatch sample_pg b) (sample_draw a b) a b)
      [EngineTick 9000, EngineTick 20000] (zero_time, one_payment StateCaptured) = (x, (t', w')) \<and>
    (sample_txn ''p'' ''k'')\<lparr>State := StateCaptured\<rparr> \<in> set (txns w')"
proof -
  let ?r = "(sample_txn ''p'' ''k'')\<lparr>State := StateCaptured\<rparr>"
  obtain x t' w' where run: "engine_run hourly
      (\<lambda>a b. settle sample_codec (AggregateCaptured sample_pg) (PersistBatch sample_pg b) (sample_draw a b) a b)
      [EngineTick 9000, EngineTick 20000] (zero_time, one_payment StateCaptured) = (x, (t', w'))"
    by (rule prod_cases3)
  have "?r \<in> set (txns (one_payment StateCaptured))" "State ?r = StateCaptured"
    "CreatedAt ?r < ts_in sample_pg (first_start hourly [EngineTick 9000, EngineTick 20000] zero_time)"
    "zero_time < first_start hourly [EngineTick 9000, EngineTick 20000] zero_time" "0 \<le> sint (WindowSize hourly)"
    by (simp_all add: one_payment_def sample_txn_def sample_pg_def zero_time_def hourly_def)
  moreover have "\<forall>a b. a \<le> b \<longrightarrow> ts_in sample_pg a \<le> ts_in sample_pg b"
    by (auto simp: sample_pg_def intro: zdiv_mono1)
  ultimately show ?thesis using missed_payment_never_settled [OF run] one_payment_conserved run by blast
qed

end
