(* ===== verification/Pipeline.thy ===== *)
theory Pipeline
  imports Consumers Relay Intake Settlement_Engine
begin

text \<open>
  The processes together: one step of the system is one submission to the intake server, one batch
  of the relay, one delivery of a logged record to a consumer, one settlement of a window, or a
  change of the environment (what the next calls do, and any change inside Redis).

  \<^item> Kafka may deliver any record of the topic, in any order and any number of times.
  \<^item> A step is one whole operation of one process, which may fail at every call. Theory \<open>Concurrency\<close>
    interleaves the operations; there, these runs are the ones in which every operation is left alone.
  \<^item> The locale \<open>effect_invariant\<close> states what the effects of the components have to preserve, and
    \<open>pipeline_invariant\<close> adds the relay and the engine; it proves once that every step and every run then
    keeps the invariant. It is interpreted with the double entry, the relay's promise, the audit trail
    and the trail from the request to the books.
\<close>

section \<open>Steps and runs\<close>

inductive pipeline_step ::
  "codec \<Rightarrow> pgtypes \<Rightarrow> 's redis_client \<Rightarrow> int64 \<Rightarrow> world \<times> 's \<Rightarrow> world \<times> 's \<Rightarrow> bool"
  for c :: codec and pg :: pgtypes and client :: "'s redis_client" and ttl :: int64
where
  submitted: "SubmitPayment c (intake_server pg client ttl) st req (w, s) = (r, (w', s')) \<Longrightarrow>
    pipeline_step c pg client ttl (w, s) (w', s')"
| relay_ticked: "relayBatch (Publish ready) NewPostgresRelay_batchSize now w = (rr, w') \<Longrightarrow>
    pipeline_step c pg client ttl (w, s) (w', s)"
| ledger_delivered: "rec \<in> set (klog w) \<Longrightarrow> kr_topic rec = TopicPaymentsReceived \<Longrightarrow>
    ledger_retried c pg ready now (kr_key rec) (kr_value rec) w = (h, w') \<Longrightarrow>
    pipeline_step c pg client ttl (w, s) (w', s)"
| fraud_delivered: "rec \<in> set (klog w) \<Longrightarrow> kr_topic rec = TopicPaymentsReceived \<Longrightarrow>
    fraud_retried c pg client ready now (kr_key rec) (kr_value rec) (w, s) = (h, (w', s')) \<Longrightarrow>
    pipeline_step c pg client ttl (w, s) (w', s')"
| notification_delivered: "rec \<in> set (klog w) \<Longrightarrow> kr_topic rec = TopicPaymentsReceived \<Longrightarrow>
    notification_retried c ready now (kr_key rec) (kr_value rec) w = (h, w') \<Longrightarrow>
    pipeline_step c pg client ttl (w, s) (w', s)"
| offset_committed: "commit_offset krec w = (e, w') \<Longrightarrow> pipeline_step c pg client ttl (w, s) (w', s)"
| window_settled: "settle c (AggregateCaptured pg) (PersistBatch pg now) draw a b w = (e, w') \<Longrightarrow>
    pipeline_step c pg client ttl (w, s) (w', s)"
| environment: "pipeline_step c pg client ttl (w, s) (w\<lparr>script := xs\<rparr>, s')"

inductive pipeline_run ::
  "codec \<Rightarrow> pgtypes \<Rightarrow> 's redis_client \<Rightarrow> int64 \<Rightarrow> world \<times> 's \<Rightarrow> world \<times> 's \<Rightarrow> bool"
  for c :: codec and pg :: pgtypes and client :: "'s redis_client" and ttl :: int64
where
  halted: "pipeline_run c pg client ttl st st"
| stepped: "pipeline_run c pg client ttl st st' \<Longrightarrow> pipeline_step c pg client ttl st' st'' \<Longrightarrow>
    pipeline_run c pg client ttl st st''"

section \<open>What an invariant of the pipeline has to survive\<close>

text \<open>The event of a record that the ledger consumer posts.\<close>

definition posted_event :: "codec \<Rightarrow> world \<Rightarrow> payment_event \<Rightarrow> bool" where
  "posted_event c w ev \<longleftrightarrow>
     (\<exists>rec \<in> set (klog w). kr_topic rec = TopicPaymentsReceived \<and> UnmarshalEvent c (kr_value rec) = Inr ev)"

locale effect_invariant = world_invariant I for I :: "world \<Rightarrow> bool" +
  fixes c :: codec and pg :: pgtypes
  assumes saved: "I w \<Longrightarrow> insertable pg (accepted st t) row w \<Longrightarrow>
      MarshalEvent c (NewPaymentReceivedEvent i (accepted st t)) = Inr j \<Longrightarrow>
      I (saved_world pg (accepted st t) row j w)"
    and moved: "I w \<Longrightarrow> to = StateCaptured \<or> to = StateFailed \<Longrightarrow>
      \<exists>row \<in> set (txns w). PaymentID row = u \<and> State row = StateValidated \<Longrightarrow>
      I (moved_world now u StateValidated to w)"
    and booked: "I w \<Longrightarrow> posted_event c w ev \<Longrightarrow> 0 < sint (ev_AmountMinor ev) \<Longrightarrow>
      uuid_in pg (ev_PaymentID ev) = Some u \<Longrightarrow> char3_in pg (ev_Currency ev) = Some cur \<Longrightarrow>
      I (w\<lparr>ledger := ledger w @ new_legs u cur (event_transaction ev) (ledger w)\<rparr>)"
    and dead_lettered: "I w \<Longrightarrow>
      I (w\<lparr>klog := klog w @ [\<lparr>kr_topic = TopicDLQ, kr_key = key, kr_value = p\<rparr>]\<rparr>)"
    and scored: "I w \<Longrightarrow> plausible_score sc \<Longrightarrow> uuid_in pg (Sc_PaymentID sc) = Some u \<Longrightarrow>
      I (w\<lparr>scores := scores w @ [stored_score u sc]\<rparr>)"
begin

lemma submit_keeps:
  assumes "SubmitPayment c (intake_server pg client ttl) st req (w, s) = (r, (w', s'))" "I w"
  shows "I w'"
proof (cases "w' = w")
  case False
  with assms(1) obtain t where "after_claim c None (SaveWithOutbox pg) st t w = (r, w')"
    unfolding SubmitPayment_wired by (auto split: sum.splits prod.splits if_splits)
  with False obtain j x where j: "MarshalEvent c (NewPaymentReceivedEvent (st_event_id st) (accepted st t)) = Inr j"
    and run: "SaveWithOutbox pg (accepted st t) (Doc j) w = (x, w')"
    unfolding after_claim_def by (auto split: sum.splits prod.splits option.splits)
  from run show ?thesis
  proof (cases rule: SaveWithOutbox_cases)
    case unchanged
    with assms(2) show ?thesis by (blast intro: idle_keeps)
  next
    case (saved row j' z)
    with effect_invariant.saved [OF effect_invariant_axioms assms(2) _ j] show ?thesis by simp
  qed
qed (use assms(2) in simp)

lemma UpdateState_keeps:
  assumes "UpdateState pg now pid StateValidated to w = (r, w')" "I w"
    and "to = StateCaptured \<or> to = StateFailed"
  shows "I w'"
  using assms(1)
proof (cases rule: UpdateState_cases)
  case unchanged
  with assms(2) show ?thesis by (blast intro: idle_keeps)
next
  case (moved u s)
  with effect_invariant.moved [OF effect_invariant_axioms assms(2,3)] show ?thesis by simp
qed

lemma UpdateState_klog:
  "UpdateState pg now pid from to w = (r, w') \<Longrightarrow> klog w' = klog w"
  by (erule UpdateState_cases) (auto simp: idle_tables moved_world_def)

lemma posted_event_cong: "klog w' = klog w \<Longrightarrow> posted_event c w' ev \<longleftrightarrow> posted_event c w ev"
  by (simp add: posted_event_def)

lemma Post_keeps:
  assumes "Post pg now (event_transaction ev) w = (r, w')" "I w" "posted_event c w ev"
  shows "I w' \<and> klog w' = klog w"
proof -
  have t: "MinorUnits (Amount (event_transaction ev)) = ev_AmountMinor ev"
    "PaymentID (event_transaction ev) = ev_PaymentID ev"
    "Currency (Amount (event_transaction ev)) = ev_Currency ev"
    by (simp_all add: event_transaction_def)
  from assms(1) show ?thesis
  proof (cases rule: Post_cases)
    case refused
    with assms(2) show ?thesis by simp
  next
    case (failed w1 x)
    with assms(2) idle_keeps have "I w1" by blast
    with failed UpdateState_keeps UpdateState_klog idle_tables(7) show ?thesis by metis
  next
    case (posted w1 x w2 u cur)
    let ?new = "new_legs u cur (event_transaction ev) (ledger w)"
    from posted(3) assms(2) idle_keeps have "I w1" by blast
    with posted(4) have w2: "I w2" by (blast intro: UpdateState_keeps)
    have k: "klog w2 = klog w" "ledger w2 = ledger w"
      using posted(3,4) UpdateState_klog UpdateState_ledger idle_tables(3,7) by metis+
    then have ev: "posted_event c w2 ev" using assms(3) posted_event_cong by blast
    show ?thesis
    proof (cases "?new = []")
      case True
      with posted(7) w2 k show ?thesis by simp
    next
      case False
      with posted(7) have w': "w' = commit_legs ?new w2" by simp
      show ?thesis
      proof (cases rule: commit_legs_cases [of ?new w2])
        case (kept s)
        from booked [OF w2 ev, of u cur] posted(1,5,6) k(2) t
        have "I (w2\<lparr>ledger := ledger w2 @ ?new\<rparr>)" by simp
        then have "I ((w2\<lparr>ledger := ledger w2 @ ?new\<rparr>)\<lparr>script := s\<rparr>)" by (simp only: script_blind)
        with k(1) show ?thesis unfolding w' kept by simp
      next
        case lost
        with w2 k(1) idle_keeps idle_tables(7) show ?thesis unfolding w' by metis
      qed
    qed
  qed
qed

text \<open>A record, once logged, stays available to a handler that is called again.\<close>

definition holding :: "payload \<Rightarrow> world \<Rightarrow> bool" where
  "holding p w \<longleftrightarrow> I w \<and>
     (\<exists>rec \<in> set (klog w). kr_topic rec = TopicPaymentsReceived \<and> kr_value rec = p)"

lemma holding_posted: "holding p w \<Longrightarrow> UnmarshalEvent c p = Inr ev \<Longrightarrow> posted_event c w ev"
  unfolding holding_def posted_event_def by blast

lemma Publish_dlq_keeps:
  "Publish ready TopicDLQ key p w = (r, w') \<Longrightarrow> holding q w \<Longrightarrow> holding q w'"
proof (erule producer.publish_cases)
  fix s
  assume "holding q w" "w' = w\<lparr>klog := klog w @ [\<lparr>kr_topic = TopicDLQ, kr_key = key, kr_value = p\<rparr>], script := s\<rparr>"
  then have "w' = (w\<lparr>klog := klog w @ [\<lparr>kr_topic = TopicDLQ, kr_key = key, kr_value = p\<rparr>]\<rparr>)\<lparr>script := s\<rparr>"
    and "I w" by (simp_all add: holding_def)
  with \<open>holding q w\<close> dead_lettered [of w key p] show "holding q w'" by (auto simp: holding_def)
qed (simp add: holding_def)

lemma ledger_handle_keeps:
  assumes "ledger_handle c pg now key p w = (r, w')" "holding p w"
  shows "holding p w'"
  using assms Post_keeps holding_posted [OF assms(2)] unfolding ledger_handle_def
  by (fastforce simp: holding_def split: sum.splits prod.splits option.splits if_splits)

lemma ledger_delivery_keeps:
  assumes "ledger_retried c pg ready now key p w = (h, w')" "holding p w"
  shows "holding p w'"
  using assms(1) unfolding ledger_retried_def
  by (rule RetryHandler_keeps_at [where J = "holding p"])
    (fact ledger_handle_keeps Publish_dlq_keeps assms(2))+

lemma fraud_handle_keeps:
  assumes "fraud_handle c pg client key p ws = (r, ws')" "holding q (fst ws)"
  shows "holding q (fst ws')"
proof (cases "fst ws' = fst ws")
  case False
  with assms(1) obtain sc x where "SaveScore pg sc (fst ws) = (x, fst ws')" and plausible: "plausible_score sc"
    unfolding fraud_handle_def
    by (auto split: sum.splits prod.splits option.splits if_splits dest: FraudEngine_Score_plausible)
  then show ?thesis
  proof (cases rule: SaveScore_cases)
    case (saved u z)
    have "I (fst ws)" using assms(2) by (simp add: holding_def)
    then have "I ((fst ws)\<lparr>scores := scores (fst ws) @ [stored_score u sc]\<rparr>)" (is "I ?w1")
      by (rule scored [OF _ plausible saved(1)])
    then have "I (?w1\<lparr>script := z\<rparr>)" by (simp only: script_blind)
    with assms(2) show ?thesis unfolding saved(2) holding_def by simp
  next
    case (failed z)
    with assms(2) show ?thesis by (simp add: holding_def)
  qed
qed (use assms(2) in simp)

lemma fraud_delivery_keeps:
  assumes "fraud_retried c pg client ready now key p ws = (h, ws')" "holding p (fst ws)"
  shows "holding p (fst ws')"
  using assms(1) unfolding fraud_retried_def
proof (rule RetryHandler_keeps_at [where J = "\<lambda>ws. holding p (fst ws)"])
  show "holding p (fst s')" if "on_world (Publish ready TopicDLQ key m) s = (r, s')" "holding p (fst s)"
    for m s r s'
    using that Publish_dlq_keeps by (fastforce simp: on_world_def split: prod.splits)
qed (fact fraud_handle_keeps assms(2))+

lemma notification_delivery_keeps:
  assumes "notification_retried c ready now key p w = (h, w')" "holding p w"
  shows "holding p w'"
  using assms(1) unfolding notification_retried_def
proof (rule RetryHandler_keeps_at [where J = "holding p"])
  show "holding p s'" if "notification_handle c key p s = (r, s')" "holding p s" for s r s'
    using that by (auto simp: notification_handle_def split: sum.splits if_splits)
qed (fact Publish_dlq_keeps assms(2))+

end

locale pipeline_invariant = effect_invariant I c pg for I :: "world \<Rightarrow> bool" and c :: codec and pg :: pgtypes +
  assumes relayed: "I w \<Longrightarrow> relayBatch (Publish ready) n now w = (rr, w') \<Longrightarrow> I w'"
    and settled: "I w \<Longrightarrow> settle c (AggregateCaptured pg) (PersistBatch pg now) draw a b w = (e, w') \<Longrightarrow> I w'"
begin

lemma step_keeps:
  assumes "pipeline_step c pg client ttl ws ws'" "I (fst ws)"
  shows "I (fst ws')"
  using assms
proof (induction rule: pipeline_step.induct)
  case (submitted st req w s r w' s')
  then show ?case using submit_keeps by simp
next
  case (relay_ticked ready now w rr w' s)
  then show ?case using relayed by simp
next
  case (ledger_delivered rec w ready now h w' s)
  then have "holding (kr_value rec) w" by (auto simp: holding_def)
  from ledger_delivery_keeps [OF ledger_delivered(3) this] show ?case by (simp add: holding_def)
next
  case (fraud_delivered rec w ready now s h w' s')
  then have "holding (kr_value rec) (fst (w, s))" by (auto simp: holding_def)
  from fraud_delivery_keeps [OF fraud_delivered(3) this] show ?case by (simp add: holding_def)
next
  case (notification_delivered rec w ready now h w' s)
  then have "holding (kr_value rec) w" by (auto simp: holding_def)
  from notification_delivery_keeps [OF notification_delivered(3) this] show ?case by (simp add: holding_def)
next
  case (offset_committed krec w e w' s)
  then show ?case using commit_offset_idle idle_keeps by simp blast
next
  case (window_settled now draw a b w e w' s)
  then show ?case using settled by simp
next
  case (environment w s xs s')
  then show ?case by simp
qed

lemma run_keeps: "pipeline_run c pg client ttl ws ws' \<Longrightarrow> I (fst ws) \<Longrightarrow> I (fst ws')"
  by (induction rule: pipeline_run.induct) (auto dest: step_keeps)

end

end
