(* ===== verification/Programs.thy ===== *)
theory Programs
  imports Interleaving Pipeline
begin

text \<open>
  The operations of the processes as programs of atomic actions: one action per statement sent to the
  database outside a transaction, per Redis command and per produced record, and one per transaction
  that holds its rows from its first statement to its commit (\<open>SaveWithOutbox\<close>, \<open>UpdateState\<close>,
  \<open>PersistBatch\<close>). The ledger transaction of \<open>Post\<close> stays open while \<open>UpdateState\<close> commits on another
  connection, so it is split into its statements.

  \<^item> An open ledger transaction holds the index entries of the legs it has inserted: another
    transaction that inserts the same leg waits for it (\<open>Leg\<close>). A settlement process works on one
    window at a time (\<open>Engine k\<close> for the process number \<open>k\<close>).
  \<^item> Each program, run alone, is the operation of the component theories (the lemmas \<open>run_submit\<close>, \<open>run_relay\<close>,
    \<open>run_ledger\<close>, \<open>run_fraud\<close>, \<open>run_notification\<close> and \<open>run_settle\<close>).
\<close>

datatype token = Leg string string | Engine nat

type_synonym ('r, 'a) process = "(world \<times> 'r, token, 'a) prog"

section \<open>Actions\<close>

definition statement :: "(world \<Rightarrow> 'a \<times> world) \<Rightarrow> ('r, 'a) process" where
  "statement f = atomic (on_world f)"

definition locking_statement :: "('a \<Rightarrow> token locking) \<Rightarrow> (world \<Rightarrow> 'a \<times> world) \<Rightarrow> ('r, 'a) process" where
  "locking_statement l f = locked l (on_world f)"

definition on_redis :: "('r \<Rightarrow> 'a \<times> 'r) \<Rightarrow> world \<times> 'r \<Rightarrow> 'a \<times> (world \<times> 'r)" where
  "on_redis f st = (case f (snd st) of (x, s1) \<Rightarrow> (x, (fst st, s1)))"

definition command :: "('r \<Rightarrow> 'a \<times> 'r) \<Rightarrow> ('r, 'a) process" where
  "command f = atomic (on_redis f)"

section \<open>Posting to the ledger\<close>

text \<open>The leg an insert has added is locked until the transaction ends.\<close>

definition leg_lock :: "goerr + nat \<times> ledger_row list \<Rightarrow> token locking" where
  "leg_lock r =
     (case r of
        Inl err \<Rightarrow> Keep
      | Inr (n, pending) \<Rightarrow>
          if n = 0 then Keep else Acquire (Leg (lg_payment_id (last pending)) (lg_direction (last pending))))"

definition move_payment :: "pgtypes \<Rightarrow> time \<Rightarrow> transaction \<Rightarrow> token locking \<Rightarrow> state \<Rightarrow> ('r, goerr option) process" where
  "move_payment pg now trx l to =
     locking_statement (\<lambda>_. l) (\<lambda>w. UpdateState pg now (PaymentID trx) StateValidated to w)"

text \<open>The three parts of \<open>Post\<close>, last one first: after both inserts, from the credit on, from the debit on.\<close>

definition post_capture ::
  "pgtypes \<Rightarrow> time \<Rightarrow> transaction \<Rightarrow> nat \<Rightarrow> nat \<Rightarrow> ledger_row list \<Rightarrow> ('r, goerr option) process" where
  "post_capture pg now trx debitTag creditTag pending =
     and_then (move_payment pg now trx Keep StateCaptured) (\<lambda>moved.
       let result = (case moved of
             None \<Rightarrow> None
           | Some err \<Rightarrow>
               if contains (error_text err) ''stale transition'' \<and> contains (error_text err) StateCaptured
               then None else Some (Wrap ''update state to CAPTURED: '' err))
       in if debitTag = 0 \<and> creditTag = 0 then Ret result
          else and_then (locking_statement (\<lambda>_. Release) (\<lambda>w. ((), commit_legs pending w))) (\<lambda>_. Ret result))"

definition post_credit ::
  "pgtypes \<Rightarrow> time \<Rightarrow> transaction \<Rightarrow> nat \<Rightarrow> ledger_row list \<Rightarrow> ('r, goerr option) process" where
  "post_credit pg now trx debitTag pending =
     and_then (locking_statement leg_lock
         (call (insert_leg pg (PaymentID trx) ''clearing_account'' ''CREDIT'' (Amount trx) pending)))
       (\<lambda>credit. case credit of
          Inl err \<Rightarrow>
            and_then (move_payment pg now trx Release StateFailed) (\<lambda>_. Ret (Some (Wrap ''insert credit: '' err)))
        | Inr (creditTag, pending) \<Rightarrow> post_capture pg now trx debitTag creditTag pending)"

definition post_debit :: "pgtypes \<Rightarrow> time \<Rightarrow> transaction \<Rightarrow> ('r, goerr option) process" where
  "post_debit pg now trx =
     and_then (locking_statement leg_lock
         (call (insert_leg pg (PaymentID trx) (AccountID trx) ''DEBIT'' (Amount trx) [])))
       (\<lambda>debit. case debit of
          Inl err \<Rightarrow>
            and_then (move_payment pg now trx Release StateFailed) (\<lambda>_. Ret (Some (Wrap ''insert debit: '' err)))
        | Inr (debitTag, pending) \<Rightarrow> post_credit pg now trx debitTag pending)"

definition Post_program :: "pgtypes \<Rightarrow> time \<Rightarrow> transaction \<Rightarrow> ('r, goerr option) process" where
  "Post_program pg now trx =
     (if sint (MinorUnits (Amount trx)) \<le> 0 then
        Ret (Some (Plain (''amount must be positive, got '' @ show_int (sint (MinorUnits (Amount trx))))))
      else
        and_then (statement tx_begin) (\<lambda>began. case began of
          Inl err \<Rightarrow> and_then (move_payment pg now trx Keep StateFailed) (\<lambda>_. Ret (Some err))
        | Inr _ \<Rightarrow> post_debit pg now trx))"

section \<open>The consumers\<close>

definition ledger_handle_program ::
  "codec \<Rightarrow> pgtypes \<Rightarrow> time \<Rightarrow> string \<Rightarrow> payload \<Rightarrow> ('r, goerr option) process" where
  "ledger_handle_program c pg now key p =
     (case UnmarshalEvent c p of
        Inl err \<Rightarrow> Ret (Some (non_retryable err))
      | Inr event \<Rightarrow>
          if missing_field event then Ret (Some (non_retryable (Plain ''malformed event'')))
          else
            and_then (Post_program pg now (event_transaction event)) (\<lambda>r. case r of
              Some err \<Rightarrow>
                Ret (Some (Wrap (''post ledger entries payment_id='' @ ev_PaymentID event @ '': '') err))
            | None \<Rightarrow> Ret None))"

definition fraud_handle_program ::
  "codec \<Rightarrow> pgtypes \<Rightarrow> 'r redis_client \<Rightarrow> string \<Rightarrow> payload \<Rightarrow> ('r, goerr option) process" where
  "fraud_handle_program c pg client key p =
     (case UnmarshalEvent c p of
        Inl err \<Rightarrow> Ret (Some (non_retryable err))
      | Inr event \<Rightarrow>
          if missing_field event then Ret (Some (non_retryable (Plain ''malformed event'')))
          else
            and_then (command (FraudEngine_Score client (event_transaction event))) (\<lambda>fraudScore.
              and_then (statement (SaveScore pg fraudScore)) (\<lambda>r. case r of
                Some err \<Rightarrow> Ret (Some (Wrap (''error saving fraud score='' @ ev_PaymentID event @ '': '') err))
              | None \<Rightarrow> Ret None)))"

definition notification_handle_program :: "codec \<Rightarrow> string \<Rightarrow> payload \<Rightarrow> ('r, goerr option) process" where
  "notification_handle_program c key p =
     (case UnmarshalEvent c p of
        Inl err \<Rightarrow> Ret (Some (non_retryable err))
      | Inr event \<Rightarrow>
          if missing_field event then Ret (Some (non_retryable (Plain ''malformed event''))) else Ret None)"

function retry_program ::
  "('r, goerr option) process \<Rightarrow> int \<Rightarrow> int \<Rightarrow> goerr option \<Rightarrow> ('r, loop_exit) process" where
  "retry_program attempt_once maxAttempts attempt err =
     (if attempt \<le> maxAttempts then
        and_then attempt_once (\<lambda>r. case r of
          None \<Rightarrow> Ret Succeeded
        | Some e \<Rightarrow>
            if errors_is e NonRetryable then Ret (GaveUp (Some e))
            else retry_program attempt_once maxAttempts (attempt + 1) (Some e))
      else Ret (GaveUp err))"
  by pat_completeness auto
termination
  by (relation "measure (\<lambda>(_, maxAttempts, attempt, _). nat (maxAttempts + 1 - attempt))") auto

declare retry_program.simps [simp del]

definition dlq_program ::
  "codec \<Rightarrow> bool \<Rightarrow> time \<Rightarrow> string \<Rightarrow> string \<Rightarrow> payload \<Rightarrow> goerr option \<Rightarrow> int \<Rightarrow> ('r, handled) process" where
  "dlq_program c ready now consumerGroup key p lastErr attempts =
     (case lastErr of
        None \<Rightarrow> Ret Panicked
      | Some le \<Rightarrow>
          (case (raw_message p, fmt_time c now) of
             (Some original, Some failedAt) \<Rightarrow>
               and_then (statement (Publish ready TopicDLQ key
                   (Doc (dlq_message TopicPaymentsReceived key original (error_text le) attempts
                           failedAt consumerGroup)))) (\<lambda>r. case r of
                 Some err \<Rightarrow> Ret (Returned (Some le))
               | None \<Rightarrow> Ret (Returned None))
           | _ \<Rightarrow> Ret (Returned (Some (Wrap ''publishToDLQ: marshal: '' (Plain (marshal_text c p)))))))"

definition retried_program ::
  "codec \<Rightarrow> bool \<Rightarrow> time \<Rightarrow> string \<Rightarrow> ('r, goerr option) process \<Rightarrow> string \<Rightarrow> payload \<Rightarrow> ('r, handled) process" where
  "retried_program c ready now consumerGroup attempt_once key p =
     and_then (retry_program attempt_once 3 1 None) (\<lambda>exit. case exit of
       Succeeded \<Rightarrow> Ret (Returned None)
     | GaveUp err \<Rightarrow> dlq_program c ready now consumerGroup key p err 3)"

section \<open>The relay\<close>

fun relay_rows_program :: "bool \<Rightarrow> time \<Rightarrow> outbox_row list \<Rightarrow> ('r, goerr option) process" where
  "relay_rows_program ready now [] = Ret None"
| "relay_rows_program ready now (row # rows) =
     and_then (statement (Publish ready (ob_topic row) (ob_partition_key row) (Doc (ob_payload row)))) (\<lambda>r.
       case r of
         Some err \<Rightarrow> Ret (Some err)
       | None \<Rightarrow>
           and_then (statement (call (mark_published now (ob_id row)))) (\<lambda>m. case m of
             Inl err \<Rightarrow> Ret (Some err)
           | Inr _ \<Rightarrow> relay_rows_program ready now rows))"

definition relay_program :: "bool \<Rightarrow> nat \<Rightarrow> time \<Rightarrow> ('r, goerr option) process" where
  "relay_program ready batchSize now =
     and_then (statement (call (\<lambda>w. Inr (select_unpublished batchSize w, w)))) (\<lambda>q. case q of
       Inl err \<Rightarrow> Ret (Some err)
     | Inr rows \<Rightarrow>
         and_then (statement (call (\<lambda>w. Inr (rows, w)))) (\<lambda>scanned. case scanned of
           Inl err \<Rightarrow> Ret (Some err)
         | Inr rowsList \<Rightarrow> relay_rows_program ready now rowsList))"

section \<open>Settlement\<close>

definition group_program ::
  "codec \<Rightarrow> pgtypes \<Rightarrow> time \<Rightarrow> drawn \<Rightarrow> captured_group \<Rightarrow> time \<Rightarrow> time \<Rightarrow> ('r, goerr option) process" where
  "group_program c pg now d g windowStart windowEnd =
     (let batch = group_batch d g windowStart windowEnd
      in case settled_event c (dr_batch_id d) g windowStart windowEnd of
           Inl err \<Rightarrow> Ret (Some (Wrap ''marshal settled event: '' err))
         | Inr settledPayload \<Rightarrow>
             (case payout_event c (dr_payout_id d) (dr_batch_id d) g (dr_now d) of
                Inl err \<Rightarrow> Ret (Some (Wrap ''marshal payout event: '' err))
              | Inr payoutPayload \<Rightarrow>
                  and_then (statement (PersistBatch pg now batch g (Doc settledPayload) (Doc payoutPayload)))
                    (\<lambda>r. case r of
                       Inl err \<Rightarrow>
                         Ret (Some (Wrap (''persist batch (account='' @ cg_AccountID g @ '' currency='' @
                                      cg_Currency g @ ''): '') err))
                     | Inr alreadyExisted \<Rightarrow> Ret None)))"

fun groups_program ::
  "codec \<Rightarrow> pgtypes \<Rightarrow> time \<Rightarrow> (captured_group \<Rightarrow> drawn) \<Rightarrow> time \<Rightarrow> time \<Rightarrow> captured_group list \<Rightarrow>
   ('r, unit) process" where
  "groups_program c pg now draw windowStart windowEnd [] = Ret ()"
| "groups_program c pg now draw windowStart windowEnd (g # gs) =
     and_then (group_program c pg now (draw g) g windowStart windowEnd)
       (\<lambda>_. groups_program c pg now draw windowStart windowEnd gs)"

definition settle_program ::
  "codec \<Rightarrow> pgtypes \<Rightarrow> time \<Rightarrow> (captured_group \<Rightarrow> drawn) \<Rightarrow> time \<Rightarrow> time \<Rightarrow> ('r, goerr option) process" where
  "settle_program c pg now draw windowStart windowEnd =
     and_then (statement (AggregateCaptured pg windowStart windowEnd)) (\<lambda>r. case r of
       Inl err \<Rightarrow> Ret (Some (Wrap ''aggregate captured: '' err))
     | Inr groups \<Rightarrow>
         if groups = [] then Ret None
         else and_then (groups_program c pg now draw windowStart windowEnd groups) (\<lambda>_. Ret None))"

section \<open>The intake server\<close>

definition claim_program ::
  "'r redis_client \<Rightarrow> int64 \<Rightarrow> string \<Rightarrow> string \<Rightarrow> ('r, goerr + bool \<times> string) process" where
  "claim_program client ttlSeconds key paymentID =
     and_then (command (\<lambda>s. SetNX client s key paymentID (ttl_duration ttlSeconds))) (\<lambda>won. case won of
       Inl err \<Rightarrow> Ret (Inl err)
     | Inr True \<Rightarrow> Ret (Inr (True, []))
     | Inr False \<Rightarrow>
         and_then (command (\<lambda>s. GetKey client s key)) (\<lambda>reply. case reply of
           Value existing \<Rightarrow> Ret (Inr (False, existing))
         | RedisNil \<Rightarrow> Ret (Inl (Plain ''redis: nil''))
         | RedisError err \<Rightarrow> Ret (Inl err)))"

definition submit_program ::
  "codec \<Rightarrow> pgtypes \<Rightarrow> 'r redis_client \<Rightarrow> int64 \<Rightarrow> stamp \<Rightarrow> request \<Rightarrow>
   ('r, intake_error + response) process" where
  "submit_program c pg client ttl st req =
     (case normalized intake_registry st req of
        Inl err \<Rightarrow> Ret (Inl err)
      | Inr t \<Rightarrow>
          and_then (claim_program client ttl (DeriveKey t) (PaymentID t)) (\<lambda>claim. case claim of
            Inl err \<Rightarrow> Ret (Inl (ClaimFailed err))
          | Inr (False, existing) \<Rightarrow> Ret (Inr (ack existing True (st_now st)))
          | Inr (True, _) \<Rightarrow>
              (case MarshalEvent c (NewPaymentReceivedEvent (st_event_id st) (accepted st t)) of
                 Inl err \<Rightarrow> Ret (Inl (MarshalFailed err))
               | Inr j \<Rightarrow>
                   and_then (statement (SaveWithOutbox pg (accepted st t) (Doc j))) (\<lambda>r. case r of
                     Some err \<Rightarrow> Ret (Inl (SaveFailed err))
                   | None \<Rightarrow> Ret (Inr (ack (PaymentID t) False (st_now st)))))))"

section \<open>Run alone, the programs are the operations\<close>

lemma run_statement [simp]: "run_prog (statement f) (w, s) = (case f w of (x, w') \<Rightarrow> (x, (w', s)))"
  by (simp add: statement_def on_world_def)

lemma run_locking_statement [simp]:
  "run_prog (locking_statement l f) (w, s) = (case f w of (x, w') \<Rightarrow> (x, (w', s)))"
  by (simp add: locking_statement_def on_world_def)

lemma run_command [simp]: "run_prog (command f) (w, s) = (case f s of (x, s') \<Rightarrow> (x, (w, s')))"
  by (simp add: command_def on_redis_def)

lemma run_Post: "run_prog (Post_program pg now trx) (w, s) = (case Post pg now trx w of (r, w') \<Rightarrow> (r, (w', s)))"
  by (auto simp: Post_program_def post_debit_def post_credit_def post_capture_def move_payment_def Post_def
      Let_def split: prod.split sum.split option.split)

lemma run_ledger_handle:
  "run_prog (ledger_handle_program c pg now key p) (w, s) =
     (case ledger_handle c pg now key p w of (r, w') \<Rightarrow> (r, (w', s)))"
  by (simp add: ledger_handle_program_def ledger_handle_def run_Post split: prod.split sum.split option.split)

lemma run_fraud_handle:
  "run_prog (fraud_handle_program c pg client key p) ws = fraud_handle c pg client key p ws"
  by (cases ws) (simp add: fraud_handle_program_def fraud_handle_def split: prod.split sum.split option.split)

lemma run_notification_handle:
  "run_prog (notification_handle_program c key p) ws = notification_handle c key p ws"
  by (simp add: notification_handle_program_def notification_handle_def split: sum.split)

lemma run_retry:
  assumes "\<And>ws. run_prog attempt_once ws = handler key p ws"
  shows "run_prog (retry_program attempt_once maxAttempts attempt err) ws =
    (case retry_loop handler key p maxAttempts attempt err ws of (r, waits, ws') \<Rightarrow> (r, ws'))"
  using assms
proof (induction handler key p maxAttempts attempt err ws rule: retry_loop.induct)
  case (1 handler key p maxAttempts attempt err ws)
  note unfolded = retry_program.simps [of attempt_once maxAttempts attempt err]
    retry_loop.simps [of handler key p maxAttempts attempt err ws]
  obtain r ws1 where h: "handler key p ws = (r, ws1)" by (rule prod.exhaust)
  show ?case
  proof (cases "attempt \<le> maxAttempts \<and> (\<exists>e. r = Some e \<and> \<not> errors_is e NonRetryable)")
    case False
    with h 1(2) show ?thesis unfolding unfolded by (cases r) auto
  next
    case True
    then obtain e where e: "r = Some e" "\<not> errors_is e NonRetryable" by blast
    from 1(1) [OF _ h [symmetric] e 1(2)] True h 1(2) e show ?thesis
      unfolding unfolded by (simp split: prod.split)
  qed
qed

lemma run_retried:
  assumes "\<And>ws. run_prog attempt_once ws = handler key p ws"
  shows "run_prog (retried_program c ready now consumerGroup attempt_once key p) ws =
    RetryHandler c now handler (\<lambda>topic key p. on_world (Publish ready topic key p)) TopicPaymentsReceived
      consumerGroup 3 key p ws"
proof -
  have dlq: "run_prog (dlq_program c ready now consumerGroup key p e n) (w, s) =
      publishToDLQ c (\<lambda>topic key p. on_world (Publish ready topic key p)) now consumerGroup
        TopicPaymentsReceived key p e n (w, s)" for e n w s
    by (auto simp: dlq_program_def publishToDLQ_def on_world_def split: prod.split option.split)
  show ?thesis
    by (auto simp: retried_program_def RetryHandler_def run_retry [where handler = handler, OF assms] dlq
        split: prod.split loop_exit.split)
qed

text \<open>A handler that only works on the world, and its lifting.\<close>

lemma on_world_pair: "on_world f (w, s) = (case f w of (r, w') \<Rightarrow> (r, (w', s)))"
  by (simp add: on_world_def)

lemma RetryHandler_lifted:
  "RetryHandler c now (\<lambda>key p ws. on_world (h key p) ws) (\<lambda>topic key p. on_world (publish topic key p)) topic g n
     key p (w, s) = (case RetryHandler c now h publish topic g n key p w of (r, w') \<Rightarrow> (r, (w', s)))"
proof -
  have loop: "retry_loop (\<lambda>key p ws. on_world (h key p) ws) key p n k e (w, s) =
      (case retry_loop h key p n k e w of (r, waits, w') \<Rightarrow> (r, waits, (w', s)))" for k e w
  proof (induction h key p n k e w rule: retry_loop.induct)
    case (1 h key p n k e w)
    note unfolded = retry_loop.simps [of h key p n k e w]
      retry_loop.simps [of "\<lambda>key p. on_world (h key p)" key p n k e "(w, s)"]
    obtain r w1 where r: "h key p w = (r, w1)" by (rule prod.exhaust)
    show ?case
    proof (cases "k \<le> n \<and> (\<exists>e. r = Some e \<and> \<not> errors_is e NonRetryable)")
      case False
      with r show ?thesis unfolding unfolded by (cases r) (auto simp: on_world_pair)
    next
      case True
      then obtain e' where e': "r = Some e'" "\<not> errors_is e' NonRetryable" by blast
      from 1 [OF _ r [symmetric] e'] True r e' show ?thesis
        unfolding unfolded by (simp add: on_world_pair split: prod.split)
    qed
  qed
  show ?thesis
    by (auto simp: RetryHandler_def loop publishToDLQ_def on_world_pair
        split: prod.split loop_exit.split option.split)
qed

lemma run_relay_rows:
  "run_prog (relay_rows_program ready now rows) (w, s) =
     (case relay_rows (Publish ready) now rows w of (r, w') \<Rightarrow> (r, (w', s)))"
  by (induction rows arbitrary: w) (auto split: prod.split option.split sum.split)

lemma run_groups:
  "run_prog (groups_program c pg now draw a b gs) (w, s) =
     ((), (process_groups c (PersistBatch pg now) draw a b gs w, s))"
proof (induction gs arbitrary: w)
  case (Cons g gs)
  have "run_prog (group_program c pg now (draw g) g a b) (w, s) =
      (case processGroup c (PersistBatch pg now) (draw g) g a b w of (r, w') \<Rightarrow> (r, (w', s)))"
    by (auto simp: group_program_def processGroup_def Let_def split: prod.split sum.split)
  with Cons show ?case by (simp split: prod.split)
qed simp

lemma run_submit:
  "run_prog (submit_program c pg client ttl st req) (w, s) =
     SubmitPayment c (intake_server pg client ttl) st req (w, s)"
  unfolding SubmitPayment_wired
  by (auto simp: submit_program_def claim_program_def redisStore_Claim_def after_claim_def
      split: prod.split sum.split option.split redis_reply.split bool.split)

lemma run_relay:
  "run_prog (relay_program ready n now) (w, s) =
     (case relayBatch (Publish ready) n now w of (r, w') \<Rightarrow> (r, (w', s)))"
  by (auto simp: relay_program_def relayBatch_def run_relay_rows split: prod.split sum.split)

lemma run_ledger:
  "run_prog (retried_program c ready now ''ledger-consumer'' (ledger_handle_program c pg now key p) key p) (w, s) =
     (case ledger_retried c pg ready now key p w of (r, w') \<Rightarrow> (r, (w', s)))"
  unfolding ledger_retried_def
  by (subst run_retried [where handler = "\<lambda>key p. on_world (ledger_handle c pg now key p)"])
    (simp add: run_ledger_handle on_world_pair split_paired_all, rule RetryHandler_lifted)

lemma run_fraud:
  "run_prog (retried_program c ready now ''fraud-consumer'' (fraud_handle_program c pg client key p) key p) (w, s) =
     fraud_retried c pg client ready now key p (w, s)"
  unfolding fraud_retried_def by (rule run_retried) (rule run_fraud_handle)

lemma run_notification:
  "run_prog (retried_program c ready now ''notification-consumer'' (notification_handle_program c key p) key p) (w, s) =
     (case notification_retried c ready now key p w of (r, w') \<Rightarrow> (r, (w', s)))"
  unfolding notification_retried_def
  by (subst run_retried [where handler = "\<lambda>key p. on_world (notification_handle c key p)"])
    (auto simp: run_notification_handle on_world_pair notification_handle_def RetryHandler_lifted
      split: sum.split)

lemma run_settle:
  "run_prog (settle_program c pg now draw a b) (w, s) =
     (case settle c (AggregateCaptured pg) (PersistBatch pg now) draw a b w of (r, w') \<Rightarrow> (r, (w', s)))"
  by (auto simp: settle_program_def settle_def run_groups split: prod.split sum.split)

end
