(* ===== verification/Pipeline_Invariants.thy ===== *)
theory Pipeline_Invariants
  imports Pipeline
begin

text \<open>
  The invariants of the whole system, each an interpretation of \<open>pipeline_invariant\<close> (theory
  \<open>Pipeline\<close>), and the properties of every reachable world that follow.
\<close>

section \<open>Settlement and invariants that only look at tables\<close>

text \<open>An invariant that survives every persisted batch, current or not, survives the engine.\<close>

locale batch_invariant = world_invariant I for I :: "world \<Rightarrow> bool" +
  fixes pg :: pgtypes
  assumes batch_keeps: "I w \<Longrightarrow> I (settled_world pg now row us js jp w)"
begin

lemma PersistBatch_keeps:
  assumes "PersistBatch pg now b g ps pp w = (r, w')" "I w"
  shows "I w'"
  using assms(1)
proof (cases rule: PersistBatch_cases)
  case unchanged
  with assms(2) show ?thesis by (blast intro: idle_keeps)
next
  case (saved row us js jp s)
  then show ?thesis using batch_keeps [OF assms(2)] by simp
qed

lemma aggregated_keys:
  "AggregateCaptured pg a b w = (Inr gs, w') \<Longrightarrow> distinct (map cg_key gs)"
  using AggregateCaptured_result [of pg a b w "Inr gs" w'] select_groups_keys [of pg a b w]
  by (auto dest: scan_groups_current)

sublocale engine: settlement_store "AggregateCaptured pg" "PersistBatch pg now" I "\<lambda>_ _. True" for now
proof
  show "I s'" if "AggregateCaptured pg a b s = (ra, s')" "I s" for a b s ra s'
    using that AggregateCaptured_idle idle_keeps by blast
  show "distinct (map cg_key gs) \<and> (\<forall>g \<in> set gs. True)"
    if "AggregateCaptured pg a b s = (Inr gs, s')" for a b s gs s'
    using aggregated_keys [OF that] by simp
  show "I s'" if "PersistBatch pg now b g ps pp s = (r, s')" "I s" for b g ps pp s r s'
    using that by (rule PersistBatch_keeps)
qed simp

end

section \<open>Books and keys\<close>

lemma scored_irrelevant [simp]: "ledger_inv (w\<lparr>scores := x\<rparr>) = ledger_inv w"
  "keys_inv (w\<lparr>scores := x\<rparr>) = keys_inv w" "relay_inv (w\<lparr>scores := x\<rparr>) = relay_inv w"
  by (simp_all add: ledger_inv_def keys_inv_def relay_inv_def)

interpretation settled_ledger: batch_invariant ledger_inv pg for pg
  by unfold_locales (simp add: ledger_inv_def settled_world_def)

lemma relayBatch_ledger: "relayBatch (Publish ready) n now w = (r, w') \<Longrightarrow> ledger w' = ledger w \<and>
    txns w' = txns w \<and> transitions w' = transitions w \<and> batches w' = batches w"
  by (auto dest!: producer.relayBatch_prefix simp: relayed_def)

interpretation books: pipeline_invariant ledger_inv c pg for c pg
proof
  show "ledger_inv (saved_world pg (accepted st t) row j w)" if "ledger_inv w" for w st t row j
    using that by (simp add: ledger_inv_def saved_world_def)
  show "ledger_inv (moved_world now u StateValidated to w)" if "ledger_inv w" for w to now u
    using that by (simp add: ledger_inv_def moved_world_def)
  show "ledger_inv (w\<lparr>ledger := ledger w @ new_legs u cur (event_transaction ev) (ledger w)\<rparr>)"
    if "ledger_inv w" "0 < sint (ev_AmountMinor ev)" for w ev u cur
    using that double_entry_add [of _ "ledger w" "event_transaction ev" u cur]
    by (auto simp: ledger_inv_def event_transaction_def)
  show "ledger_inv (w\<lparr>klog := klog w @ [\<lparr>kr_topic = TopicDLQ, kr_key = key, kr_value = p\<rparr>]\<rparr>)"
    if "ledger_inv w" for w key p
    using that by (simp add: ledger_inv_def)
  show "ledger_inv w'" if "ledger_inv w" "relayBatch (Publish ready) n now w = (rr, w')" for w ready n now rr w'
    using that relayBatch_ledger ledger_inv_cong by blast
  show "ledger_inv w'" if "ledger_inv w"
    "settle c (AggregateCaptured pg) (PersistBatch pg now) draw a b w = (e, w')" for w now draw a b e w'
    using that by (blast intro: settled_ledger.engine.settle_keeps)
qed simp

definition outbox_inv :: "world \<Rightarrow> bool" where
  "outbox_inv w \<longleftrightarrow> keys_inv w \<and> relay_inv w"

lemma settled_world_outbox: "outbox_inv w \<Longrightarrow> outbox_inv (settled_world pg now row us js jp w)"
proof -
  assume inv: "outbox_inv w"
  have "map IdempotencyKey (settled_txns now us (txns w)) = map IdempotencyKey (txns w)"
    by (simp add: settled_txns_def map_update_where)
  with inv show ?thesis
    by (fastforce simp: outbox_inv_def keys_inv_def relay_inv_def settled_world_def payout_rows_def
        sorted_wrt_append)
qed

interpretation settled_outbox: batch_invariant outbox_inv pg for pg
proof
  show "outbox_inv (w\<lparr>script := s\<rparr>) = outbox_inv w" for w s by (simp add: outbox_inv_def)
  show "outbox_inv (w\<lparr>outbox_seq := n\<rparr>)" if "outbox_inv w" "outbox_seq w \<le> n" for w n
    using that keys.seq_up relay.seq_up by (simp add: outbox_inv_def)
qed (rule settled_world_outbox)

interpretation promises: pipeline_invariant outbox_inv c pg for c pg
proof
  show "outbox_inv (saved_world pg (accepted st t) row j w)"
    if "outbox_inv w" "insertable pg (accepted st t) row w" for w st t row j
    using that keys_saved_world by (auto simp: outbox_inv_def relay_inv_def saved_world_def)
  show "outbox_inv (moved_world now u StateValidated to w)" if "outbox_inv w" for w to now u
    using that keys_moved_world by (simp add: outbox_inv_def relay_inv_def moved_world_def)
  show "outbox_inv w'" if "outbox_inv w" "relayBatch (Publish ready) n now w = (rr, w')" for w ready n now rr w'
    using that relayBatch_inv by (auto simp: outbox_inv_def)
  show "outbox_inv w'" if "outbox_inv w"
    "settle c (AggregateCaptured pg) (PersistBatch pg now) draw a b w = (e, w')" for w now draw a b e w'
    using that by (blast intro: settled_outbox.engine.settle_keeps)
qed (auto simp: outbox_inv_def keys_inv_def relay_inv_def)

section \<open>The trail from the request to the books\<close>

text \<open>What an event, and what a leg, says about a stored payment.\<close>

definition event_of :: "pgtypes \<Rightarrow> payment_event \<Rightarrow> transaction \<Rightarrow> bool" where
  "event_of pg ev r \<longleftrightarrow>
     uuid_in pg (ev_PaymentID ev) = Some (PaymentID r) \<and> ev_AccountID ev = AccountID r \<and>
     ev_AmountMinor ev = MinorUnits (Amount r) \<and>
     char3_in pg (ev_Currency ev) = Some (Currency (Amount r))"

definition leg_of :: "ledger_row \<Rightarrow> transaction \<Rightarrow> bool" where
  "leg_of l r \<longleftrightarrow>
     lg_payment_id l = PaymentID r \<and> lg_amount_minor l = MinorUnits (Amount r) \<and>
     lg_currency l = Currency (Amount r) \<and>
     lg_account l = (if lg_direction l = ''DEBIT'' then AccountID r else ''clearing_account'')"

definition backed :: "codec \<Rightarrow> pgtypes \<Rightarrow> transaction list \<Rightarrow> payload \<Rightarrow> bool" where
  "backed c pg rows p \<longleftrightarrow> (\<forall>ev. UnmarshalEvent c p = Inr ev \<longrightarrow> (\<exists>r \<in> set rows. event_of pg ev r))"

text \<open>Every event in the outbox and in the log describes a stored payment, every leg belongs to one,
  and every stored payment has its row in the outbox.\<close>

definition trail_inv :: "codec \<Rightarrow> pgtypes \<Rightarrow> world \<Rightarrow> bool" where
  "trail_inv c pg w \<longleftrightarrow>
     (\<forall>ob \<in> set (outbox w). ob_topic ob = TopicPaymentsReceived \<longrightarrow>
        backed c pg (txns w) (Doc (ob_payload ob))) \<and>
     (\<forall>k \<in> set (klog w). kr_topic k = TopicPaymentsReceived \<longrightarrow> backed c pg (txns w) (kr_value k)) \<and>
     (\<forall>l \<in> set (ledger w). \<exists>r \<in> set (txns w). leg_of l r) \<and>
     (\<forall>r \<in> set (txns w). \<exists>ob \<in> set (outbox w). ob_topic ob = TopicPaymentsReceived \<and>
        ob_aggregate_id ob = PaymentID r \<and> ob_partition_key ob = AccountID r)"

text \<open>The columns of a payment that never change.\<close>

definition essence :: "transaction \<Rightarrow> string \<times> string \<times> money" where
  "essence r = (PaymentID r, AccountID r, Amount r)"

lemma essence_update_state [simp]:
  "map essence (update_where p (\<lambda>r. r\<lparr>State := x, UpdatedAt := y\<rparr>) rows) = map essence rows"
  by (rule map_update_where) (simp add: essence_def)

lemma essence_same:
  assumes "map essence rows' = map essence rows"
  shows "essence ` set rows' = essence ` set rows"
  using arg_cong [OF assms, of set] by simp

lemma essence_eq:
  "essence r' = essence r \<Longrightarrow> event_of pg ev r' = event_of pg ev r \<and> leg_of l r' = leg_of l r \<and>
     PaymentID r' = PaymentID r \<and> AccountID r' = AccountID r"
  by (simp add: essence_def event_of_def leg_of_def)

lemma essence_find:
  assumes "essence ` set rows \<subseteq> essence ` set rows'" "r \<in> set rows"
  obtains r' where "r' \<in> set rows'" "essence r' = essence r"
  using assms by (metis imageE imageI subsetD)

lemma backed_mono:
  assumes "essence ` set rows \<subseteq> essence ` set rows'" "backed c pg rows p"
  shows "backed c pg rows' p"
  using assms(2) unfolding backed_def by (metis essence_find [OF assms(1)] essence_eq)

text \<open>Steps that keep the essence of the payments and add only rows of other topics.\<close>

lemma trail_kept:
  assumes "trail_inv c pg w" "map essence (txns w') = map essence (txns w)" "ledger w' = ledger w"
    and "\<And>k. k \<in> set (klog w') \<Longrightarrow> k \<in> set (klog w) \<or> kr_topic k \<noteq> TopicPaymentsReceived \<or>
      (\<exists>ob \<in> set (outbox w). k = record_of ob)"
    and "\<And>ob. ob \<in> set (outbox w') \<Longrightarrow> ob_topic ob = TopicPaymentsReceived \<Longrightarrow>
      \<exists>ob' \<in> set (outbox w). ob_topic ob' = TopicPaymentsReceived \<and> ob_payload ob' = ob_payload ob"
    and "\<And>ob. ob \<in> set (outbox w) \<Longrightarrow> \<exists>ob' \<in> set (outbox w'). ob_topic ob' = ob_topic ob \<and>
      ob_aggregate_id ob' = ob_aggregate_id ob \<and> ob_partition_key ob' = ob_partition_key ob"
  shows "trail_inv c pg w'"
proof -
  have to: "essence ` set (txns w) \<subseteq> essence ` set (txns w')"
    and fro: "essence ` set (txns w') \<subseteq> essence ` set (txns w)"
    using essence_same [OF assms(2)] by simp_all
  note mono = backed_mono [OF to]
  show ?thesis
    unfolding trail_inv_def
  proof (intro conjI ballI impI)
    fix ob assume "ob \<in> set (outbox w')" "ob_topic ob = TopicPaymentsReceived"
    from assms(5) [OF this] assms(1) show "backed c pg (txns w') (Doc (ob_payload ob))"
      unfolding trail_inv_def by (metis mono)
  next
    fix k assume k: "k \<in> set (klog w')" "kr_topic k = TopicPaymentsReceived"
    with assms(4) consider "k \<in> set (klog w)" | ob where "ob \<in> set (outbox w)" "k = record_of ob" by blast
    then show "backed c pg (txns w') (kr_value k)"
    proof cases
      case 1
      with k(2) assms(1) show ?thesis unfolding trail_inv_def by (blast intro: mono)
    next
      case 2
      with k(2) assms(1) show ?thesis unfolding trail_inv_def by (auto simp: record_of_def intro: mono)
    qed
  next
    fix l assume "l \<in> set (ledger w')"
    with assms(1,3) obtain r where "r \<in> set (txns w)" "leg_of l r" by (auto simp: trail_inv_def)
    then show "\<exists>r \<in> set (txns w'). leg_of l r" by (metis essence_find [OF to] essence_eq)
  next
    fix r assume "r \<in> set (txns w')"
    then obtain r0 where "r0 \<in> set (txns w)" "essence r0 = essence r" by (rule essence_find [OF fro])
    with assms(1) obtain ob where "ob \<in> set (outbox w)" "ob_topic ob = TopicPaymentsReceived"
      "ob_aggregate_id ob = PaymentID r" "ob_partition_key ob = AccountID r"
      unfolding trail_inv_def by (metis essence_eq)
    then show "\<exists>ob \<in> set (outbox w'). ob_topic ob = TopicPaymentsReceived \<and>
        ob_aggregate_id ob = PaymentID r \<and> ob_partition_key ob = AccountID r"
      using assms(6) by metis
  qed
qed

lemma accepted_event_of:
  assumes "txn_row pg (accepted st t) = Inr row"
    and "MarshalEvent c (NewPaymentReceivedEvent i (accepted st t)) = Inr j"
    and "UnmarshalEvent c (Doc (jsonb rank j)) = Inr ev"
  shows "event_of pg ev row"
  using event_fields_survive [OF assms(2,3)] txn_row_fields [OF assms(1)]
  by (simp add: event_of_def NewPaymentReceivedEvent_def accepted_def)

lemma trail_saved:
  assumes "trail_inv c pg w" "insertable pg (accepted st t) row w"
    and "MarshalEvent c (NewPaymentReceivedEvent i (accepted st t)) = Inr j"
  shows "trail_inv c pg (saved_world pg (accepted st t) row j w)"
proof -
  have row: "txn_row pg (accepted st t) = Inr row" using assms(2) by (simp add: insertable_def)
  then have "backed c pg (txns w @ [row]) (Doc (jsonb (member_rank pg) j))"
    using accepted_event_of [OF row assms(3)] by (simp add: backed_def)
  moreover have "backed c pg (txns w @ [row]) p" if "backed c pg (txns w) p" for p
    using that by (rule backed_mono [rotated]) auto
  moreover have "AccountID row = AccountID (accepted st t)" using txn_row_fields [OF row] by simp
  ultimately show ?thesis
    using assms(1) by (auto simp: trail_inv_def saved_world_def TopicPaymentsReceived_def)
qed

lemma new_legs_of:
  assumes "event_of pg ev r" "uuid_in pg (ev_PaymentID ev) = Some u"
    and "char3_in pg (ev_Currency ev) = Some cur"
    and "l \<in> set (new_legs u cur (event_transaction ev) rows)"
  shows "leg_of l r"
proof -
  have "l \<in> set (both_legs u cur (event_transaction ev))"
    using assms(4) unfolding new_legs_def by (rule subsetD [OF filter_is_subset])
  with assms(1-3) show ?thesis
    by (auto simp: event_of_def both_legs_def leg_def leg_of_def event_transaction_def)
qed

lemma trail_booked:
  assumes "trail_inv c pg w" "posted_event c w ev"
    and "uuid_in pg (ev_PaymentID ev) = Some u" "char3_in pg (ev_Currency ev) = Some cur"
  shows "trail_inv c pg (w\<lparr>ledger := ledger w @ new_legs u cur (event_transaction ev) (ledger w)\<rparr>)"
proof -
  from assms(1,2) obtain r where "r \<in> set (txns w)" "event_of pg ev r"
    unfolding posted_event_def trail_inv_def backed_def by blast
  with assms(1) new_legs_of [OF _ assms(3,4)] show ?thesis
    unfolding trail_inv_def by auto
qed

lemma mark_all_rows:
  assumes "ob \<in> set (mark_all now sent rows)"
  obtains ob' where "ob' \<in> set rows" "ob_topic ob' = ob_topic ob" "ob_payload ob' = ob_payload ob"
  using assms unfolding mark_all_def set_update_where by (auto split: if_splits)

lemma mark_all_kept:
  assumes "ob \<in> set rows"
  obtains ob' where "ob' \<in> set (mark_all now sent rows)" "ob_topic ob' = ob_topic ob"
    "ob_aggregate_id ob' = ob_aggregate_id ob" "ob_partition_key ob' = ob_partition_key ob"
proof -
  let ?f = "\<lambda>r. if ob_id r \<in> ob_id ` set sent then r\<lparr>ob_published_at := Some now\<rparr> else r"
  have "?f ob \<in> set (mark_all now sent rows)"
    using assms unfolding mark_all_def set_update_where by blast
  then show ?thesis by (rule that) simp_all
qed

lemma select_unpublished_subset: "set (select_unpublished n w) \<subseteq> set (outbox w)"
  unfolding select_unpublished_def using set_take_subset by fastforce

lemma trail_relayed:
  assumes "trail_inv c pg w" "relayBatch (Publish ready) n now w = (rr, w')"
  shows "trail_inv c pg w'"
proof -
  from producer.relayBatch_prefix [OF assms(2)] obtain a b s where
    w': "w' = w\<lparr>klog := klog w @ map record_of (take a (select_unpublished n w)),
      outbox := mark_all now (take b (select_unpublished n w)) (outbox w), script := s\<rparr>"
    unfolding Relay.relayed_def by blast
  show ?thesis
  proof (rule trail_kept [OF assms(1)])
    fix k assume "k \<in> set (klog w')"
    then show "k \<in> set (klog w) \<or> kr_topic k \<noteq> TopicPaymentsReceived \<or> (\<exists>ob \<in> set (outbox w). k = record_of ob)"
      using select_unpublished_subset [of n w] unfolding w' by (auto dest!: in_set_takeD)
  next
    fix ob assume "ob \<in> set (outbox w')" "ob_topic ob = TopicPaymentsReceived"
    then show "\<exists>ob' \<in> set (outbox w). ob_topic ob' = TopicPaymentsReceived \<and> ob_payload ob' = ob_payload ob"
      unfolding w' by simp (metis mark_all_rows)
  next
    fix ob assume "ob \<in> set (outbox w)"
    then show "\<exists>ob' \<in> set (outbox w'). ob_topic ob' = ob_topic ob \<and>
        ob_aggregate_id ob' = ob_aggregate_id ob \<and> ob_partition_key ob' = ob_partition_key ob"
      unfolding w' using mark_all_kept [of ob "outbox w" now "take b (select_unpublished n w)"] by force
  qed (simp_all add: w')
qed

lemma trail_simple:
  assumes "trail_inv c pg w" "map essence (txns w') = map essence (txns w)" "ledger w' = ledger w"
    and "klog w' = klog w @ extra" "\<forall>k \<in> set extra. kr_topic k \<noteq> TopicPaymentsReceived"
    and "outbox w' = outbox w @ rows" "\<forall>ob \<in> set rows. ob_topic ob \<noteq> TopicPaymentsReceived"
  shows "trail_inv c pg w'"
  by (rule trail_kept [OF assms(1-3)]) (use assms(4-7) in auto)

interpretation settled_trail: batch_invariant "trail_inv c pg" pg for c pg
proof
  show "trail_inv c pg (settled_world pg now row us js jp w)" if "trail_inv c pg w" for w now row us js jp
    using that
    by (rule trail_simple [where extra = "[]" and rows = "payout_rows pg now (outbox_seq w) (bt_ID row)
        (bt_AccountID row) js jp"])
      (simp_all add: settled_world_def settled_txns_def payout_rows_def TopicPaymentsReceived_def)
qed (simp_all add: trail_inv_def)

interpretation trail: pipeline_invariant "trail_inv c pg" c pg for c pg
proof
  show "trail_inv c pg (moved_world now u StateValidated to w)" if "trail_inv c pg w" for w to now u
    using that by (rule trail_simple [where extra = "[]" and rows = "[]"]) (simp_all add: moved_world_def)
  show "trail_inv c pg (w\<lparr>klog := klog w @ [\<lparr>kr_topic = TopicDLQ, kr_key = key, kr_value = p\<rparr>]\<rparr>)"
    if "trail_inv c pg w" for w key p
    using that by (rule trail_simple [where extra = "[\<lparr>kr_topic = TopicDLQ, kr_key = key, kr_value = p\<rparr>]"
        and rows = "[]"]) (simp_all add: TopicDLQ_def TopicPaymentsReceived_def)
  show "trail_inv c pg w'" if "trail_inv c pg w"
    "settle c (AggregateCaptured pg) (PersistBatch pg now) draw a b w = (e, w')" for w now draw a b e w'
    using that by (blast intro: settled_trail.engine.settle_keeps)
  show "trail_inv c pg (w\<lparr>scores := scores w @ [stored_score u sc]\<rparr>)" if "trail_inv c pg w" for w u sc
    using that by (simp add: trail_inv_def)
qed (blast intro: trail_saved trail_booked trail_relayed)+

section \<open>The audit trail\<close>

definition moves_of :: "string \<Rightarrow> transition_row list \<Rightarrow> (state \<times> state) list" where
  "moves_of u es = map (\<lambda>e. (tr_from e, tr_to e)) (filter (\<lambda>e. tr_payment_id e = u) es)"

text \<open>The moves the audit table holds for a payment in a given state.\<close>

definition moves_to :: "state \<Rightarrow> (state \<times> state) list" where
  "moves_to x =
     (if x = StateValidated then []
      else if x = StateFailed then [(StateValidated, StateFailed)]
      else [(StateValidated, StateCaptured)])"

definition audit_inv :: "world \<Rightarrow> bool" where
  "audit_inv w \<longleftrightarrow>
     distinct (map PaymentID (txns w)) \<and>
     (\<forall>e \<in> set (transitions w). tr_payment_id e \<in> PaymentID ` set (txns w)) \<and>
     (\<forall>r \<in> set (txns w).
        State r \<in> {StateValidated, StateCaptured, StateFailed, StateSettled} \<and>
        moves_of (PaymentID r) (transitions w) = moves_to (State r))"

lemmas state_names = StateValidated_def StateCaptured_def StateFailed_def StateSettled_def

lemma moves_of_append [simp]: "moves_of u (xs @ ys) = moves_of u xs @ moves_of u ys"
  by (simp add: moves_of_def)

lemma moves_of_fresh: "\<forall>e \<in> set es. tr_payment_id e \<noteq> u \<Longrightarrow> moves_of u es = []"
  by (simp add: moves_of_def filter_empty_conv)

lemma moves_of_single: "moves_of u [\<lparr>tr_payment_id = v, tr_from = a, tr_to = b, tr_at = now\<rparr>] =
    (if v = u then [(a, b)] else [])"
  by (simp add: moves_of_def)

lemma audit_saved:
  assumes "audit_inv w" "insertable pg (accepted st t) row w"
  shows "audit_inv (saved_world pg (accepted st t) row j w)"
proof -
  have new: "PaymentID row \<notin> PaymentID ` set (txns w)" "State row = StateValidated"
    using assms(2) txn_row_fields [of pg "accepted st t" row] by (auto simp: insertable_def accepted_def)
  have "moves_of (PaymentID row) (transitions w) = []"
    by (rule moves_of_fresh) (use assms(1) new(1) in \<open>metis audit_inv_def\<close>)
  with new assms(1) show ?thesis
    by (auto simp: audit_inv_def saved_world_def moves_to_def)
qed

lemma audit_moved:
  assumes "audit_inv w" "to = StateCaptured \<or> to = StateFailed"
    and "\<exists>row \<in> set (txns w). PaymentID row = u \<and> State row = StateValidated"
  shows "audit_inv (moved_world now u StateValidated to w)"
proof -
  let ?w' = "moved_world now u StateValidated to w"
  from assms(3) obtain row where row: "row \<in> set (txns w)" "PaymentID row = u" "State row = StateValidated"
    by blast
  have ids: "map PaymentID (txns ?w') = map PaymentID (txns w)"
    by (simp add: moved_world_def map_update_where)
  have "State r' \<in> {StateValidated, StateCaptured, StateFailed, StateSettled} \<and>
      moves_of (PaymentID r') (transitions ?w') = moves_to (State r')" if r': "r' \<in> set (txns ?w')" for r'
  proof -
    from r' obtain r where r: "r \<in> set (txns w)"
      "r' = (if PaymentID r = u \<and> State r = StateValidated then r\<lparr>State := to, UpdatedAt := now\<rparr> else r)"
      by (auto simp: moved_world_def set_update_where)
    show ?thesis
    proof (cases "PaymentID r = u")
      case True
      with row r(1) assms(1) have "r = row" using distinct_map_unique by (metis audit_inv_def)
      with row r assms(1,2) have "moves_of u (transitions w) = []" "r' = row\<lparr>State := to, UpdatedAt := now\<rparr>"
        by (auto simp: audit_inv_def moves_to_def)
      with row(2) assms(2) show ?thesis
        by (auto simp: moved_world_def moves_of_single moves_to_def state_names)
    next
      case False
      with r assms(1) show ?thesis by (auto simp: moved_world_def moves_of_single audit_inv_def)
    qed
  qed
  moreover have "tr_payment_id e \<in> PaymentID ` set (txns ?w')" if "e \<in> set (transitions ?w')" for e
    using that row assms(1) arg_cong [OF ids, of set] by (auto simp: moved_world_def audit_inv_def)
  ultimately show ?thesis using assms(1) ids by (simp add: audit_inv_def)
qed

lemma audit_settled_world:
  assumes "audit_inv w"
  shows "audit_inv (settled_world pg now row us js jp w)"
proof -
  have ids: "map PaymentID (settled_txns now us (txns w)) = map PaymentID (txns w)" by simp
  have "State r' \<in> {StateValidated, StateCaptured, StateFailed, StateSettled} \<and>
      moves_of (PaymentID r') (transitions w) = moves_to (State r')"
    if r': "r' \<in> set (settled_txns now us (txns w))" for r'
  proof -
    from r' obtain r where r: "r \<in> set (txns w)" "r' = (if PaymentID r \<in> set us \<and> State r = StateCaptured
        then r\<lparr>State := StateSettled, UpdatedAt := now\<rparr> else r)"
      by (auto simp: settled_txns_def set_update_where)
    with assms show ?thesis by (auto simp: audit_inv_def moves_to_def state_names)
  qed
  moreover have "PaymentID ` set (settled_txns now us (txns w)) = PaymentID ` set (txns w)"
    using arg_cong [OF ids, of set] by (simp only: set_map)
  ultimately show ?thesis using assms by (simp add: audit_inv_def settled_world_def)
qed

lemma audit_inv_cong: "txns w' = txns w \<Longrightarrow> transitions w' = transitions w \<Longrightarrow> audit_inv w' \<longleftrightarrow> audit_inv w"
  by (simp add: audit_inv_def)

lemma audit_frame [simp]:
  "audit_inv (w\<lparr>script := x1\<rparr>) = audit_inv w" "audit_inv (w\<lparr>outbox_seq := x2\<rparr>) = audit_inv w"
  "audit_inv (w\<lparr>klog := x3\<rparr>) = audit_inv w" "audit_inv (w\<lparr>ledger := x4\<rparr>) = audit_inv w"
  "audit_inv (w\<lparr>scores := x5\<rparr>) = audit_inv w"
  by (simp_all add: audit_inv_def)

interpretation settled_audit: batch_invariant audit_inv pg for pg
  by unfold_locales (simp_all add: audit_settled_world)

interpretation audit: pipeline_invariant audit_inv c pg for c pg
proof
  show "audit_inv w'" if "audit_inv w" "relayBatch (Publish ready) n now w = (rr, w')" for w ready n now rr w'
    using that relayBatch_ledger audit_inv_cong by metis
  show "audit_inv w'" if "audit_inv w"
    "settle c (AggregateCaptured pg) (PersistBatch pg now) draw a b w = (e, w')" for w now draw a b e w'
    using that by (blast intro: settled_audit.engine.settle_keeps)
qed (simp_all add: audit_saved audit_moved)

section \<open>Money\<close>

text \<open>The values a column returns are read back as they are.\<close>

definition canonical_types :: "pgtypes \<Rightarrow> bool" where
  "canonical_types pg \<longleftrightarrow>
     (\<forall>s u. uuid_in pg s = Some u \<longrightarrow> uuid_in pg u = Some u) \<and>
     (\<forall>s x. char3_in pg s = Some x \<longrightarrow> char3_in pg x = Some x)"

lemma conserved_saved:
  assumes "canonical_types pg" "conserved pg w" "insertable pg (accepted st t) row w"
  shows "conserved pg (saved_world pg (accepted st t) row j w)"
proof -
  have "txn_row pg (accepted st t) = Inr row" using assms(3) by (simp add: insertable_def)
  note fields = txn_row_fields [OF this]
  have "State row = StateValidated" using fields by (simp add: accepted_def)
  then have "\<not> is_settled k row" for k
    by (simp add: is_settled_def StateValidated_def StateSettled_def StateReconciled_def)
  moreover have "uuid_in pg (PaymentID row) = Some (PaymentID row) \<and>
      char3_in pg (Currency (Amount row)) = Some (Currency (Amount row))"
    using fields assms(1) unfolding canonical_types_def by blast
  ultimately show ?thesis
    using assms(2,3) by (simp add: conserved_def stored_columns_def saved_world_def insertable_def)
qed

lemma moved_unsettled:
  assumes "to = StateCaptured \<or> to = StateFailed"
  shows "map (\<lambda>r. MinorUnits (Amount r)) (filter (is_settled k)
      (update_where (\<lambda>r. PaymentID r = u \<and> State r = StateValidated)
        (\<lambda>r. r\<lparr>State := to, UpdatedAt := now\<rparr>) rows)) =
    map (\<lambda>r. MinorUnits (Amount r)) (filter (is_settled k) rows)"
  by (induction rows)
    (use assms in \<open>auto simp: is_settled_def group_key_def state_names StateReconciled_def\<close>)

lemma sum_minor_cong: "map (\<lambda>r. MinorUnits (Amount r)) xs = map (\<lambda>r. MinorUnits (Amount r)) ys \<Longrightarrow>
    sum_minor xs = sum_minor ys"
proof -
  assume eq: "map (\<lambda>r. MinorUnits (Amount r)) xs = map (\<lambda>r. MinorUnits (Amount r)) ys"
  from arg_cong [OF this, of "\<lambda>l. sum_list (map sint l)"] show ?thesis by (simp add: sum_minor_def comp_def)
qed

lemma conserved_moved:
  assumes "conserved pg w" "to = StateCaptured \<or> to = StateFailed"
  shows "conserved pg (moved_world now u StateValidated to w)"
proof -
  have "stored_columns pg (moved_world now u StateValidated to w)"
    using assms(1) by (auto simp: conserved_def stored_columns_def moved_world_def set_update_where)
  moreover have "map PaymentID (txns (moved_world now u StateValidated to w)) = map PaymentID (txns w)"
    by (simp add: moved_world_def map_update_where)
  ultimately show ?thesis
    using assms(1) sum_minor_cong [OF moved_unsettled [OF assms(2)]]
    by (simp add: conserved_def moved_world_def)
qed

lemma conserved_frame [simp]:
  "conserved pg (w\<lparr>script := x1\<rparr>) = conserved pg w" "conserved pg (w\<lparr>outbox_seq := x2\<rparr>) = conserved pg w"
  "conserved pg (w\<lparr>klog := x3\<rparr>) = conserved pg w" "conserved pg (w\<lparr>ledger := x4\<rparr>) = conserved pg w"
  "conserved pg (w\<lparr>scores := x5\<rparr>) = conserved pg w"
  by (simp_all add: conserved_def stored_columns_def)

lemma conserved_cong: "txns w' = txns w \<Longrightarrow> batches w' = batches w \<Longrightarrow> conserved pg w' \<longleftrightarrow> conserved pg w"
  by (simp add: conserved_def stored_columns_def)

definition money_inv :: "pgtypes \<Rightarrow> world \<Rightarrow> bool" where
  "money_inv pg w \<longleftrightarrow> canonical_types pg \<longrightarrow> conserved pg w"

interpretation money: pipeline_invariant "money_inv pg" c pg for c pg
proof
  show "money_inv pg w'" if "money_inv pg w" "relayBatch (Publish ready) n now w = (rr, w')" for w ready n now rr w'
    using that relayBatch_ledger conserved_cong unfolding money_inv_def by metis
  show "money_inv pg w'" if "money_inv pg w"
    "settle c (AggregateCaptured pg) (PersistBatch pg now) draw a b w = (e, w')" for w now draw a b e w'
    using that settlement.settle_keeps unfolding money_inv_def by blast
qed (simp_all add: money_inv_def conserved_saved conserved_moved)

end
