(* ===== verification/Concurrency.thy ===== *)
theory Concurrency
  imports Programs Pipeline_Invariants
begin

text \<open>
  The processes interleaved, action by action: any number of submissions, batches of the relay,
  deliveries and settlements are under way at once, each may die between two of its actions, and calls
  fail as the script of the world says.

  \<^item> \<open>engines\<close> is the number of settlement processes. Each settles one window after the other.
  \<^item> The locale \<open>atomic_invariant\<close> states what the atomic effects have to preserve, and which groups an
    engine may take for current; every program is then safe, and the invariant holds in every reachable
    configuration. It is interpreted with the invariants of theory \<open>Pipeline_Invariants\<close> together.
\<close>

section \<open>The system\<close>

inductive started ::
  "codec \<Rightarrow> pgtypes \<Rightarrow> 'r redis_client \<Rightarrow> int64 \<Rightarrow> nat \<Rightarrow> world \<times> 'r \<Rightarrow> token set \<Rightarrow> ('r, unit) process \<Rightarrow> bool"
  for c :: codec and pg :: pgtypes and client :: "'r redis_client" and ttl :: int64 and engines :: nat
where
  submission: "started c pg client ttl engines st {}
    (and_then (submit_program c pg client ttl stamp req) (\<lambda>_. Ret ()))"
| relay_batch: "started c pg client ttl engines st {}
    (and_then (relay_program ready NewPostgresRelay_batchSize now) (\<lambda>_. Ret ()))"
| ledger_delivery: "rec \<in> set (klog (fst st)) \<Longrightarrow> kr_topic rec = TopicPaymentsReceived \<Longrightarrow>
    started c pg client ttl engines st {}
      (and_then (retried_program c ready now ''ledger-consumer''
        (ledger_handle_program c pg now (kr_key rec) (kr_value rec)) (kr_key rec) (kr_value rec)) (\<lambda>_. Ret ()))"
| fraud_delivery: "rec \<in> set (klog (fst st)) \<Longrightarrow> kr_topic rec = TopicPaymentsReceived \<Longrightarrow>
    started c pg client ttl engines st {}
      (and_then (retried_program c ready now ''fraud-consumer''
        (fraud_handle_program c pg client (kr_key rec) (kr_value rec)) (kr_key rec) (kr_value rec)) (\<lambda>_. Ret ()))"
| notification_delivery: "rec \<in> set (klog (fst st)) \<Longrightarrow> kr_topic rec = TopicPaymentsReceived \<Longrightarrow>
    started c pg client ttl engines st {}
      (and_then (retried_program c ready now ''notification-consumer''
        (notification_handle_program c (kr_key rec) (kr_value rec)) (kr_key rec) (kr_value rec)) (\<lambda>_. Ret ()))"
| offset_commit: "started c pg client ttl engines st {}
    (and_then (statement (commit_offset krec)) (\<lambda>_. Ret ()))"
| settlement: "k < engines \<Longrightarrow> started c pg client ttl engines st {Engine k}
    (and_then (settle_program c pg now draw a b) (\<lambda>_. Ret ()))"

text \<open>The environment decides how the next calls end, and may change anything inside Redis.\<close>

definition surroundings :: "world \<times> 'r \<Rightarrow> world \<times> 'r \<Rightarrow> bool" where
  "surroundings st st' \<longleftrightarrow> (\<exists>xs. fst st' = (fst st)\<lparr>script := xs\<rparr>)"

definition interleaved_run ::
  "codec \<Rightarrow> pgtypes \<Rightarrow> 'r redis_client \<Rightarrow> int64 \<Rightarrow> nat \<Rightarrow>
   (world \<times> 'r) \<times> (world \<times> 'r, token) thread list \<Rightarrow> (world \<times> 'r) \<times> (world \<times> 'r, token) thread list \<Rightarrow> bool" where
  "interleaved_run c pg client ttl engines = system_run (started c pg client ttl engines) surroundings"

section \<open>What the threads rely on and guarantee\<close>

text \<open>
  What is recorded stays: the log and the tables that are only inserted into grow at their end, and a payment
  keeps all but its state, which moves forward.
\<close>

definition grows :: "'a list \<Rightarrow> 'a list \<Rightarrow> bool" where
  "grows xs ys \<longleftrightarrow> take (length xs) ys = xs"

lemma grows_refl [simp]: "grows xs xs"
  by (simp add: grows_def)

lemma grows_append [simp]: "grows xs (xs @ ys)"
  by (simp add: grows_def)

lemma grows_trans: "grows xs ys \<Longrightarrow> grows ys zs \<Longrightarrow> grows xs zs"
  unfolding grows_def by (metis length_take min.absorb_iff2 min.commute take_take)

definition forward :: "(state \<times> state) set" where
  "forward = {(StateValidated, StateCaptured), (StateValidated, StateFailed), (StateCaptured, StateSettled),
     (StateValidated, StateSettled)}"

definition advanced :: "transaction \<Rightarrow> transaction \<Rightarrow> bool" where
  "advanced r r' \<longleftrightarrow>
     r' = r\<lparr>State := State r', UpdatedAt := UpdatedAt r'\<rparr> \<and> (State r' = State r \<or> (State r, State r') \<in> forward)"

lemma advanced_refl [simp]: "advanced r r"
  by (simp add: advanced_def)

lemma advanced_trans: "advanced r r' \<Longrightarrow> advanced r' r'' \<Longrightarrow> advanced r r''"
  by (cases r; cases r'; cases r'') (auto simp: advanced_def forward_def state_names)

lemma advanced_moved: "(State r, to) \<in> forward \<Longrightarrow> advanced r (r\<lparr>State := to, UpdatedAt := now\<rparr>)"
  by (simp add: advanced_def)

definition history :: "world \<Rightarrow> world \<Rightarrow> bool" where
  "history w w' \<longleftrightarrow>
     grows (ledger w) (ledger w') \<and> grows (transitions w) (transitions w') \<and> grows (batches w) (batches w') \<and>
     grows (scores w) (scores w') \<and> grows (klog w) (klog w') \<and>
     (\<forall>r \<in> set (txns w). \<exists>r' \<in> set (txns w'). advanced r r')"

lemma history_trans: "history w w' \<Longrightarrow> history w' w'' \<Longrightarrow> history w w''"
  unfolding history_def by (meson advanced_trans grows_trans)

lemma history_appended:
  assumes "grows (ledger w) (ledger w')" "grows (transitions w) (transitions w')" "grows (batches w) (batches w')"
    "grows (scores w) (scores w')" "grows (klog w) (klog w')" "set (txns w) \<subseteq> set (txns w')"
  shows "history w w'"
  using assms advanced_refl unfolding history_def by blast

lemma history_updated:
  assumes "grows (ledger w) (ledger w')" "grows (transitions w) (transitions w')" "grows (batches w) (batches w')"
    "grows (scores w) (scores w')" "grows (klog w) (klog w')"
    and "txns w' = update_where P (\<lambda>r. r\<lparr>State := to, UpdatedAt := now\<rparr>) (txns w)"
    and "\<And>r. P r \<Longrightarrow> (State r, to) \<in> forward"
  shows "history w w'"
proof -
  have "\<exists>r' \<in> set (txns w'). advanced r r'" if "r \<in> set (txns w)" for r
    using that assms(6,7) advanced_moved
    by (intro bexI [of _ "if P r then r\<lparr>State := to, UpdatedAt := now\<rparr> else r"]) (auto simp: set_update_where)
  with assms(1-5) show ?thesis by (simp add: history_def)
qed

text \<open>Nothing is ever taken back: logged records, booked legs and outbox rows stay.\<close>

definition evolves :: "world \<Rightarrow> world \<Rightarrow> bool" where
  "evolves w w' \<longleftrightarrow>
     set (klog w) \<subseteq> set (klog w') \<and> set (ledger w) \<subseteq> set (ledger w') \<and>
     (\<forall>ob \<in> set (outbox w). \<exists>ob' \<in> set (outbox w'). ob_id ob' = ob_id ob \<and> record_of ob' = record_of ob) \<and>
     history w w'"

lemma evolves_refl [simp]: "evolves w w"
  by (auto simp: evolves_def intro: history_appended)

lemma evolves_trans: "evolves w w' \<Longrightarrow> evolves w' w'' \<Longrightarrow> evolves w w''"
proof -
  assume a: "evolves w w'" "evolves w' w''"
  then have "history w w''" unfolding evolves_def by (blast intro: history_trans)
  moreover have "\<exists>ob'' \<in> set (outbox w''). ob_id ob'' = ob_id ob \<and> record_of ob'' = record_of ob"
    if "ob \<in> set (outbox w)" for ob
    using a that unfolding evolves_def by metis
  ultimately show ?thesis using a unfolding evolves_def by blast
qed

definition relies ::
  "nat \<Rightarrow> (captured_group \<Rightarrow> world \<Rightarrow> bool) \<Rightarrow> token set \<Rightarrow> world \<times> 'r \<Rightarrow> world \<times> 'r \<Rightarrow> bool" where
  "relies engines current h st st' \<longleftrightarrow>
     evolves (fst st) (fst st') \<and>
     (\<forall>u d. Leg u d \<in> h \<longrightarrow> ledger_conflict u d (ledger (fst st')) \<longrightarrow> ledger_conflict u d (ledger (fst st))) \<and>
     ((\<exists>k < engines. Engine k \<in> h) \<longrightarrow> (\<forall>g. current g (fst st) \<longrightarrow> current g (fst st')))"

definition guarantees ::
  "nat \<Rightarrow> (captured_group \<Rightarrow> world \<Rightarrow> bool) \<Rightarrow> token set \<Rightarrow> world \<times> 'r \<Rightarrow> world \<times> 'r \<Rightarrow> bool" where
  "guarantees engines current h st st' \<longleftrightarrow>
     evolves (fst st) (fst st') \<and>
     (\<forall>u d. ledger_conflict u d (ledger (fst st')) \<longrightarrow> ledger_conflict u d (ledger (fst st)) \<or> Leg u d \<in> h) \<and>
     ((\<exists>k < engines. Engine k \<in> h) \<or> (\<forall>g. current g (fst st) \<longrightarrow> current g (fst st')))"

text \<open>After both inserts of \<open>Post\<close>: either no leg was missing, or both are pending, and locked.\<close>

definition pending_state ::
  "string \<Rightarrow> string \<Rightarrow> transaction \<Rightarrow> ledger_row list \<Rightarrow> nat \<Rightarrow> nat \<Rightarrow> token set \<Rightarrow> world \<Rightarrow> bool" where
  "pending_state u cur t pending n m h w \<longleftrightarrow>
     (n = 0 \<and> m = 0 \<and> h = {} \<or>
      \<not> (n = 0 \<and> m = 0) \<and> h = {Leg u ''DEBIT'', Leg u ''CREDIT''} \<and> pending = both_legs u cur t \<and>
        \<not> ledger_conflict u ''DEBIT'' (ledger w) \<and> \<not> ledger_conflict u ''CREDIT'' (ledger w))"

lemma relies_evolves: "relies engines current h (w, s) (w', s') \<Longrightarrow> evolves w w'"
  by (simp add: relies_def)

lemma guarantees_evolves: "guarantees engines current h (w, s) (w', s') \<Longrightarrow> evolves w w'"
  by (simp add: guarantees_def)

text \<open>The rows a batch of the relay has selected are in the outbox, whatever the others did to them.\<close>

definition present :: "outbox_row list \<Rightarrow> world \<Rightarrow> bool" where
  "present rows w \<longleftrightarrow>
     (\<forall>row \<in> set rows. \<exists>ob \<in> set (outbox w). ob_id ob = ob_id row \<and> record_of ob = record_of row)"

section \<open>What an invariant of the interleaved system has to survive\<close>

locale atomic_invariant = effect_invariant I c pg for I :: "world \<Rightarrow> bool" and c :: codec and pg :: pgtypes +
  fixes engines :: nat and current :: "captured_group \<Rightarrow> world \<Rightarrow> bool"
  assumes double: "I w \<Longrightarrow> ledger_inv w"
    and published: "I w \<Longrightarrow> ob \<in> set (outbox w) \<Longrightarrow> I (w\<lparr>klog := klog w @ [record_of ob]\<rparr>)"
    and marked: "I w \<Longrightarrow> ob \<in> set (outbox w) \<Longrightarrow> record_of ob \<in> set (klog w) \<Longrightarrow>
      I (w\<lparr>outbox := update_where (\<lambda>r. ob_id r = ob_id ob) (\<lambda>r. r\<lparr>ob_published_at := Some now\<rparr>) (outbox w)\<rparr>)"
    and persisted: "I w \<Longrightarrow> current g w \<Longrightarrow> batch_columns pg (group_batch d g a b) = Inr row \<Longrightarrow>
      new_batch row w \<Longrightarrow>
      uuid_array pg (cg_PaymentIDs g) = Inr us \<Longrightarrow> I (settled_world pg now row us js jp w)"
    and aggregated: "I w \<Longrightarrow> AggregateCaptured pg a b w = (Inr gs, w') \<Longrightarrow>
      distinct (map cg_key gs) \<and> (\<forall>g \<in> set gs. current g w')"
    and current_cong: "txns w' = txns w \<Longrightarrow> current g w \<Longrightarrow> current g w'"
    and current_saved: "insertable pg t r w \<Longrightarrow> current g w \<Longrightarrow> current g (saved_world pg t r j w)"
    and current_moved: "current g w \<Longrightarrow> current g (moved_world now u StateValidated to w)"
    and current_others: "current g w \<Longrightarrow> current g' w \<Longrightarrow> cg_key g' \<noteq> cg_key g \<Longrightarrow>
      uuid_array pg (cg_PaymentIDs g) = Inr us \<Longrightarrow> current g' (settled_world pg now row us js jp w)"
    and one_engine: "engines \<le> 1 \<or> (\<forall>g w. current g w)"
begin

abbreviation safely ::
  "('r, 'a) process \<Rightarrow> ('a \<Rightarrow> token set \<Rightarrow> world \<times> 'r \<Rightarrow> bool) \<Rightarrow> token set \<Rightarrow> world \<times> 'r \<Rightarrow> bool" where
  "safely \<equiv> safe (\<lambda>st. I (fst st)) (relies engines current) (guarantees engines current)"

sublocale rules: relying "\<lambda>st. I (fst st)" "relies engines current" "guarantees engines current"
  by unfold_locales (auto simp: relies_def intro: evolves_trans)

lemma guarantees_rely:
  "guarantees engines current h st st' \<Longrightarrow> h \<inter> h' = {} \<Longrightarrow> relies engines current h' st st'"
proof -
  assume g: "guarantees engines current h st st'" "h \<inter> h' = {}"
  have "current x (fst st')" if k: "k < engines" "Engine k \<in> h'" "current x (fst st)" for k x
  proof (cases "engines \<le> 1")
    case True
    then have "j = k" if "j < engines" for j using that k(1) by linarith
    with k g show ?thesis unfolding guarantees_def by blast
  next
    case False
    with one_engine show ?thesis by blast
  qed
  moreover have "ledger_conflict u d (ledger (fst st))"
    if "Leg u d \<in> h'" "ledger_conflict u d (ledger (fst st'))" for u d
    using that g unfolding guarantees_def by blast
  ultimately show ?thesis using g(1) unfolding guarantees_def relies_def by blast
qed

lemma safe_statement_locked:
  assumes "\<And>w s x w'. relies engines current h st (w, s) \<Longrightarrow> I w \<Longrightarrow> f w = (x, w') \<Longrightarrow>
    I w' \<and> guarantees engines current h (w, s) (w', s) \<and> safely (g x) Q (after_lock (l x) h) (w', s)"
  shows "safely (and_then (locking_statement l f) g) Q h st"
  unfolding locking_statement_def
  by (rule rules.safe_locked) (use assms in \<open>auto simp: on_world_def split: prod.splits\<close>)

lemma safe_statement:
  assumes "\<And>w s x w'. relies engines current h st (w, s) \<Longrightarrow> I w \<Longrightarrow> f w = (x, w') \<Longrightarrow>
    I w' \<and> guarantees engines current h (w, s) (w', s) \<and> safely (g x) Q h (w', s)"
  shows "safely (and_then (statement f) g) Q h st"
  using safe_statement_locked [of h st f g Q "\<lambda>_. Keep"] assms
  by (simp add: statement_def locking_statement_def atomic_def)

lemma safe_command:
  assumes "\<And>w s x s'. relies engines current h st (w, s) \<Longrightarrow> I w \<Longrightarrow> f s = (x, s') \<Longrightarrow>
    safely (g x) Q h (w, s')"
  shows "safely (and_then (command f) g) Q h st"
  unfolding command_def
  by (rule rules.safe_atomic)
    (use assms in \<open>auto simp: on_redis_def guarantees_def split: prod.splits\<close>)

lemma safe_Ret: "(\<And>w s. relies engines current h st (w, s) \<Longrightarrow> I w \<Longrightarrow> Q x h (w, s)) \<Longrightarrow> safely (Ret x) Q h st"
  by auto

text \<open>A step that touches neither the ledger nor the payments.\<close>

lemma guarantees_plain:
  "evolves w w' \<Longrightarrow> ledger w' = ledger w \<Longrightarrow> txns w' = txns w \<Longrightarrow> guarantees engines current h (w, s) (w', s')"
  using current_cong by (auto simp: guarantees_def)

lemma guarantees_idle: "idle w w' \<Longrightarrow> guarantees engines current h (w, s) (w', s')"
  by (rule guarantees_plain) (auto simp: idle_tables evolves_def intro: history_appended)

lemma relies_logged:
  "relies engines current h st st' \<Longrightarrow> rec \<in> set (klog (fst st)) \<Longrightarrow> rec \<in> set (klog (fst st'))"
  by (auto simp: relies_def evolves_def)

lemma guarantees_logged:
  "guarantees engines current h st st' \<Longrightarrow> rec \<in> set (klog (fst st)) \<Longrightarrow> rec \<in> set (klog (fst st'))"
  by (auto simp: guarantees_def evolves_def)

lemma call_step:
  assumes "call eff w = (x, w')" "I w" "\<And>v y v'. eff v = Inr (y, v') \<Longrightarrow> v' = v"
  shows "I w' \<and> guarantees engines current h (w, s) (w', s)"
proof -
  have "idle w w'" using assms(1) by (cases rule: call_cases) (auto dest: assms(3))
  with assms(2) show ?thesis by (simp add: idle_keeps guarantees_idle)
qed

lemma UpdateState_step:
  assumes "UpdateState pg now pid StateValidated to w = (x, w')" "I w" "to = StateCaptured \<or> to = StateFailed"
  shows "I w' \<and> guarantees engines current h (w, s) (w', s) \<and> ledger w' = ledger w \<and> klog w' = klog w"
proof -
  have "guarantees engines current h (w, s) (w', s)"
    using assms(1)
  proof (cases rule: UpdateState_cases)
    case unchanged
    then show ?thesis by (simp add: guarantees_idle)
  next
    case (moved u z)
    have "current g w'" if "current g w" for g
      using current_cong [OF _ current_moved [OF that]] moved by simp
    moreover have "history w w'"
      using assms(3) unfolding moved
      by (intro history_updated [where to = to and now = now and P = "\<lambda>r. PaymentID r = u \<and> State r = StateValidated"]) (auto simp: moved_world_def forward_def)
    ultimately show ?thesis using moved by (auto simp: guarantees_def evolves_def moved_world_def)
  qed
  with UpdateState_keeps [OF assms] UpdateState_ledger [OF assms(1)] UpdateState_klog [OF assms(1)]
  show ?thesis by simp
qed

lemma Publish_step:
  assumes "Publish ready topic key p w = (x, w')" "I w" "I (w\<lparr>klog := klog w @ [\<lparr>kr_topic = topic, kr_key = key, kr_value = p\<rparr>]\<rparr>)"
  shows "I w' \<and> guarantees engines current h (w, s) (w', s) \<and>
    (x = None \<longrightarrow> \<lparr>kr_topic = topic, kr_key = key, kr_value = p\<rparr> \<in> set (klog w'))"
  using assms(1)
proof (cases rule: producer.publish_cases)
  case (logged z)
  have "I ((w\<lparr>klog := klog w @ [\<lparr>kr_topic = topic, kr_key = key, kr_value = p\<rparr>]\<rparr>)\<lparr>script := z\<rparr>)"
    using assms(3) by (simp only: script_blind)
  then show ?thesis unfolding logged by (auto simp: evolves_def intro!: guarantees_plain history_appended)
next
  case (not_logged z e)
  then show ?thesis using assms(2) by (auto intro: guarantees_idle)
qed

text \<open>The last statement of \<open>Post\<close>: while it holds both legs, nobody else can have booked them.\<close>

lemma commit_safe:
  assumes ev: "rec \<in> set (klog w)" "kr_topic rec = TopicPaymentsReceived" "UnmarshalEvent c (kr_value rec) = Inr ev"
    and leg: "0 < sint (ev_AmountMinor ev)" "uuid_in pg (ev_PaymentID ev) = Some u" "char3_in pg (ev_Currency ev) = Some cur"
    and free: "\<forall>d. Leg u d \<in> h \<longrightarrow> \<not> ledger_conflict u d (ledger w)" "Leg u ''DEBIT'' \<in> h" "Leg u ''CREDIT'' \<in> h"
  shows "safely (and_then (locking_statement (\<lambda>_. Release)
      (\<lambda>w. ((), commit_legs (both_legs u cur (event_transaction ev)) w))) (\<lambda>_. Ret r))
    (\<lambda>_ h st. h = {} \<and> rec \<in> set (klog (fst st))) h (w, s)"
proof (rule safe_statement_locked)
  fix v s' x v'
  let ?legs = "both_legs u cur (event_transaction ev)"
  assume rely: "relies engines current h (w, s) (v, s')" and inv: "I v" and run: "((), commit_legs ?legs v) = (x, v')"
  then have v': "v' = commit_legs ?legs v" by simp
  have "\<not> ledger_conflict u d (ledger v)" if "Leg u d \<in> h" for d
    using rely free(1) that by (auto simp: relies_def)
  then have new: "new_legs u cur (event_transaction ev) (ledger v) = ?legs"
    using free(2,3) by (simp add: new_legs_def both_legs_def leg_def)
  have logged: "rec \<in> set (klog v)" using relies_logged [OF rely] ev(1) by simp
  then have posted: "posted_event c v ev" using ev(2,3) by (auto simp: posted_event_def)
  have "I v' \<and> guarantees engines current h (v, s') (v', s') \<and> klog v' = klog v"
  proof (cases rule: commit_legs_cases [of ?legs v])
    case (kept z)
    have "I ((v\<lparr>ledger := ledger v @ ?legs\<rparr>)\<lparr>script := z\<rparr>)"
      using booked [OF inv posted leg] new by simp
    moreover have "current g v'" if "current g v" for g
      by (rule current_cong [OF _ that]) (simp add: v' kept)
    ultimately show ?thesis
      using free(2,3) unfolding v' kept
      by (auto simp: guarantees_def evolves_def both_legs_def leg_def ledger_conflict_def intro!: history_appended)
  next
    case lost
    with inv show ?thesis unfolding v' by (simp add: idle_keeps guarantees_idle idle_tables)
  qed
  with logged show "I v' \<and> guarantees engines current h (v, s') (v', s') \<and>
      safely (Ret r) (\<lambda>_ h st. h = {} \<and> rec \<in> set (klog (fst st))) (after_lock Release h) (v', s')"
    by (auto dest: relies_logged)
qed

lemma captured_safe:
  assumes ev: "rec \<in> set (klog w)" "kr_topic rec = TopicPaymentsReceived" "UnmarshalEvent c (kr_value rec) = Inr ev"
    and leg: "0 < sint (ev_AmountMinor ev)" "uuid_in pg (ev_PaymentID ev) = Some u" "char3_in pg (ev_Currency ev) = Some cur"
    and pend: "pending_state u cur (event_transaction ev) pending n m h w"
  shows "safely (post_capture pg now (event_transaction ev) n m pending)
    (\<lambda>_ h st. h = {} \<and> rec \<in> set (klog (fst st))) h (w, s)"
  unfolding post_capture_def move_payment_def Let_def
proof (rule safe_statement_locked, intro conjI)
  fix v s' x v'
  assume rely: "relies engines current h (w, s) (v, s')" and inv: "I v"
    and run: "UpdateState pg now (PaymentID (event_transaction ev)) StateValidated StateCaptured v = (x, v')"
  note step = UpdateState_step [OF run inv, of h s', simplified]
  then show "I v'" "guarantees engines current h (v, s') (v', s')" by simp_all
  have logged: "rec \<in> set (klog v')" using step relies_logged [OF rely] ev(1) by simp
  let ?result = "case x of None \<Rightarrow> None | Some err \<Rightarrow>
      if contains (error_text err) ''stale transition'' \<and> contains (error_text err) StateCaptured then None
      else Some (Wrap ''update state to CAPTURED: '' err)"
  show "safely (if n = 0 \<and> m = 0 then Ret ?result
      else and_then (locking_statement (\<lambda>_. Release) (\<lambda>w. ((), commit_legs pending w))) (\<lambda>_. Ret ?result))
    (\<lambda>_ h st. h = {} \<and> rec \<in> set (klog (fst st))) (after_lock Keep h) (v', s')"
  proof (cases "n = 0 \<and> m = 0")
    case True
    with pend logged show ?thesis by (auto simp: pending_state_def dest: relies_logged)
  next
    case False
    with pend have h: "h = {Leg u ''DEBIT'', Leg u ''CREDIT''}" "pending = both_legs u cur (event_transaction ev)"
      "\<not> ledger_conflict u ''DEBIT'' (ledger w)" "\<not> ledger_conflict u ''CREDIT'' (ledger w)"
      by (auto simp: pending_state_def)
    have "\<forall>d. Leg u d \<in> h \<longrightarrow> \<not> ledger_conflict u d (ledger v')"
      using rely h step by (auto simp: relies_def)
    from commit_safe [OF logged ev(2,3) leg this] False h(1,2) show ?thesis by (auto intro: commit_safe)
  qed
qed

lemma failed_safe:
  assumes "rec \<in> set (klog w)" "after_lock l h = {}"
  shows "safely (and_then (move_payment pg now t l StateFailed) (\<lambda>_. Ret r))
    (\<lambda>_ h st. h = {} \<and> rec \<in> set (klog (fst st))) h (w, s)"
  unfolding move_payment_def
proof (rule safe_statement_locked)
  fix v s' x v'
  assume rely: "relies engines current h (w, s) (v, s')" and inv: "I v"
    and run: "UpdateState pg now (PaymentID t) StateValidated StateFailed v = (x, v')"
  note step = UpdateState_step [OF run inv, of h s', simplified]
  have "rec \<in> set (klog v')" using step relies_logged [OF rely] assms(1) by simp
  with step assms(2) show "I v' \<and> guarantees engines current h (v, s') (v', s') \<and>
      safely (Ret r) (\<lambda>_ h st. h = {} \<and> rec \<in> set (klog (fst st))) (after_lock l h) (v', s')"
    by (auto dest: relies_logged)
qed

lemma pair_of_legs: "I w \<Longrightarrow> ledger_conflict u ''CREDIT'' (ledger w) \<longleftrightarrow> ledger_conflict u ''DEBIT'' (ledger w)"
  using double [of w] by (auto simp: ledger_inv_def double_entry_def entry_conflict)

lemma conflict_stays: "evolves w w' \<Longrightarrow> ledger_conflict u d (ledger w) \<Longrightarrow> ledger_conflict u d (ledger w')"
  by (auto simp: evolves_def ledger_conflict_def)

lemma insert_leg_step:
  assumes "call (insert_leg pg pid account direction m pending) w = (x, w')" "I w"
  shows "I w' \<and> guarantees engines current h (w, s) (w', s) \<and> ledger w' = ledger w \<and> klog w' = klog w"
  using insert_leg_call(1) [OF assms(1)] assms(2) by (simp add: idle_keeps guarantees_idle idle_tables)

text \<open>After the insert of the debit: it was there, or it is pending and locked.\<close>

lemma credit_safe:
  assumes ev: "rec \<in> set (klog w)" "kr_topic rec = TopicPaymentsReceived" "UnmarshalEvent c (kr_value rec) = Inr ev"
    and leg: "0 < sint (ev_AmountMinor ev)" "uuid_in pg (ev_PaymentID ev) = Some u" "char3_in pg (ev_Currency ev) = Some cur"
    and debit: "n = 0 \<and> pending = [] \<and> h = {} \<and> ledger_conflict u ''DEBIT'' (ledger w) \<or>
      n = 1 \<and> pending = [leg u cur (ev_AccountID ev) ''DEBIT'' (event_transaction ev)] \<and>
        h = {Leg u ''DEBIT''} \<and> \<not> ledger_conflict u ''DEBIT'' (ledger w)"
  shows "safely (post_credit pg now (event_transaction ev) n pending)
    (\<lambda>_ h st. h = {} \<and> rec \<in> set (klog (fst st))) h (w, s)"
  unfolding post_credit_def
proof (rule safe_statement_locked, intro conjI)
  fix v s' x v'
  let ?t = "event_transaction ev"
  assume rely: "relies engines current h (w, s) (v, s')" and inv: "I v"
    and run: "call (insert_leg pg (PaymentID ?t) ''clearing_account'' ''CREDIT'' (Amount ?t) pending) v = (x, v')"
  note step = insert_leg_step [OF run inv, of h s']
  then show "I v'" "guarantees engines current h (v, s') (v', s')" by simp_all
  have logged: "rec \<in> set (klog v')" using step relies_logged [OF rely] ev(1) by simp
  have t: "PaymentID ?t = ev_PaymentID ev" "Currency (Amount ?t) = ev_Currency ev" "AccountID ?t = ev_AccountID ev"
    by (simp_all add: event_transaction_def)
  show "safely (case x of
        Inl err \<Rightarrow>
          and_then (move_payment pg now ?t Release StateFailed) (\<lambda>_. Ret (Some (Wrap ''insert credit: '' err)))
      | Inr (creditTag, pending) \<Rightarrow> post_capture pg now ?t n creditTag pending)
    (\<lambda>_ h st. h = {} \<and> rec \<in> set (klog (fst st))) (after_lock (leg_lock x) h) (v', s')"
  proof (cases x)
    case (Inl err)
    with logged show ?thesis using failed_safe [where l = Release] by (simp add: leg_lock_def)
  next
    case (Inr mp)
    obtain m pending' where mp: "mp = (m, pending')" by (rule prod.exhaust)
    from insert_leg_call(2) [OF run, of m pending'] Inr mp leg(2,3) t
    have credit: "if ledger_conflict u ''CREDIT'' (ledger v @ pending) then m = 0 \<and> pending' = pending
        else m = 1 \<and> pending' = pending @ [leg u cur ''clearing_account'' ''CREDIT'' ?t]"
      by (auto simp: leg_def)
    have "pending_state u cur ?t pending' n m (after_lock (leg_lock x) h) v'"
      using debit
    proof (elim disjE conjE)
      assume d: "n = 0" "pending = []" "h = {}" "ledger_conflict u ''DEBIT'' (ledger w)"
      have "ledger_conflict u ''CREDIT'' (ledger v)"
        using conflict_stays [OF _ d(4)] rely pair_of_legs [OF inv] by (simp add: relies_def)
      with credit d Inr mp show ?thesis by (simp add: pending_state_def leg_lock_def)
    next
      assume d: "n = 1" "pending = [leg u cur (ev_AccountID ev) ''DEBIT'' ?t]" "h = {Leg u ''DEBIT''}"
        "\<not> ledger_conflict u ''DEBIT'' (ledger w)"
      have free: "\<not> ledger_conflict u ''DEBIT'' (ledger v)" "\<not> ledger_conflict u ''CREDIT'' (ledger v)"
        using d(3,4) rely pair_of_legs [OF inv] by (auto simp: relies_def)
      then have "m = 1" "pending' = both_legs u cur ?t"
        using credit d(2) t by (auto simp: ledger_conflict_def leg_def both_legs_def)
      with free d Inr mp step show ?thesis
        by (simp add: pending_state_def leg_lock_def both_legs_def leg_def insert_commute)
    qed
    from captured_safe [OF logged ev(2,3) leg this] Inr mp show ?thesis by simp
  qed
qed

lemma debit_safe:
  assumes ev: "rec \<in> set (klog w)" "kr_topic rec = TopicPaymentsReceived" "UnmarshalEvent c (kr_value rec) = Inr ev"
    and pos: "0 < sint (ev_AmountMinor ev)"
  shows "safely (post_debit pg now (event_transaction ev)) (\<lambda>_ h st. h = {} \<and> rec \<in> set (klog (fst st))) {} (w, s)"
  unfolding post_debit_def
proof (rule safe_statement_locked, intro conjI)
  fix v s' x v'
  let ?t = "event_transaction ev"
  assume rely: "relies engines current {} (w, s) (v, s')" and inv: "I v"
    and run: "call (insert_leg pg (PaymentID ?t) (AccountID ?t) ''DEBIT'' (Amount ?t) []) v = (x, v')"
  note step = insert_leg_step [OF run inv, of "{}" s']
  then show "I v'" "guarantees engines current {} (v, s') (v', s')" by simp_all
  have logged: "rec \<in> set (klog v')" using step relies_logged [OF rely] ev(1) by simp
  have t: "PaymentID ?t = ev_PaymentID ev" "Currency (Amount ?t) = ev_Currency ev" "AccountID ?t = ev_AccountID ev"
    by (simp_all add: event_transaction_def)
  show "safely (case x of
        Inl err \<Rightarrow>
          and_then (move_payment pg now ?t Release StateFailed) (\<lambda>_. Ret (Some (Wrap ''insert debit: '' err)))
      | Inr (debitTag, pending) \<Rightarrow> post_credit pg now ?t debitTag pending)
    (\<lambda>_ h st. h = {} \<and> rec \<in> set (klog (fst st))) (after_lock (leg_lock x) {}) (v', s')"
  proof (cases x)
    case (Inl err)
    with logged show ?thesis using failed_safe [where l = Release] by (simp add: leg_lock_def)
  next
    case (Inr np)
    obtain n pending where np: "np = (n, pending)" by (rule prod.exhaust)
    from insert_leg_call(2) [OF run, of n pending] Inr np t
    obtain u cur where uc: "uuid_in pg (ev_PaymentID ev) = Some u" "char3_in pg (ev_Currency ev) = Some cur"
      and debit: "if ledger_conflict u ''DEBIT'' (ledger v) then n = 0 \<and> pending = []
        else n = 1 \<and> pending = [leg u cur (ev_AccountID ev) ''DEBIT'' ?t]"
      by (auto simp: leg_def)
    have "n = 0 \<and> pending = [] \<and> after_lock (leg_lock x) {} = {} \<and> ledger_conflict u ''DEBIT'' (ledger v') \<or>
      n = 1 \<and> pending = [leg u cur (ev_AccountID ev) ''DEBIT'' ?t] \<and>
        after_lock (leg_lock x) {} = {Leg u ''DEBIT''} \<and> \<not> ledger_conflict u ''DEBIT'' (ledger v')"
      using debit Inr np step by (auto simp: leg_lock_def leg_def split: if_splits)
    from credit_safe [OF logged ev(2,3) pos uc this] Inr np show ?thesis by simp
  qed
qed

lemma Post_safe:
  assumes ev: "rec \<in> set (klog w)" "kr_topic rec = TopicPaymentsReceived" "UnmarshalEvent c (kr_value rec) = Inr ev"
  shows "safely (Post_program pg now (event_transaction ev))
    (\<lambda>_ h st. h = {} \<and> rec \<in> set (klog (fst st))) {} (w, s)"
proof (cases "sint (ev_AmountMinor ev) \<le> 0")
  case True
  with ev show ?thesis by (auto simp: Post_program_def event_transaction_def dest: relies_logged)
next
  case False
  have "MinorUnits (Amount (event_transaction ev)) = ev_AmountMinor ev" by (simp add: event_transaction_def)
  with False have "Post_program pg now (event_transaction ev) =
      and_then (statement tx_begin) (\<lambda>began. case began of
          Inl err \<Rightarrow> and_then (move_payment pg now (event_transaction ev) Keep StateFailed) (\<lambda>_. Ret (Some err))
        | Inr _ \<Rightarrow> post_debit pg now (event_transaction ev))"
    by (simp add: Post_program_def)
  also have "safely \<dots> (\<lambda>_ h st. h = {} \<and> rec \<in> set (klog (fst st))) {} (w, s)"
  proof (rule safe_statement)
    fix v s' b v'
    assume rely: "relies engines current {} (w, s) (v, s')" and inv: "I v" and begun: "tx_begin v = (b, v')"
    have idle: "idle v v'" using begun by (rule tx_begin_idle)
    then have logged: "rec \<in> set (klog v')" using relies_logged [OF rely] ev(1) by (simp add: idle_tables)
    with failed_safe [OF this, of Keep "{}"] debit_safe [OF this ev(2,3)] False
    have "safely (case b of
          Inl err \<Rightarrow> and_then (move_payment pg now (event_transaction ev) Keep StateFailed) (\<lambda>_. Ret (Some err))
        | Inr _ \<Rightarrow> post_debit pg now (event_transaction ev))
      (\<lambda>_ h st. h = {} \<and> rec \<in> set (klog (fst st))) {} (v', s')"
      by (cases b) simp_all
    with inv idle show "I v' \<and> guarantees engines current {} (v, s') (v', s') \<and> safely (case b of
          Inl err \<Rightarrow> and_then (move_payment pg now (event_transaction ev) Keep StateFailed) (\<lambda>_. Ret (Some err))
        | Inr _ \<Rightarrow> post_debit pg now (event_transaction ev))
      (\<lambda>_ h st. h = {} \<and> rec \<in> set (klog (fst st))) {} (v', s')"
      by (simp add: idle_keeps guarantees_idle)
  qed
  finally show ?thesis .
qed

text \<open>Retries and dead letters, for every handler that is safe while its record stays in the log.\<close>

definition handles_safely :: "kafka_record \<Rightarrow> ('r, 'a) process \<Rightarrow> bool" where
  "handles_safely rec p \<longleftrightarrow> (\<forall>w s. rec \<in> set (klog w) \<longrightarrow>
     safely p (\<lambda>_ h st. h = {} \<and> rec \<in> set (klog (fst st))) {} (w, s))"

lemma handles_Ret: "handles_safely rec (Ret x)"
  by (auto simp: handles_safely_def dest: relies_logged)

lemma handles_and_then:
  fixes p :: "('r, 'a) process"
  assumes "handles_safely rec p" "\<And>x. handles_safely rec (g x)"
  shows "handles_safely rec (and_then p g)"
  unfolding handles_safely_def
proof (intro allI impI)
  fix w :: world and s :: 'r
  assume "rec \<in> set (klog w)"
  with assms(1) have "safely p (\<lambda>_ h st. h = {} \<and> rec \<in> set (klog (fst st))) {} (w, s)"
    by (simp add: handles_safely_def)
  then have "safely p (\<lambda>x. safely (g x) (\<lambda>_ h st. h = {} \<and> rec \<in> set (klog (fst st)))) {} (w, s)"
    by (rule rules.safe_weaken) (use assms(2) in \<open>auto simp: handles_safely_def\<close>)
  then show "safely (and_then p g) (\<lambda>_ h st. h = {} \<and> rec \<in> set (klog (fst st))) {} (w, s)"
    by (rule rules.safe_and_then)
qed

lemma handles_statement:
  fixes g :: "'a \<Rightarrow> ('r, 'b) process"
  assumes "\<And>w x w' (s :: 'r). f w = (x, w') \<Longrightarrow> I w \<Longrightarrow> I w' \<and> guarantees engines current {} (w, s) (w', s)"
    and "\<And>x. handles_safely rec (g x)"
  shows "handles_safely rec (and_then (statement f) g)"
  unfolding handles_safely_def
proof (intro allI impI, rule safe_statement)
  fix w v v' :: world and s s' :: 'r and x
  assume log: "rec \<in> set (klog w)" and rely: "relies engines current {} (w, s) (v, s')"
    and inv: "I v" and run: "f v = (x, v')"
  from assms(1) [OF run inv] have step: "I v'" "guarantees engines current {} (v, s') (v', s')" by simp_all
  then have "rec \<in> set (klog v')" using relies_logged [OF rely] log guarantees_logged by fastforce
  with step assms(2) show "I v' \<and> guarantees engines current {} (v, s') (v', s') \<and>
      safely (g x) (\<lambda>_ h st. h = {} \<and> rec \<in> set (klog (fst st))) {} (v', s')"
    by (simp add: handles_safely_def)
qed

lemma handles_command:
  assumes "\<And>s x s'. f s = (x, s') \<Longrightarrow> handles_safely rec (g x)"
  shows "handles_safely rec (and_then (command f) g)"
  unfolding handles_safely_def
  by (intro allI impI, rule safe_command) (use assms in \<open>auto simp: handles_safely_def dest: relies_logged\<close>)

lemma retry_safe:
  "handles_safely rec once \<Longrightarrow> handles_safely rec (retry_program once maxAttempts attempt err)"
proof (induction once maxAttempts attempt err rule: retry_program.induct)
  case (1 once maxAttempts attempt err)
  then show ?case
    by (subst retry_program.simps)
      (auto intro!: handles_and_then handles_Ret split: option.split)
qed

lemma dlq_safe: "handles_safely rec (dlq_program c ready now consumerGroup key p lastErr attempts)"
  unfolding dlq_program_def
  by (auto intro!: handles_Ret handles_statement simp: dead_lettered dest: Publish_step split: option.split)

lemma retried_safe:
  assumes "handles_safely rec once"
  shows "handles_safely rec (retried_program c ready now consumerGroup once key p)"
  unfolding retried_program_def
  by (auto intro!: handles_and_then handles_Ret retry_safe assms dlq_safe split: loop_exit.split)

lemma ledger_handle_safe:
  assumes "kr_topic rec = TopicPaymentsReceived"
  shows "handles_safely rec (ledger_handle_program c pg now key (kr_value rec))"
proof (cases "UnmarshalEvent c (kr_value rec)")
  case (Inl err)
  then show ?thesis by (simp add: ledger_handle_program_def handles_Ret)
next
  case (Inr ev)
  have "handles_safely rec (Post_program pg now (event_transaction ev))"
    unfolding handles_safely_def by (intro allI impI Post_safe assms Inr)
  with Inr show ?thesis
    by (auto simp: ledger_handle_program_def intro!: handles_and_then handles_Ret split: option.split)
qed

lemma SaveScore_step:
  assumes "SaveScore pg sc w = (x, w')" "I w" "plausible_score sc"
  shows "I w' \<and> guarantees engines current h (w, s) (w', s)"
  using assms(1)
proof (cases rule: SaveScore_cases)
  case (saved u z)
  from scored [OF assms(2,3) saved(1)] have "I w'" unfolding saved(2) by (metis script_blind)
  then show ?thesis unfolding saved(2) by (auto simp: evolves_def intro!: guarantees_plain history_appended)
next
  case (failed z)
  with assms(2) show ?thesis by (auto intro: guarantees_idle)
qed

lemma fraud_handle_safe: "handles_safely rec (fraud_handle_program c pg client key p)"
  unfolding fraud_handle_program_def
  by (auto intro!: handles_Ret handles_command handles_statement dest: SaveScore_step FraudEngine_Score_plausible
      split: sum.split option.split)

lemma notification_handle_safe: "handles_safely rec (notification_handle_program c key p)"
  unfolding notification_handle_program_def by (auto intro!: handles_Ret split: sum.split)

lemma present_stays: "evolves w w' \<Longrightarrow> present rows w \<Longrightarrow> present rows w'"
  unfolding evolves_def present_def by metis

lemma presentD: "present (row # rows) w \<Longrightarrow> present rows w"
  by (simp add: present_def)

lemma mark_step:
  assumes "call (mark_published now i) w = (x, w')" "I w" "ob \<in> set (outbox w)" "ob_id ob = i" "record_of ob \<in> set (klog w)"
  shows "I w' \<and> guarantees engines current h (w, s) (w', s)"
  using assms(1)
proof (cases rule: call_cases)
  case (effect y z)
  let ?rows = "update_where (\<lambda>r. ob_id r = ob_id ob) (\<lambda>r. r\<lparr>ob_published_at := Some now\<rparr>) (outbox w)"
  have w': "w' = w\<lparr>outbox := ?rows, script := z\<rparr>" using effect assms(4) by (auto simp: mark_published_def)
  have "I ((w\<lparr>outbox := ?rows\<rparr>)\<lparr>script := z\<rparr>)" using marked [OF assms(2,3,5)] by (simp only: script_blind)
  moreover have "evolves w w'"
    unfolding w' evolves_def
  proof (intro conjI ballI)
    fix r assume "r \<in> set (outbox w)"
    then show "\<exists>r' \<in> set (outbox (w\<lparr>outbox := ?rows, script := z\<rparr>)). ob_id r' = ob_id r \<and> record_of r' = record_of r"
      by (intro bexI [of _ "if ob_id r = ob_id ob then r\<lparr>ob_published_at := Some now\<rparr> else r"])
        (auto simp: set_update_where)
  qed (simp_all add: history_appended)
  ultimately show ?thesis unfolding w' by (auto intro: guarantees_plain)
next
  case (nothing e z)
  with assms(2) show ?thesis by (auto intro: guarantees_idle)
qed

lemma mark_safe:
  fixes s :: 'r
  assumes rest: "\<And>w (s :: 'r). present rows w \<Longrightarrow> safely (relay_rows_program ready now rows) (\<lambda>_ _ _. True) h (w, s)"
    and there: "present (row # rows) w" "record_of row \<in> set (klog w)"
  shows "safely (and_then (statement (call (mark_published now (ob_id row)))) (\<lambda>m. case m of
      Inl err \<Rightarrow> Ret (Some err) | Inr _ \<Rightarrow> relay_rows_program ready now rows)) (\<lambda>_ _ _. True) h (w, s)"
proof (rule safe_statement)
  fix v s' m v'
  assume rely: "relies engines current h (w, s) (v, s')" and inv: "I v"
    and run: "call (mark_published now (ob_id row)) v = (m, v')"
  have there': "present (row # rows) v" using relies_evolves [OF rely] there(1) by (rule present_stays)
  then obtain ob where ob: "ob \<in> set (outbox v)" "ob_id ob = ob_id row" "record_of ob = record_of row"
    by (auto simp: present_def)
  have "record_of ob \<in> set (klog v)" using relies_logged [OF rely] there(2) ob(3) by simp
  note step = mark_step [OF run inv ob(1,2) this, of h s']
  then have "present rows v'"
    using present_stays [OF _ presentD [OF there']] by (simp add: guarantees_def)
  with step rest show "I v' \<and> guarantees engines current h (v, s') (v', s') \<and>
      safely (case m of Inl err \<Rightarrow> Ret (Some err) | Inr _ \<Rightarrow> relay_rows_program ready now rows)
        (\<lambda>_ _ _. True) h (v', s')"
    by (simp split: sum.split)
qed

lemma relay_rows_safe:
  "present rows w \<Longrightarrow> safely (relay_rows_program ready now rows) (\<lambda>_ _ _. True) h (w, s)"
proof (induction rows arbitrary: w s)
  case Nil
  then show ?case by simp
next
  case (Cons row rows)
  show ?case
    unfolding relay_rows_program.simps
  proof (rule safe_statement, intro conjI)
    fix v s' x v'
    assume rely: "relies engines current h (w, s) (v, s')" and inv: "I v"
      and run: "Publish ready (ob_topic row) (ob_partition_key row) (Doc (ob_payload row)) v = (x, v')"
    have there: "present (row # rows) v" using relies_evolves [OF rely] Cons.prems by (rule present_stays)
    then obtain ob where ob: "ob \<in> set (outbox v)" "record_of ob = record_of row" by (auto simp: present_def)
    have step: "I v'" "guarantees engines current h (v, s') (v', s')" "x = None \<Longrightarrow> record_of row \<in> set (klog v')"
      using Publish_step [OF run inv, of h s'] published [OF inv ob(1)] ob(2) by (simp_all add: record_of_def)
    then show "I v'" "guarantees engines current h (v, s') (v', s')" by simp_all
    have "present (row # rows) v'" using guarantees_evolves [OF step(2)] there by (rule present_stays)
    note marking = mark_safe [OF Cons.IH this step(3)]
    show "safely (case x of Some err \<Rightarrow> Ret (Some err)
        | None \<Rightarrow> and_then (statement (call (mark_published now (ob_id row)))) (\<lambda>m. case m of
              Inl err \<Rightarrow> Ret (Some err) | Inr _ \<Rightarrow> relay_rows_program ready now rows)) (\<lambda>_ _ _. True) h (v', s')"
      by (cases x) (simp_all add: marking)
  qed
qed

lemma scan_safe:
  assumes "present rows w"
  shows "safely (and_then (statement (call (\<lambda>w. Inr (rows, w)))) (\<lambda>scanned. case scanned of
      Inl err \<Rightarrow> Ret (Some err) | Inr rowsList \<Rightarrow> relay_rows_program ready now rowsList)) (\<lambda>_ _ _. True) h (w, s)"
proof (rule safe_statement, intro conjI)
  fix v s' x v'
  assume rely: "relies engines current h (w, s) (v, s')" and inv: "I v"
    and scan: "call (\<lambda>w. Inr (rows, w)) v = (x, v')"
  have idle: "idle v v'" and x: "\<And>rs. x = Inr rs \<Longrightarrow> rs = rows"
    using scan by (auto elim!: call_cases)
  then show "I v'" "guarantees engines current h (v, s') (v', s')"
    using inv by (simp_all add: idle_keeps guarantees_idle)
  have "present rows v" using relies_evolves [OF rely] assms by (rule present_stays)
  with idle have "present rows v'" by (simp add: present_def idle_tables)
  with x show "safely (case x of Inl err \<Rightarrow> Ret (Some err) | Inr rowsList \<Rightarrow> relay_rows_program ready now rowsList)
      (\<lambda>_ _ _. True) h (v', s')"
    by (cases x) (auto intro: relay_rows_safe)
qed

lemma relay_safe: "safely (relay_program ready n now) (\<lambda>_ _ _. True) h st"
  unfolding relay_program_def
proof (rule safe_statement)
  fix w s q w'
  assume inv: "I w" and run: "call (\<lambda>w. Inr (select_unpublished n w, w)) w = (q, w')"
  have idle: "idle w w'" using run by (cases rule: call_cases) auto
  have "present rows w'" if "q = Inr rows" for rows
  proof -
    have "rows = select_unpublished n w"
      using run that by (auto elim!: call_success simp: select_unpublished_def)
    with idle select_unpublished_subset [of n w] show ?thesis by (auto simp: present_def idle_tables)
  qed
  with inv idle show "I w' \<and> guarantees engines current h (w, s) (w', s) \<and> safely (case q of Inl err \<Rightarrow> Ret (Some err)
      | Inr rows \<Rightarrow> and_then (statement (call (\<lambda>w. Inr (rows, w)))) (\<lambda>scanned. case scanned of
        Inl err \<Rightarrow> Ret (Some err) | Inr rowsList \<Rightarrow> relay_rows_program ready now rowsList)) (\<lambda>_ _ _. True) h (w', s)"
    by (cases q) (simp_all add: idle_keeps guarantees_idle scan_safe)
qed

text \<open>Settlement: while a process settles a window, the groups it has read stay current.\<close>

lemma relies_current:
  "relies engines current {Engine k} (w, s) (w', s') \<Longrightarrow> k < engines \<Longrightarrow> current g w \<Longrightarrow> current g w'"
  by (auto simp: relies_def)

lemma settled_evolves: "evolves w ((settled_world pg now row us js jp w)\<lparr>script := z\<rparr>)"
proof -
  have "history w ((settled_world pg now row us js jp w)\<lparr>script := z\<rparr>)"
    by (rule history_updated [where to = StateSettled and now = now and P = "\<lambda>r. PaymentID r \<in> set us \<and> State r = StateCaptured"])
      (auto simp: settled_world_def settled_txns_def forward_def)
  then show ?thesis by (auto simp: evolves_def settled_world_def)
qed

lemma PersistBatch_step:
  assumes "PersistBatch pg now (group_batch d g a b) g ps pp w = (r, w')" "I w" "current g w" "k < engines"
  shows "I w' \<and> guarantees engines current {Engine k} (w, s) (w', s) \<and>
    (\<forall>g'. current g' w \<and> cg_key g' \<noteq> cg_key g \<longrightarrow> current g' w')"
  using assms(1)
proof (cases rule: PersistBatch_cases)
  case unchanged
  with assms(2) show ?thesis
    by (auto simp: idle_keeps guarantees_idle idle_tables intro: current_cong)
next
  case (saved row us js jp z)
  let ?w = "settled_world pg now row us js jp w"
  have "I (?w\<lparr>script := z\<rparr>)" using persisted [OF assms(2,3) saved(2,3,4)] by (simp only: script_blind)
  moreover have "evolves w w'"
    using settled_evolves unfolding saved by simp
  then have "guarantees engines current {Engine k} (w, s) (w', s)"
    using assms(4) unfolding saved by (auto simp: guarantees_def settled_world_def)
  moreover have "current g' w'" if "current g' w" "cg_key g' \<noteq> cg_key g" for g'
    by (rule current_cong [OF _ current_others [OF assms(3) that saved(4)]]) (simp add: saved)
  ultimately show ?thesis unfolding saved by blast
qed

lemma group_safe:
  fixes s :: 'r
  assumes "k < engines" "\<forall>g' \<in> set (g # gs). current g' w" "cg_key g \<notin> cg_key ` set gs"
  shows "safely (group_program c pg now d g a b)
    (\<lambda>_ h st. h = {Engine k} \<and> (\<forall>g' \<in> set gs. current g' (fst st))) {Engine k} (w, s)"
proof -
  let ?Q = "\<lambda>_ h st. h = {Engine k} \<and> (\<forall>g' \<in> set gs. current g' (fst st))"
  have stays: "safely (Ret x) ?Q {Engine k} (v, s)" if "\<forall>g' \<in> set gs. current g' v" for x v and s :: 'r
    using that assms(1) by (auto dest: relies_current)
  have "safely (and_then (statement (PersistBatch pg now (group_batch d g a b) g (Doc js) (Doc jp)))
      (\<lambda>r. case r of Inl err \<Rightarrow> Ret (Some (f err)) | Inr alreadyExisted \<Rightarrow> Ret None)) ?Q {Engine k} (w, s)"
    for js jp and f :: "goerr \<Rightarrow> goerr"
  proof (rule safe_statement)
    fix v v' :: world and s' :: 'r and r
    assume rely: "relies engines current {Engine k} (w, s) (v, s')" and inv: "I v"
      and run: "PersistBatch pg now (group_batch d g a b) g (Doc js) (Doc jp) v = (r, v')"
    have cur: "\<forall>g' \<in> set (g # gs). current g' v" using assms(2) relies_current [OF rely assms(1)] by blast
    from PersistBatch_step [OF run inv _ assms(1), of s'] cur
    have step: "I v'" "guarantees engines current {Engine k} (v, s') (v', s')"
      "\<forall>g'. current g' v \<and> cg_key g' \<noteq> cg_key g \<longrightarrow> current g' v'" by simp_all
    then have "\<forall>g' \<in> set gs. current g' v'" using cur assms(3) by (metis image_eqI list.set_intros(2))
    with step stays show "I v' \<and> guarantees engines current {Engine k} (v, s') (v', s') \<and>
        safely (case r of Inl err \<Rightarrow> Ret (Some (f err)) | Inr alreadyExisted \<Rightarrow> Ret None) ?Q {Engine k} (v', s')"
      by (simp split: sum.split)
  qed
  with assms(2) show ?thesis
    by (auto simp: group_program_def Let_def simp del: safe.simps(1) append.simps split: sum.split intro!: stays)
qed

lemma groups_safe:
  "k < engines \<Longrightarrow> \<forall>g \<in> set gs. current g w \<Longrightarrow> distinct (map cg_key gs) \<Longrightarrow>
   safely (groups_program c pg now draw a b gs) (\<lambda>_ _ _. True) {Engine k} (w, s)"
proof (induction gs arbitrary: w s)
  case Nil
  then show ?case by simp
next
  case (Cons g gs)
  have "cg_key g \<notin> cg_key ` set gs" using Cons.prems(3) by simp
  from group_safe [OF Cons.prems(1,2) this, of now "draw g" a b s]
  have "safely (group_program c pg now (draw g) g a b)
      (\<lambda>_. safely (groups_program c pg now draw a b gs) (\<lambda>_ _ _. True)) {Engine k} (w, s)"
    by (rule rules.safe_weaken) (use Cons in auto)
  then show ?case unfolding groups_program.simps by (rule rules.safe_and_then)
qed

lemma settle_safe:
  fixes st :: "world \<times> 'r"
  assumes "k < engines"
  shows "safely (settle_program c pg now draw a b) (\<lambda>_ _ _. True) {Engine k} st"
  unfolding settle_program_def
proof (rule safe_statement)
  fix w w' :: world and s :: 'r and r
  assume inv: "I w" and run: "AggregateCaptured pg a b w = (r, w')"
  have idle: "idle w w'" using AggregateCaptured_idle [OF run] .
  have "safely (and_then (groups_program c pg now draw a b gs) (\<lambda>_. Ret (None :: goerr option)))
      (\<lambda>_ _ _. True) {Engine k} (w', s)"
    if "r = Inr gs" for gs
    by (rule rules.safe_and_then, rule rules.safe_weaken, rule groups_safe [OF assms])
      (use aggregated [OF inv run [unfolded that]] in auto)
  with inv idle show "I w' \<and> guarantees engines current {Engine k} (w, s) (w', s) \<and>
      safely (case r of Inl err \<Rightarrow> Ret (Some (Wrap ''aggregate captured: '' err))
        | Inr groups \<Rightarrow> if groups = [] then Ret None
            else and_then (groups_program c pg now draw a b groups) (\<lambda>_. Ret None)) (\<lambda>_ _ _. True) {Engine k} (w', s)"
    by (simp add: idle_keeps guarantees_idle split: sum.split)
qed

text \<open>Submissions.\<close>

lemma save_step:
  assumes "SaveWithOutbox pg (accepted st t) (Doc j) w = (x, w')" "I w"
    and "MarshalEvent c (NewPaymentReceivedEvent i (accepted st t)) = Inr j"
  shows "I w' \<and> guarantees engines current h (w, s) (w', s)"
  using assms(1)
proof (cases rule: SaveWithOutbox_cases)
  case unchanged
  with assms(2) show ?thesis by (simp add: idle_keeps guarantees_idle)
next
  case (saved row j' z)
  let ?w = "saved_world pg (accepted st t) row j w"
  have j': "j' = j" using saved(2) by simp
  from effect_invariant.saved [OF effect_invariant_axioms assms(2) saved(3) assms(3)]
  have "I (?w\<lparr>script := z\<rparr>)" by (simp only: script_blind)
  moreover have "current g w'" if "current g w" for g
    by (rule current_cong [OF _ current_saved [OF saved(3) that, of j]]) (simp add: saved(4) j')
  ultimately show ?thesis
    unfolding saved(4) j' by (auto simp: guarantees_def evolves_def saved_world_def intro!: history_appended)
qed

lemma submit_safe:
  fixes s0 :: "world \<times> 'r"
  shows "safely (submit_program c pg client ttl st req) (\<lambda>_ _ _. True) h s0"
proof (cases "normalized intake_registry st req")
  case (Inl err)
  then show ?thesis by (simp add: submit_program_def)
next
  case (Inr t)
  have saving: "safely (and_then (statement (SaveWithOutbox pg (accepted st t) (Doc j))) g) (\<lambda>_ _ _. True) h s"
    if marshalled: "MarshalEvent c (NewPaymentReceivedEvent (st_event_id st) (accepted st t)) = Inr j"
      and returns: "\<forall>x. \<exists>y. g x = Ret y"
    for j h and s :: "world \<times> 'r" and g :: "goerr option \<Rightarrow> ('r, intake_error + response) process"
  proof (rule safe_statement)
    fix w w' :: world and s :: 'r and x
    assume "I w" "SaveWithOutbox pg (accepted st t) (Doc j) w = (x, w')"
    note step = save_step [OF this(2,1) marshalled, of h s]
    obtain y where "g x = Ret y" using returns by blast
    with step show "I w' \<and> guarantees engines current h (w, s) (w', s) \<and> safely (g x) (\<lambda>_ _ _. True) h (w', s)"
      by simp
  qed
  have claiming: "safely (claim_program client ttl key pid) (\<lambda>_ _ _. True) h s" for key pid h and s :: "world \<times> 'r"
    unfolding claim_program_def
    by (auto split: sum.split bool.split redis_reply.split intro!: safe_command)
  show ?thesis
    unfolding submit_program_def Inr
    by (simp, rule rules.safe_and_then, rule rules.safe_weaken [OF claiming])
      (auto split: sum.split bool.split option.split intro!: saving)
qed

text \<open>Every thread the system may start is safe.\<close>

lemma handled_safe:
  assumes "handles_safely rec p" "rec \<in> set (klog (fst st))"
  shows "safely (and_then p (\<lambda>_. Ret ())) (\<lambda>_ _ _. True) {} st"
proof -
  obtain w s where st: "st = (w, s)" by (rule prod.exhaust)
  from assms have "safely p (\<lambda>_ h st. h = {} \<and> rec \<in> set (klog (fst st))) {} (w, s)"
    by (simp add: handles_safely_def st)
  then show ?thesis
    unfolding st by (intro rules.safe_and_then) (rule rules.safe_weaken, auto)
qed

lemma finished_safe:
  "safely p (\<lambda>_ _ _. True) h st \<Longrightarrow> safely (and_then p (\<lambda>_. Ret ())) (\<lambda>_ _ _. True) h st"
  by (intro rules.safe_and_then) (rule rules.safe_weaken, auto)

lemma commit_offset_safe: "safely (and_then (statement (commit_offset krec)) (\<lambda>_. Ret ())) (\<lambda>_ _ _. True) h st"
  by (rule safe_statement) (auto dest: commit_offset_idle simp: idle_keeps guarantees_idle)

lemma started_safe:
  assumes "started c pg client ttl engines st h p"
  shows "safely p (\<lambda>_ _ _. True) h st"
  using assms
proof (cases rule: started.cases)
  case (ledger_delivery rec ready now)
  then show ?thesis using handled_safe [OF retried_safe [OF ledger_handle_safe]] by simp
next
  case (fraud_delivery rec ready now)
  then show ?thesis using handled_safe [OF retried_safe [OF fraud_handle_safe]] by simp
next
  case (notification_delivery rec ready now)
  then show ?thesis using handled_safe [OF retried_safe [OF notification_handle_safe]] by simp
qed (simp_all add: finished_safe submit_safe relay_safe settle_safe commit_offset_safe)

sublocale system: rely_guarantee "\<lambda>st. I (fst st)" "relies engines current" "guarantees engines current"
    "started c pg client ttl engines" surroundings for client :: "'r redis_client" and ttl :: int64
proof
  show "relies engines current h' s s'" if "guarantees engines current h s s'" "h \<inter> h' = {}" for h h' s s'
    using that by (rule guarantees_rely)
  show "safe (\<lambda>st. I (fst st)) (relies engines current) (guarantees engines current) p (\<lambda>_ _ _. True) h s"
    if "started c pg client ttl engines s h p" for s h p
    using that by (rule started_safe)
  show "I (fst s')" if "surroundings s s'" "I (fst s)" for s s' :: "world \<times> 'r"
    using that by (auto simp: surroundings_def)
  show "relies engines current h s s'" if "surroundings s s'" for h and s s' :: "world \<times> 'r"
    using that by (auto simp: surroundings_def relies_def evolves_def intro: current_cong [rotated] intro!: history_appended)
qed

lemma interleaved_keeps:
  assumes "interleaved_run c pg client ttl engines (ws, []) (ws', ts)" "I (fst ws)"
  shows "I (fst ws')"
  using system.run_ok [of client ttl "(ws, [])" "(ws', ts)"] assms
  by (simp add: interleaved_run_def system.system_ok_def exclusive_def)

lemma interleaved_evolves:
  assumes "interleaved_run c pg client ttl engines (ws, []) (ws', ts')" "I (fst ws)"
    and "interleaved_run c pg client ttl engines (ws', ts') (ws'', ts'')"
  shows "evolves (fst ws') (fst ws'')"
proof -
  have "system.system_ok (ws', ts')"
    using system.run_ok [of client ttl "(ws, [])" "(ws', ts')"] assms(1,2)
    by (simp add: interleaved_run_def system.system_ok_def exclusive_def)
  then show ?thesis
    using system.run_relied [of client ttl "(ws', ts')" "(ws'', ts'')"] assms(3)
    by (simp add: interleaved_run_def relies_def)
qed

end

section \<open>The invariant of the whole system\<close>

definition system_inv :: "codec \<Rightarrow> pgtypes \<Rightarrow> nat \<Rightarrow> world \<Rightarrow> bool" where
  "system_inv c pg engines w \<longleftrightarrow>
     ledger_inv w \<and> outbox_inv w \<and> trail_inv c pg w \<and> audit_inv w \<and> (engines \<le> 1 \<longrightarrow> money_inv pg w)"

text \<open>With one settlement process, a group is current while its payments are captured and its total is theirs.\<close>

definition still_current :: "pgtypes \<Rightarrow> nat \<Rightarrow> captured_group \<Rightarrow> world \<Rightarrow> bool" where
  "still_current pg engines g w \<longleftrightarrow>
     (engines \<le> 1 \<longrightarrow> canonical_types pg \<longrightarrow>
        current_group pg g w \<and> set (cg_PaymentIDs g) \<subseteq> PaymentID ` set (txns w))"

lemma outbox_published: "outbox_inv w \<Longrightarrow> outbox_inv (w\<lparr>klog := klog w @ ks\<rparr>)"
  by (auto simp: outbox_inv_def keys_inv_def relay_inv_def)

lemma outbox_marked:
  assumes "outbox_inv w" "ob \<in> set (outbox w)" "record_of ob \<in> set (klog w)"
  shows "outbox_inv (w\<lparr>outbox :=
    update_where (\<lambda>r. ob_id r = ob_id ob) (\<lambda>r. r\<lparr>ob_published_at := Some now\<rparr>) (outbox w)\<rparr>)"
proof -
  let ?rows = "update_where (\<lambda>r. ob_id r = ob_id ob) (\<lambda>r. r\<lparr>ob_published_at := Some now\<rparr>) (outbox w)"
  have keys: "keys_inv w" and sent: "relay_inv w" using assms(1) by (simp_all add: outbox_inv_def)
  have ids: "map ob_id ?rows = map ob_id (outbox w)" by (simp add: map_update_where)
  have "\<forall>r \<in> set ?rows. ob_id r < outbox_seq w"
    using keys by (auto simp: keys_inv_def set_update_where)
  with keys ids have "keys_inv (w\<lparr>outbox := ?rows\<rparr>)" by (simp add: keys_inv_def)
  moreover have "record_of r \<in> set (klog w)" if r: "r \<in> set ?rows" "ob_published_at r \<noteq> None" for r
  proof -
    obtain r0 where r0: "r0 \<in> set (outbox w)"
      "r = (if ob_id r0 = ob_id ob then r0\<lparr>ob_published_at := Some now\<rparr> else r0)"
      using r(1) by (auto simp: set_update_where)
    show ?thesis
    proof (cases "ob_id r0 = ob_id ob")
      case True
      with keys_ids [OF keys] r0(1) assms(2) have "r0 = ob" by (blast intro: distinct_map_unique)
      with r0 assms(3) show ?thesis by simp
    next
      case False
      with r r0 sent show ?thesis by (auto simp: relay_inv_def)
    qed
  qed
  ultimately show ?thesis by (simp add: outbox_inv_def relay_inv_def)
qed

lemma trail_published:
  assumes "trail_inv c pg w" "ob \<in> set (outbox w)"
  shows "trail_inv c pg (w\<lparr>klog := klog w @ [record_of ob]\<rparr>)"
  by (rule trail_kept [OF assms(1)]) (use assms(2) in auto)

lemma trail_marked:
  assumes "trail_inv c pg w"
  shows "trail_inv c pg (w\<lparr>outbox :=
    update_where (\<lambda>r. ob_id r = i) (\<lambda>r. r\<lparr>ob_published_at := Some now\<rparr>) (outbox w)\<rparr>)"
proof (rule trail_kept [OF assms(1)])
  fix ob assume "ob \<in> set (outbox w)"
  then show "\<exists>ob' \<in> set (outbox (w\<lparr>outbox :=
      update_where (\<lambda>r. ob_id r = i) (\<lambda>r. r\<lparr>ob_published_at := Some now\<rparr>) (outbox w)\<rparr>)).
      ob_topic ob' = ob_topic ob \<and> ob_aggregate_id ob' = ob_aggregate_id ob \<and>
      ob_partition_key ob' = ob_partition_key ob"
    by (intro bexI [of _ "if ob_id ob = i then ob\<lparr>ob_published_at := Some now\<rparr> else ob"])
      (auto simp: set_update_where)
qed (auto simp: set_update_where)

lemma filter_untouched:
  "\<forall>r \<in> set rows. P (PaymentID r) \<longrightarrow> \<not> p r \<Longrightarrow> \<forall>r. PaymentID (f r) = PaymentID r \<Longrightarrow>
   filter (\<lambda>r. P (PaymentID r)) (update_where p f rows) = filter (\<lambda>r. P (PaymentID r)) rows"
  by (induction rows) auto

lemma group_rows_moved:
  assumes "current_group pg g w"
  shows "group_rows g (moved_world now u StateValidated to w) = group_rows g w"
proof -
  have "\<forall>r \<in> set (txns w). PaymentID r \<in> set (cg_PaymentIDs g) \<longrightarrow> \<not> (PaymentID r = u \<and> State r = StateValidated)"
    using assms by (auto simp: current_group_def group_rows_def state_names)
  from filter_untouched [OF this] show ?thesis by (simp add: group_rows_def moved_world_def)
qed

lemma still_current_moved: "still_current pg n g w \<Longrightarrow> still_current pg n g (moved_world now u StateValidated to w)"
proof -
  assume cur: "still_current pg n g w"
  have "map PaymentID (txns (moved_world now u StateValidated to w)) = map PaymentID (txns w)"
    by (simp add: moved_world_def map_update_where)
  from arg_cong [OF this, of set] cur show ?thesis
    by (auto simp: still_current_def current_group_def group_rows_moved [of pg])
qed

lemma still_current_saved:
  assumes "insertable pg t row w" "still_current pg n g w"
  shows "still_current pg n g (saved_world pg t row j w)"
proof -
  have "group_rows g (saved_world pg t row j w) = group_rows g w" if "set (cg_PaymentIDs g) \<subseteq> PaymentID ` set (txns w)"
    using assms(1) that by (auto simp: group_rows_def saved_world_def insertable_def)
  with assms(2) show ?thesis
    by (auto simp: still_current_def current_group_def saved_world_def)
qed

lemma still_current_others:
  assumes "still_current pg n g w" "still_current pg n g' w" "cg_key g' \<noteq> cg_key g"
    and "uuid_array pg (cg_PaymentIDs g) = Inr us"
  shows "still_current pg n g' (settled_world pg now row us js jp w)"
proof (cases "n \<le> 1 \<and> canonical_types pg")
  case True
  with assms have cur: "current_group pg g w" "current_group pg g' w" "us = cg_PaymentIDs g"
    by (auto simp: still_current_def current_group_def)
  then have "\<forall>r \<in> set (txns w). PaymentID r \<in> set (cg_PaymentIDs g') \<longrightarrow> \<not> (PaymentID r \<in> set us \<and> State r = StateCaptured)"
    using assms(3) by (auto simp: current_group_def group_rows_def)
  from settled_txns_others [OF this] have "group_rows g' (settled_world pg now row us js jp w) = group_rows g' w"
    by (simp add: group_rows_def settled_world_def)
  moreover have "PaymentID ` set (txns (settled_world pg now row us js jp w)) = PaymentID ` set (txns w)"
  proof -
    have "txns (settled_world pg now row us js jp w) = settled_txns now us (txns w)" by (simp add: settled_world_def)
    then show ?thesis
      using arg_cong [OF settled_txns_ids [of now us "txns w"], of set] by (simp only: set_map)
  qed
  ultimately show ?thesis using assms(2) by (simp add: still_current_def current_group_def)
qed (auto simp: still_current_def)

lemma still_current_aggregated:
  assumes "AggregateCaptured pg a b w = (Inr gs, w')" "system_inv c pg n w"
  shows "distinct (map cg_key gs) \<and> (\<forall>g \<in> set gs. still_current pg n g w')"
proof -
  have keys: "distinct (map cg_key gs)" using settled_ledger.aggregated_keys [OF assms(1)] .
  have res: "idle w w'" "scan_groups (select_groups pg a b w) = Inr gs"
    using AggregateCaptured_result [OF assms(1)] by simp_all
  have "still_current pg n g w'" if g: "g \<in> set gs" for g
  proof -
    from scan_groups_current [OF res(2)] g obtain rows where
      "(cg_key g, rows) \<in> set (select_groups pg a b w)" "cg_PaymentIDs g = map PaymentID rows" by blast
    then have "set (cg_PaymentIDs g) \<subseteq> PaymentID ` set (txns w')"
      by (auto simp: select_groups_def Let_def idle_tables [OF res(1)])
    moreover have "current_group pg g w'" if "n \<le> 1" "canonical_types pg"
      using AggregateCaptured_current [OF assms(1)] assms(2) that g by (simp add: system_inv_def money_inv_def)
    ultimately show ?thesis by (simp add: still_current_def)
  qed
  with keys show ?thesis by blast
qed

interpretation whole: atomic_invariant "system_inv c pg n" c pg n "still_current pg n" for c pg n
proof
  fix w
  show "system_inv c pg n (w\<lparr>script := x\<rparr>) = system_inv c pg n w" for x
    by (simp add: system_inv_def)
  show "system_inv c pg n (w\<lparr>outbox_seq := x\<rparr>)" if "system_inv c pg n w" "outbox_seq w \<le> x" for x
    using that ledger.seq_up settled_outbox.seq_up settled_trail.seq_up settled_audit.seq_up money.seq_up by (simp add: system_inv_def)
  show "system_inv c pg n (saved_world pg (accepted st t) row j w)"
    if "system_inv c pg n w" "insertable pg (accepted st t) row w"
      "MarshalEvent c (NewPaymentReceivedEvent i (accepted st t)) = Inr j" for st t row j i
    using that books.saved promises.saved trail.saved audit.saved money.saved by (simp add: system_inv_def)
  show "system_inv c pg n (moved_world now u StateValidated to w)"
    if "system_inv c pg n w" "to = StateCaptured \<or> to = StateFailed"
      "\<exists>row \<in> set (txns w). PaymentID row = u \<and> State row = StateValidated" for now u to
    using that books.moved promises.moved trail.moved audit.moved money.moved by (simp add: system_inv_def)
  show "system_inv c pg n (w\<lparr>ledger := ledger w @ new_legs u cur (event_transaction ev) (ledger w)\<rparr>)"
    if "system_inv c pg n w" "posted_event c w ev" "0 < sint (ev_AmountMinor ev)"
      "uuid_in pg (ev_PaymentID ev) = Some u" "char3_in pg (ev_Currency ev) = Some cur" for ev u cur
    using that books.booked promises.booked trail.booked audit.booked money.booked by (simp add: system_inv_def)
  show "system_inv c pg n (w\<lparr>klog := klog w @ [\<lparr>kr_topic = TopicDLQ, kr_key = key, kr_value = p\<rparr>]\<rparr>)"
    if "system_inv c pg n w" for key p
    using that books.dead_lettered promises.dead_lettered trail.dead_lettered audit.dead_lettered money.dead_lettered
    by (simp add: system_inv_def)
  show "system_inv c pg n (w\<lparr>scores := scores w @ [stored_score u sc]\<rparr>)"
    if "system_inv c pg n w" "plausible_score sc" "uuid_in pg (Sc_PaymentID sc) = Some u" for u sc
    using that books.scored promises.scored trail.scored audit.scored money.scored by (simp add: system_inv_def)
  show "ledger_inv w" if "system_inv c pg n w"
    using that by (simp add: system_inv_def)
  show "system_inv c pg n (w\<lparr>klog := klog w @ [record_of ob]\<rparr>)" if "system_inv c pg n w" "ob \<in> set (outbox w)" for ob
    using that outbox_published trail_published
    by (simp add: system_inv_def money_inv_def ledger_inv_cong [of "w\<lparr>klog := klog w @ [record_of ob]\<rparr>" w])
  show "system_inv c pg n (w\<lparr>outbox :=
      update_where (\<lambda>r. ob_id r = ob_id ob) (\<lambda>r. r\<lparr>ob_published_at := Some now\<rparr>) (outbox w)\<rparr>)" (is "system_inv c pg n ?w")
    if "system_inv c pg n w" "ob \<in> set (outbox w)" "record_of ob \<in> set (klog w)" for ob now
    using that outbox_marked trail_marked
    by (simp add: system_inv_def money_inv_def ledger_inv_cong [of ?w w] audit_inv_cong [of ?w w] conserved_cong [of ?w w])
  show "system_inv c pg n (settled_world pg now row us js jp w)"
    if "system_inv c pg n w" "still_current pg n g w" "batch_columns pg (group_batch d g a b) = Inr row"
      "new_batch row w" "uuid_array pg (cg_PaymentIDs g) = Inr us" for g d a b row us now js jp
  proof -
    have "conserved pg (settled_world pg now row us js jp w)" if "n \<le> 1" "canonical_types pg"
    proof -
      have "conserved pg w" "current_group pg g w" "us = cg_PaymentIDs g"
        using that \<open>system_inv c pg n w\<close> \<open>still_current pg n g w\<close> \<open>uuid_array pg (cg_PaymentIDs g) = Inr us\<close>
        by (auto simp: system_inv_def money_inv_def still_current_def current_group_def)
      then show ?thesis
        using conserved_settled_world [OF _ _ \<open>batch_columns pg (group_batch d g a b) = Inr row\<close>]
        by (simp add: group_batch_def)
    qed
    with that(1) settled_ledger.batch_keeps settled_outbox.batch_keeps settled_trail.batch_keeps settled_audit.batch_keeps
    show ?thesis by (simp add: system_inv_def money_inv_def)
  qed
  show "distinct (map cg_key gs) \<and> (\<forall>g \<in> set gs. still_current pg n g w')"
    if "system_inv c pg n w" "AggregateCaptured pg a b w = (Inr gs, w')" for a b gs w'
    using that(2,1) by (rule still_current_aggregated)
  show "still_current pg n g w'" if "txns w' = txns w" "still_current pg n g w" for g w'
    using that by (simp add: still_current_def current_group_def group_rows_def)
  show "still_current pg n g (saved_world pg t r j w)" if "insertable pg t r w" "still_current pg n g w" for g t r j
    using that by (rule still_current_saved)
  show "still_current pg n g (moved_world now u StateValidated to w)" if "still_current pg n g w" for g now u to
    using that by (rule still_current_moved)
  show "still_current pg n g' (settled_world pg now row us js jp w)"
    if "still_current pg n g w" "still_current pg n g' w" "cg_key g' \<noteq> cg_key g"
      "uuid_array pg (cg_PaymentIDs g) = Inr us" for g g' us now row js jp
    using that by (rule still_current_others)
  show "n \<le> 1 \<or> (\<forall>g w. still_current pg n g w)"
    by (auto simp: still_current_def)
qed

lemma system_inv_empty: "system_inv c pg n empty_world"
proof -
  have "ledger_inv empty_world"
    by (auto simp: ledger_inv_def double_entry_def empty_world_def intro: exI [of _ "[]"])
  then show ?thesis
    by (simp add: system_inv_def outbox_inv_def keys_inv_def relay_inv_def trail_inv_def audit_inv_def money_inv_def
        conserved_def stored_columns_def empty_world_def batched_def sum_minor_def)
qed

lemma interleaved_from_empty:
  assumes "interleaved_run c pg client ttl engines ((empty_world, s0), []) ((w, s), ts)"
  shows "ledger_inv w" "outbox_inv w" "trail_inv c pg w" "audit_inv w" "engines \<le> 1 \<Longrightarrow> money_inv pg w"
  using whole.interleaved_keeps [OF assms] system_inv_empty by (simp_all add: system_inv_def)

section \<open>Undisturbed operations\<close>

text \<open>A run of whole operations is an interleaved run in which every thread is alone.\<close>

lemma finished_alone:
  assumes "started c pg client ttl engines st h (and_then p (\<lambda>_. Ret ()))" "run_prog p st = (x, st')"
  shows "interleaved_run c pg client ttl engines (st, []) (st', [])"
  unfolding interleaved_run_def
  by (rule alone_runs [where start = "started c pg client ttl engines", OF assms(1)]) (simp add: assms(2))

lemma step_interleaves:
  assumes "pipeline_step c pg client ttl ws ws'" "0 < engines"
  shows "interleaved_run c pg client ttl engines (ws, []) (ws', [])"
  using assms(1)
proof (cases rule: pipeline_step.cases)
  case (submitted st req w s r w' s')
  then show ?thesis using finished_alone [OF started.submission] run_submit by metis
next
  case (relay_ticked ready now w rr w' s)
  then have "run_prog (relay_program ready NewPostgresRelay_batchSize now) (w, s) = (rr, (w', s))"
    by (simp add: run_relay)
  from finished_alone [OF started.relay_batch this] relay_ticked show ?thesis by simp
next
  case (ledger_delivered rec w ready now h w' s)
  then have "run_prog (retried_program c ready now ''ledger-consumer''
      (ledger_handle_program c pg now (kr_key rec) (kr_value rec)) (kr_key rec) (kr_value rec)) (w, s) = (h, (w', s))"
    by (simp add: run_ledger)
  from finished_alone [OF started.ledger_delivery this] ledger_delivered show ?thesis by simp
next
  case (fraud_delivered rec w ready now s h w' s')
  then have "run_prog (retried_program c ready now ''fraud-consumer''
      (fraud_handle_program c pg client (kr_key rec) (kr_value rec)) (kr_key rec) (kr_value rec)) (w, s) = (h, (w', s'))"
    by (simp add: run_fraud)
  from finished_alone [OF started.fraud_delivery this] fraud_delivered show ?thesis by simp
next
  case (notification_delivered rec w ready now h w' s)
  then have "run_prog (retried_program c ready now ''notification-consumer''
      (notification_handle_program c (kr_key rec) (kr_value rec)) (kr_key rec) (kr_value rec)) (w, s) = (h, (w', s))"
    by (simp add: run_notification)
  from finished_alone [OF started.notification_delivery this] notification_delivered show ?thesis by simp
next
  case (offset_committed krec w e w' s)
  then have "run_prog (statement (commit_offset krec)) (w, s) = (e, (w', s))" by simp
  from finished_alone [OF started.offset_commit this] offset_committed show ?thesis by simp
next
  case (window_settled now draw a b w e w' s)
  then have "run_prog (settle_program c pg now draw a b) (w, s) = (e, (w', s))"
    by (simp add: run_settle)
  from finished_alone [OF started.settlement [OF assms(2)] this] window_settled show ?thesis by simp
next
  case (environment w s xs s')
  then have "surroundings ws ws'" by (auto simp: surroundings_def)
  then show ?thesis
    unfolding interleaved_run_def by (intro system_run.stepped [OF system_run.halted] system_step.environment)
qed

lemma run_interleaves:
  "pipeline_run c pg client ttl ws ws' \<Longrightarrow> 0 < engines \<Longrightarrow>
   interleaved_run c pg client ttl engines (ws, []) (ws', [])"
proof (induction rule: pipeline_run.induct)
  case (halted ws)
  then show ?case by (simp add: interleaved_run_def system_run.halted)
next
  case (stepped ws ws' ws'')
  from step_interleaves [OF stepped(2,4)] stepped(3) [OF stepped(4)] show ?case
    unfolding interleaved_run_def by (rule system_run_trans)
qed

end
