(* ===== verification/Journey.thy ===== *)
theory Journey
  imports Concurrency
begin

text \<open>
  The way of one payment when nothing fails, from the request over the outbox and Kafka to the books,
  as a run of the pipeline, and a concrete payment that takes it. The payment is captured, settled and
  paid out; two settlement processes pay it out twice.
\<close>

section \<open>From the request to the captured payment\<close>

lemma relayed_single:
  assumes "keys_inv w" "script w = []" "filter is_unpublished (outbox w) = [ob]"
  obtains w' where "relayBatch (Publish True) NewPostgresRelay_batchSize now w = (None, w')" "script w' = []"
    "klog w' = klog w @ [record_of ob]" "txns w' = txns w" "ledger w' = ledger w" "batches w' = batches w"
proof -
  from relayBatch_clean [OF assms(2)] obtain w'
    where run: "relayBatch (Publish True) NewPostgresRelay_batchSize now w = (None, w')" "script w' = []"
    by blast
  from relayBatch_sent [OF assms(1) run(1)] obtain n m where nm: "m \<le> n" "n \<le> m + 1"
    "klog w' = klog w @ map record_of (take n [ob])" "m = min NewPostgresRelay_batchSize 1"
    unfolding assms(3) by auto
  then have "klog w' = klog w @ [record_of ob]" by (simp add: NewPostgresRelay_batchSize_def)
  with run relayBatch_ledger [OF run(1)] show ?thesis by (intro that [of w']) simp_all
qed

lemma delivered_once:
  assumes "UnmarshalEvent c p = Inr ev" "\<not> missing_field ev" "Post pg now (event_transaction ev) w = (None, w')"
  shows "ledger_retried c pg ready now key p w = (Returned None, w')"
proof -
  have "ledger_handle c pg now key p w = (None, w')" using assms by (simp add: ledger_handle_def)
  then show ?thesis by (simp add: ledger_retried_def RetryHandler_def retry_loop.simps)
qed

lemma saved_world_batches: "batches (saved_world pg t row j w) = batches w"
  by (simp add: saved_world_def)

lemma captured_from_request:
  assumes reached: "interleaved_run c pg client ttl engines ((empty_world, s0), []) ((w, s), ts)"
    and quiet: "script w = []" "filter is_unpublished (outbox w) = []"
    and request: "normalized intake_registry st req = Inr t" "0 < sint (MinorUnits (Amount t))"
      "AccountID t \<noteq> []" "PaymentID t \<noteq> []" "Currency (Amount t) \<noteq> []"
    and claim: "redisStore_Claim client ttl s (DeriveKey t) (PaymentID t) = (Inr (True, x), s1)"
    and row: "insertable pg (accepted st t) row w"
    and clock: "fmt_time c (st_now st) = Some created" "parse_time c created = Some (st_now st)"
  obtains resp w1 w2 w3 rec r where
    "SubmitPayment c (intake_server pg client ttl) st req (w, s) = (Inr resp, (w1, s1))"
    "rs_payment_id resp = PaymentID t"
    "relayBatch (Publish True) NewPostgresRelay_batchSize now w1 = (None, w2)" "klog w2 = klog w @ [rec]"
    "kr_topic rec = TopicPaymentsReceived" "kr_key rec = AccountID t"
    "ledger_retried c pg True now' (kr_key rec) (kr_value rec) w2 = (Returned None, w3)"
    "r \<in> set (txns w3)" "PaymentID r = PaymentID row" "State r = StateCaptured"
    "ledger w3 = ledger w @
      [\<lparr>lg_payment_id = PaymentID row, lg_account = AccountID t, lg_direction = ''DEBIT'',
        lg_amount_minor = MinorUnits (Amount t), lg_currency = Currency (Amount row)\<rparr>,
       \<lparr>lg_payment_id = PaymentID row, lg_account = ''clearing_account'', lg_direction = ''CREDIT'',
        lg_amount_minor = MinorUnits (Amount t), lg_currency = Currency (Amount row)\<rparr>]"
    "txns w3 = update_where (\<lambda>r. PaymentID r = PaymentID row \<and> State r = StateValidated)
       (\<lambda>r. r\<lparr>State := StateCaptured, UpdatedAt := now'\<rparr>) (txns w @ [row])"
    "batches w3 = batches w" "script w3 = []"
proof -
  let ?ev = "NewPaymentReceivedEvent (st_event_id st) (accepted st t)"
  obtain j where j: "MarshalEvent c ?ev = Inr j"
    using clock(1) by (simp add: MarshalEvent_def NewPaymentReceivedEvent_def accepted_def)
  let ?w1 = "saved_world pg (accepted st t) row j w"
  let ?ob = "outbox_entry pg (outbox_seq w) (PaymentID row) ''payments.received'' (AccountID t) j (st_now st)"
  have sub: "SubmitPayment c (intake_server pg client ttl) st req (w, s) =
      (Inr (ack (PaymentID t) False (st_now st)), (?w1, s1))"
    using request(1) claim after_claim_clean [OF quiet(1) row j] by (simp add: SubmitPayment_wired)
  have fields: "uuid_in pg (PaymentID t) = Some (PaymentID row)" "State row = StateValidated"
    "char3_in pg (Currency (Amount t)) = Some (Currency (Amount row))"
    "txns ?w1 = txns w @ [row]" "ledger ?w1 = ledger w" "klog ?w1 = klog w" "script ?w1 = []"
    using row quiet(1) txn_row_fields [of pg "accepted st t" row]
    by (simp_all add: insertable_def accepted_def saved_world_def)
  have keys: "keys_inv ?w1"
    using interleaved_from_empty(2) [OF reached] row keys_saved_world by (simp add: outbox_inv_def)
  have "filter is_unpublished (outbox ?w1) = [?ob]"
    using quiet(2) by (simp add: saved_world_def is_unpublished_def accepted_def)
  from relayed_single [OF keys fields(7) this] obtain w2 where w2:
    "relayBatch (Publish True) NewPostgresRelay_batchSize now ?w1 = (None, w2)" "script w2 = []"
    "klog w2 = klog w @ [record_of ?ob]" "txns w2 = txns w @ [row]" "ledger w2 = ledger w" "batches w2 = batches w"
    using fields(4-6) by (metis saved_world_batches)
  let ?ev' = "?ev\<lparr>ev_Metadata := stored_metadata (member_rank pg) (ev_Metadata ?ev)\<rparr>"
  have dec: "UnmarshalEvent c (Doc (jsonb (member_rank pg) j)) = Inr ?ev'"
    by (rule event_decoded [OF _ _ j]) (use clock normalized_metadata [OF request(1)] raw_payload_distinct in
      \<open>simp_all add: NewPaymentReceivedEvent_def accepted_def\<close>)
  have t': "AccountID (event_transaction ?ev') = AccountID t" "PaymentID (event_transaction ?ev') = PaymentID t"
    "Amount (event_transaction ?ev') = Amount t" "\<not> missing_field ?ev'"
    using request(3-5) by (simp_all add: event_transaction_def NewPaymentReceivedEvent_def accepted_def
        missing_field_def)
  have fresh: "\<forall>l \<in> set (ledger w2). lg_payment_id l \<noteq> PaymentID row"
  proof
    fix l assume "l \<in> set (ledger w2)"
    with interleaved_from_empty(3) [OF reached] w2(5) obtain r where "r \<in> set (txns w)" "leg_of l r"
      by (auto simp: trail_inv_def)
    then have "lg_payment_id l \<in> PaymentID ` set (txns w)" by (auto simp: leg_of_def)
    with row show "lg_payment_id l \<noteq> PaymentID row" by (auto simp: insertable_def)
  qed
  have post: "Post pg now' (event_transaction ?ev') w2 =
      (None, (moved_world now' (PaymentID row) StateValidated StateCaptured w2)\<lparr>ledger := ledger w2 @
         [\<lparr>lg_payment_id = PaymentID row, lg_account = AccountID t, lg_direction = ''DEBIT'',
           lg_amount_minor = MinorUnits (Amount t), lg_currency = Currency (Amount row)\<rparr>,
          \<lparr>lg_payment_id = PaymentID row, lg_account = ''clearing_account'', lg_direction = ''CREDIT'',
           lg_amount_minor = MinorUnits (Amount t), lg_currency = Currency (Amount row)\<rparr>]\<rparr>)"
    using Post_fresh [OF w2(2), of "event_transaction ?ev'" pg "PaymentID row" "Currency (Amount row)" row now']
      request(2) fields(1-3) w2(4) fresh by (simp add: t')
  let ?w3 = "(moved_world now' (PaymentID row) StateValidated StateCaptured w2)\<lparr>ledger := ledger w2 @
         [\<lparr>lg_payment_id = PaymentID row, lg_account = AccountID t, lg_direction = ''DEBIT'',
           lg_amount_minor = MinorUnits (Amount t), lg_currency = Currency (Amount row)\<rparr>,
          \<lparr>lg_payment_id = PaymentID row, lg_account = ''clearing_account'', lg_direction = ''CREDIT'',
           lg_amount_minor = MinorUnits (Amount t), lg_currency = Currency (Amount row)\<rparr>]\<rparr>"
  have after: "row\<lparr>State := StateCaptured, UpdatedAt := now'\<rparr> \<in> set (txns ?w3)"
    "txns ?w3 = update_where (\<lambda>r. PaymentID r = PaymentID row \<and> State r = StateValidated)
       (\<lambda>r. r\<lparr>State := StateCaptured, UpdatedAt := now'\<rparr>) (txns w @ [row])"
    "batches ?w3 = batches w" "script ?w3 = []"
    using w2 fields(2) by (simp_all add: moved_world_def)
  have rec: "kr_topic (record_of ?ob) = TopicPaymentsReceived" "kr_key (record_of ?ob) = AccountID t"
    "kr_value (record_of ?ob) = Doc (jsonb (member_rank pg) j)"
    by (simp_all add: record_of_def TopicPaymentsReceived_def)
  have "ledger_retried c pg True now' (kr_key (record_of ?ob)) (kr_value (record_of ?ob)) w2 = (Returned None, ?w3)"
    unfolding rec by (rule delivered_once [OF dec t'(4) post])
  from that [OF sub _ w2(1,3) rec(1,2) this after(1) _ _ _ after(2-4)] show ?thesis
    by (simp add: ack_def w2(5))
qed

section \<open>A sample payment\<close>

text \<open>A payment over 25.00 USD from the request to the books, run on the sample types, with one settlement process.\<close>

abbreviation sample_run :: "nat \<Rightarrow> world \<times> memory_state \<Rightarrow> world \<times> memory_state \<Rightarrow> bool" where
  "sample_run engines ws ws' \<equiv>
     interleaved_run sample_codec sample_pg memory_redis 300 engines (ws, []) (ws', [])"

lemma nothing_yet: "interleaved_run c pg client ttl engines (ws, []) (ws, [])"
  by (simp add: interleaved_run_def system_run.halted)

lemma sample_row:
  "\<exists>row. insertable sample_pg (accepted (sample_stamp ''p'') (sample_normalized ''p'' ''k'' 2500)) row empty_world \<and>
     PaymentID row = ''p''"
proof -
  obtain row where row: "insertable sample_pg (accepted (sample_stamp ''p'') (sample_normalized ''p'' ''k'' 2500))
      row empty_world"
    using sample_insertable [of empty_world "''p''"] by (auto simp: empty_world_def)
  then have "txn_row sample_pg (accepted (sample_stamp ''p'') (sample_normalized ''p'' ''k'' 2500)) = Inr row"
    by (simp add: insertable_def)
  from txn_row_fields [OF this] row show ?thesis
    by (auto simp: accepted_def sample_normalized_def sample_pg_def)
qed

lemma sample_ready:
  "script empty_world = []" "filter is_unpublished (outbox empty_world) = []"
  "0 < sint (MinorUnits (Amount (sample_normalized ''p'' ''k'' 2500)))"
  "AccountID (sample_normalized ''p'' ''k'' 2500) \<noteq> []" "PaymentID (sample_normalized ''p'' ''k'' 2500) \<noteq> []"
  "Currency (Amount (sample_normalized ''p'' ''k'' 2500)) \<noteq> []"
  "fmt_time sample_codec (st_now (sample_stamp ''p'')) = Some (show_int 5000)"
  "parse_time sample_codec (show_int 5000) = Some (st_now (sample_stamp ''p''))"
  using sample_codec_time [of 5000 "show_int 5000"]
  by (simp_all add: empty_world_def sample_normalized_def sample_codec_def sample_stamp_def int64_bounds)

lemma sample_captured:
  assumes "0 < engines"
  obtains w s w' rec r where "sample_run engines (empty_world, empty_redis) (w, s)" "rec \<in> set (klog w)"
    "kr_topic rec = TopicPaymentsReceived" "sample_run engines (empty_world, empty_redis) (w', s)"
    "length (ledger w') = 2" "\<forall>l \<in> set (ledger w'). lg_payment_id l = ''p''"
    "txns w' = [r]" "PaymentID r = ''p''" "State r = StateCaptured" "AccountID r = ''acct''"
    "Amount r = \<lparr>MinorUnits = 2500, Currency = ''USD''\<rparr>" "CreatedAt r = 5000" "batches w' = []" "script w' = []"
proof -
  obtain row where row: "insertable sample_pg (accepted (sample_stamp ''p'') (sample_normalized ''p'' ''k'' 2500))
      row empty_world" "PaymentID row = ''p''"
    using sample_row by blast
  obtain s1 where claim: "redisStore_Claim memory_redis 300 empty_redis (DeriveKey (sample_normalized ''p'' ''k'' 2500))
      (PaymentID (sample_normalized ''p'' ''k'' 2500)) = (Inr (True, []), s1)"
    using sample_claim by blast
  let ?r = "row\<lparr>State := StateCaptured, UpdatedAt := 2\<rparr>"
  have row': "State row = StateValidated" "AccountID ?r = ''acct''"
    "Amount ?r = \<lparr>MinorUnits = 2500, Currency = ''USD''\<rparr>" "CreatedAt ?r = 5000"
    using row(1) txn_row_fields [of sample_pg "accepted (sample_stamp ''p'') (sample_normalized ''p'' ''k'' 2500)" row]
    by (auto simp: insertable_def accepted_def sample_normalized_def sample_stamp_def sample_pg_def
        intro!: money.equality)
  have fields: "AccountID (sample_normalized ''p'' ''k'' 2500) = ''acct''"
    "MinorUnits (Amount (sample_normalized ''p'' ''k'' 2500)) = 2500"
    by (simp_all add: sample_normalized_def)
  note way = captured_from_request [OF nothing_yet sample_ready(1,2) sample_is_normalized sample_ready(3-6)
      claim row(1) sample_ready(7,8), of 1 2, unfolded fields]
  obtain resp w1 w2 w3 rec where steps:
    "SubmitPayment sample_codec (intake_server sample_pg memory_redis 300) (sample_stamp ''p'')
       (sample_request ''k'' 2500 []) (empty_world, empty_redis) = (Inr resp, (w1, s1))"
    "relayBatch (Publish True) NewPostgresRelay_batchSize 1 w1 = (None, w2)" "klog w2 = klog empty_world @ [rec]"
    "kr_topic rec = TopicPaymentsReceived"
    "ledger_retried sample_codec sample_pg True 2 (kr_key rec) (kr_value rec) w2 = (Returned None, w3)"
    and final: "ledger w3 = ledger empty_world @
      [\<lparr>lg_payment_id = PaymentID row, lg_account = ''acct'', lg_direction = ''DEBIT'',
         lg_amount_minor = 2500, lg_currency = Currency (Amount row)\<rparr>,
       \<lparr>lg_payment_id = PaymentID row, lg_account = ''clearing_account'', lg_direction = ''CREDIT'',
         lg_amount_minor = 2500, lg_currency = Currency (Amount row)\<rparr>]"
    "txns w3 = update_where (\<lambda>r. PaymentID r = PaymentID row \<and> State r = StateValidated)
       (\<lambda>r. r\<lparr>State := StateCaptured, UpdatedAt := 2\<rparr>) (txns empty_world @ [row])"
    "batches w3 = batches empty_world" "script w3 = []"
    by (rule way) (rule that, (simp only:)+)
  have w3: "length (ledger w3) = 2" "\<forall>l \<in> set (ledger w3). lg_payment_id l = ''p''" "txns w3 = [?r]" "batches w3 = []"
    and logged: "rec \<in> set (klog w2)"
    using final row(2) row'(1) steps(3) by (simp_all add: empty_world_def)
  have run2: "pipeline_run sample_codec sample_pg memory_redis 300 (empty_world, empty_redis) (w2, s1)"
    by (rule pipeline_run.stepped [OF pipeline_run.stepped [OF pipeline_run.halted
          pipeline_step.submitted [OF steps(1)]] pipeline_step.relay_ticked [OF steps(2)]])
  have run3: "pipeline_run sample_codec sample_pg memory_redis 300 (empty_world, empty_redis) (w3, s1)"
    by (rule pipeline_run.stepped [OF run2 pipeline_step.ledger_delivered [OF logged steps(4,5)]])
  show ?thesis
    using that [OF run_interleaves [OF run2 assms] logged steps(4) run_interleaves [OF run3 assms] w3(1-3)]
      row(2) row'(2-4) w3(4) final(4) by simp
qed

section \<open>Two settlement processes\<close>

lemma statement_steps:
  assumes "i < length ts" "ts ! i = (h, and_then (statement f) g)" "f w = (x, w')" "h \<inter> held_by_others i ts = {}"
  shows "interleaved_run c pg client ttl engines ((w, s), ts) ((w', s), ts[i := (h, g x)])"
  unfolding interleaved_run_def
  by (rule system_run.stepped [OF system_run.halted thread_acts [where h = h and f = "on_world f" and x = x and g = g]])
    (use assms in \<open>simp_all add: statement_def on_world_def\<close>)

lemma interleaved_trans:
  "interleaved_run c pg client ttl engines a b \<Longrightarrow> interleaved_run c pg client ttl engines b d \<Longrightarrow>
   interleaved_run c pg client ttl engines a d"
  unfolding interleaved_run_def by (rule system_run_trans)

text \<open>The sample payment as both processes see it, and what the first one makes of it.\<close>

lemma sample_aggregated:
  assumes "txns w = [r]" "PaymentID r = ''p''" "State r = StateCaptured" "AccountID r = ''acct''"
    "Amount r = \<lparr>MinorUnits = 2500, Currency = ''USD''\<rparr>" "CreatedAt r = 5000" "script w = []" "6000 \<le> b" "1000 dvd b"
  shows "AggregateCaptured sample_pg 0 b w = (Inr [sample_group], w)"
proof -
  have "ts_in sample_pg 0 = 0" "5000 < ts_in sample_pg b"
    using assms(8) by (simp_all add: sample_pg_def)
  then have "in_window sample_pg 0 b r"
    using assms(3,6) by (simp add: in_window_def)
  then have "select_groups sample_pg 0 b w = [((''acct'', ''USD''), [r])]"
    using assms(1,4,5) by (simp add: select_groups_def group_key_def)
  then show ?thesis
    using assms(1-7)
    by (simp add: AggregateCaptured_def call_nil sum_minor_def in_int64_def int64_bounds sample_group_def)
qed

definition sample_settled :: "time \<Rightarrow> batch_row" where
  "sample_settled b = group_batch (sample_draw 0 b sample_group) sample_group 0 b"

lemma sample_persisted:
  assumes "1000 dvd b" "script w = []"
    "\<forall>x \<in> set (batches w). \<not> same_window x (sample_settled b) \<and> bt_ID x \<noteq> bt_ID (sample_settled b)"
  shows "PersistBatch sample_pg 9 (group_batch (sample_draw 0 b sample_group) sample_group 0 b) sample_group
      (Doc js) (Doc jp) w = (Inr False, settled_world sample_pg 9 (sample_settled b) [''p''] js jp w)"
proof (rule PersistBatch_clean [OF assms(2)])
  show "batch_columns sample_pg (group_batch (sample_draw 0 b sample_group) sample_group 0 b) = Inr (sample_settled b)"
    using assms(1)
    by (simp add: batch_columns_def as_uuid_def as_char3_def sample_pg_def sample_settled_def group_batch_def
        sample_draw_def sample_group_def)
qed (use assms(3) in \<open>auto simp: as_uuid_def sample_pg_def sample_group_def\<close>)

lemma group_program_then:
  assumes "settled_event c (dr_batch_id d) g a b = Inr js" "payout_event c (dr_payout_id d) (dr_batch_id d) g (dr_now d) = Inr jp"
  shows "and_then (group_program c pg now d g a b) k =
    and_then (statement (PersistBatch pg now (group_batch d g a b) g (Doc js) (Doc jp)))
      (\<lambda>r. and_then (case r of
         Inl err \<Rightarrow> Ret (Some (Wrap (''persist batch (account='' @ cg_AccountID g @ '' currency='' @
                      cg_Currency g @ ''): '') err))
       | Inr alreadyExisted \<Rightarrow> Ret None) k)"
  unfolding group_program_def Let_def assms by (simp only: sum.case and_then_assoc)

lemma sample_settling:
  obtains k k' js jp where
    "and_then (settle_program sample_codec sample_pg 9 (sample_draw 0 b) 0 b) (\<lambda>_. Ret ()) =
       and_then (statement (AggregateCaptured sample_pg 0 b)) k"
    "k (Inr [sample_group]) = and_then (statement (PersistBatch sample_pg 9
       (group_batch (sample_draw 0 b sample_group) sample_group 0 b) sample_group (Doc js) (Doc jp))) k'"
    "k' (Inr False) = Ret ()"
proof -
  obtain js jp where j: "settled_event sample_codec (dr_batch_id (sample_draw 0 b sample_group)) sample_group 0 b = Inr js"
    "payout_event sample_codec (dr_payout_id (sample_draw 0 b sample_group))
       (dr_batch_id (sample_draw 0 b sample_group)) sample_group (dr_now (sample_draw 0 b sample_group)) = Inr jp"
    by (simp add: settled_event_def payout_event_def sample_codec_def)
  show ?thesis
    by (rule that, unfold settle_program_def and_then_assoc, rule refl)
      (simp only: sum.case list.distinct if_False groups_program.simps and_then_assoc group_program_then [OF j], simp)
qed

lemma held_by_other:
  "held_by_others 0 [t, u] = fst u" "held_by_others (Suc 0) [t, u] = fst t"
proof -
  have "{..<2} - {0} = {Suc 0}" "{..<2} - {Suc 0} = {0::nat}" by auto
  then show "held_by_others 0 [t, u] = fst u" "held_by_others (Suc 0) [t, u] = fst t"
    by (simp_all add: held_by_others_def numeral_2_eq_2)
qed

text \<open>Two windows settled at once: both processes read, then both persist.\<close>

lemma two_settlements:
  fixes client :: "'r redis_client" and k1 :: "_ \<Rightarrow> ('r, unit) process" and k2 :: "_ \<Rightarrow> ('r, unit) process"
  assumes "and_then (settle_program c pg n1 d1 a1 b1) (\<lambda>_. Ret ()) = and_then (statement f1) k1"
    and "f1 w = (x1, w)" "k1 x1 = and_then (statement g1) l1" "g1 w = (y1, w1)" "l1 y1 = Ret ()"
    and "and_then (settle_program c pg n2 d2 a2 b2) (\<lambda>_. Ret ()) = and_then (statement f2) k2"
    and "f2 w = (x2, w)" "k2 x2 = and_then (statement g2) l2" "g2 w1 = (y2, w2)" "l2 y2 = Ret ()"
  shows "interleaved_run c pg client ttl 2 ((w, s), []) ((w2, s), [])"
proof -
  let ?run = "interleaved_run c pg client ttl 2"
  let ?e0 = "{Engine 0}" and ?e1 = "{Engine 1}"
  have first: "started c pg client ttl 2 (w, s) ?e0 (and_then (statement f1) k1)"
    unfolding assms(1) [symmetric] by (rule started.settlement) simp
  have second: "started c pg client ttl 2 (w, s) ?e1 (and_then (statement f2) k2)"
    unfolding assms(6) [symmetric] by (rule started.settlement) simp
  have begun: "?run ((w, s), []) ((w, s), [(?e0, and_then (statement f1) k1), (?e1, and_then (statement f2) k2)])"
    unfolding interleaved_run_def
    using system_step.started [where start = "started c pg client ttl 2", OF first, of "[]" surroundings]
      system_step.started [where start = "started c pg client ttl 2", OF second,
        of "[(?e0, and_then (statement f1) k1)]" surroundings]
    by simp (blast intro: system_run.halted system_run.stepped)
  have read: "?run ((w, s), [(?e0, and_then (statement f1) k1), (?e1, and_then (statement f2) k2)])
      ((w, s), [(?e0, k1 x1), (?e1, and_then (statement f2) k2)])"
    "?run ((w, s), [(?e0, k1 x1), (?e1, and_then (statement f2) k2)]) ((w, s), [(?e0, k1 x1), (?e1, k2 x2)])"
    using statement_steps [of 0 "[(?e0, and_then (statement f1) k1), (?e1, and_then (statement f2) k2)]" ?e0 f1 k1 w x1 w c pg client ttl 2 s]
      statement_steps [of 1 "[(?e0, k1 x1), (?e1, and_then (statement f2) k2)]" ?e1 f2 k2 w x2 w c pg client ttl 2 s] assms(2,7)
    by (simp_all add: held_by_other)
  have saved: "?run ((w, s), [(?e0, k1 x1), (?e1, k2 x2)]) ((w1, s), [(?e0, Ret ()), (?e1, k2 x2)])"
    "?run ((w1, s), [(?e0, Ret ()), (?e1, k2 x2)]) ((w2, s), [(?e0, Ret ()), (?e1, Ret ())])"
    using statement_steps [of 0 "[(?e0, k1 x1), (?e1, k2 x2)]" ?e0 g1 l1 w y1 w1 c pg client ttl 2 s]
      statement_steps [of 1 "[(?e0, Ret ()), (?e1, k2 x2)]" ?e1 g2 l2 w1 y2 w2 c pg client ttl 2 s] assms(3-5,8-10)
    by (simp_all add: held_by_other)
  have over: "?run ((w2, s), [t, u]) ((w2, s), [])" for t u
    using system_step.gone [of "started c pg client ttl 2" surroundings "(w2, s)" "[t, u]" 0]
      system_step.gone [of "started c pg client ttl 2" surroundings "(w2, s)" "[u]" 0]
    unfolding interleaved_run_def by simp (blast intro: system_run.halted system_run.stepped)
  show ?thesis
    using begun read saved over by (blast intro: interleaved_trans)
qed

text \<open>Both processes read the captured payment before either has persisted its batch.\<close>

lemma sample_settled_twice:
  assumes w: "txns w = [r]" "PaymentID r = ''p''" "State r = StateCaptured" "AccountID r = ''acct''"
    "Amount r = \<lparr>MinorUnits = 2500, Currency = ''USD''\<rparr>" "CreatedAt r = 5000" "batches w = []" "script w = []"
  obtains w' where "sample_run 2 (w, s) (w', s)" "txns w' = [r\<lparr>State := StateSettled, UpdatedAt := 9\<rparr>]"
    "batches w' = [sample_settled 6000, sample_settled 8000]"
proof -
  obtain k1 :: "_ \<Rightarrow> (memory_state, unit) process" and k1' js1 jp1 where p1:
    "and_then (settle_program sample_codec sample_pg 9 (sample_draw 0 6000) 0 6000) (\<lambda>_. Ret ()) =
       and_then (statement (AggregateCaptured sample_pg 0 6000)) k1"
    "k1 (Inr [sample_group]) = and_then (statement (PersistBatch sample_pg 9
       (group_batch (sample_draw 0 6000 sample_group) sample_group 0 6000) sample_group (Doc js1) (Doc jp1))) k1'"
    "k1' (Inr False) = Ret ()" by (rule sample_settling)
  obtain k2 :: "_ \<Rightarrow> (memory_state, unit) process" and k2' js2 jp2 where p2:
    "and_then (settle_program sample_codec sample_pg 9 (sample_draw 0 8000) 0 8000) (\<lambda>_. Ret ()) =
       and_then (statement (AggregateCaptured sample_pg 0 8000)) k2"
    "k2 (Inr [sample_group]) = and_then (statement (PersistBatch sample_pg 9
       (group_batch (sample_draw 0 8000 sample_group) sample_group 0 8000) sample_group (Doc js2) (Doc jp2))) k2'"
    "k2' (Inr False) = Ret ()" by (rule sample_settling)
  let ?run = "interleaved_run sample_codec sample_pg memory_redis 300 2"
  let ?w1 = "settled_world sample_pg 9 (sample_settled 6000) [''p''] js1 jp1 w"
  let ?w2 = "settled_world sample_pg 9 (sample_settled 8000) [''p''] js2 jp2 ?w1"
  have apart: "\<not> same_window (sample_settled 6000) (sample_settled 8000)"
    "bt_ID (sample_settled 6000) \<noteq> bt_ID (sample_settled 8000)"
    using show_int_inject [of 6000 8000]
    by (auto simp: sample_settled_def group_batch_def same_window_def sample_draw_def)
  have found: "AggregateCaptured sample_pg 0 6000 w = (Inr [sample_group], w)"
    "AggregateCaptured sample_pg 0 8000 w = (Inr [sample_group], w)"
    by (rule sample_aggregated [OF w(1-6,8)]; simp)+
  have saved: "PersistBatch sample_pg 9 (group_batch (sample_draw 0 6000 sample_group) sample_group 0 6000)
      sample_group (Doc js1) (Doc jp1) w = (Inr False, ?w1)"
    "PersistBatch sample_pg 9 (group_batch (sample_draw 0 8000 sample_group) sample_group 0 8000)
      sample_group (Doc js2) (Doc jp2) ?w1 = (Inr False, ?w2)"
    using sample_persisted [of 6000 w js1 jp1] sample_persisted [of 8000 ?w1 js2 jp2] w(7,8) apart
    by (simp_all add: settled_world_def)
  note begun = two_settlements [where c = sample_codec and pg = sample_pg and client = memory_redis and ttl = 300,
      OF p1(1) found(1) p1(2) saved(1) p1(3) p2(1) found(2) p2(2) saved(2) p2(3)]
  have "txns ?w2 = [r\<lparr>State := StateSettled, UpdatedAt := 9\<rparr>]"
    using w(1-3) by (simp add: settled_world_def settled_txns_def StateSettled_def StateCaptured_def)
  then show ?thesis using that [OF begun] w(7) by (simp add: settled_world_def)
qed

section \<open>One payment, two payouts\<close>

text \<open>
  C8. With two settlement processes the balance of batches and payments breaks: a run from the empty
  tables, in which nothing fails, takes one payment over 25.00 USD in and ends with two pending batches
  for its account over 50.00 USD in total, while the settled payments are worth 25.00 USD. Both processes aggregate the captured payment before either has persisted its batch, their
  windows end at different instants, so the unique key over the window does not stop the second batch,
  and nobody compares the number of payments the bulk update moved with the number aggregated.
\<close>

theorem two_engines_pay_twice:
  "\<exists>w s. interleaved_run sample_codec sample_pg memory_redis 300 2 ((empty_world, empty_redis), []) ((w, s), []) \<and>
     map bt_Status (batches w) = [BatchStatusPending, BatchStatusPending] \<and>
     sum_list (map (\<lambda>b. sint (bt_TotalMinor b))
       (filter (\<lambda>b. bt_AccountID b = ''acct'' \<and> bt_Currency b = ''USD'') (batches w))) = 5000 \<and>
     sum_list (map (\<lambda>r. sint (MinorUnits (Amount r)))
       (filter (\<lambda>r. AccountID r = ''acct'' \<and> Currency (Amount r) = ''USD'' \<and> State r = StateSettled) (txns w))) = 2500"
proof -
  obtain w s r where captured: "sample_run 2 (empty_world, empty_redis) (w, s)" "txns w = [r]" "PaymentID r = ''p''"
    "State r = StateCaptured" "AccountID r = ''acct''" "Amount r = \<lparr>MinorUnits = 2500, Currency = ''USD''\<rparr>"
    "CreatedAt r = 5000" "batches w = []" "script w = []"
    using sample_captured [of 2] by (metis zero_less_numeral)
  obtain w' where settled: "sample_run 2 (w, s) (w', s)" "txns w' = [r\<lparr>State := StateSettled, UpdatedAt := 9\<rparr>]"
    "batches w' = [sample_settled 6000, sample_settled 8000]"
    by (rule sample_settled_twice [OF captured(2-9)])
  then show ?thesis
    using interleaved_trans [OF captured(1) settled(1)] captured(5,6)
    by (intro exI [of _ w'] exI [of _ s])
      (simp add: sample_settled_def group_batch_def sample_group_def)
qed

end
