(* ===== verification/Well_Typed.thy ===== *)
theory Well_Typed
  imports Journey Setup
begin

text \<open>
  What the tables and the log may hold: identifiers and currencies that the columns accept, the states and
  directions the code knows, and topics that exist. It is an invariant of the interleaved system with
  any number of settlement processes.
\<close>

definition typed_txn :: "pgtypes \<Rightarrow> transaction \<Rightarrow> bool" where
  "typed_txn pg r \<longleftrightarrow>
     (\<exists>p. uuid_in pg p = Some (PaymentID r)) \<and> (\<exists>x. char3_in pg x = Some (Currency (Amount r))) \<and>
     State r \<in> {StateValidated, StateCaptured, StateSettled, StateFailed}"

definition typed_leg :: "pgtypes \<Rightarrow> ledger_row \<Rightarrow> bool" where
  "typed_leg pg l \<longleftrightarrow>
     (\<exists>p. uuid_in pg p = Some (lg_payment_id l)) \<and> (\<exists>x. char3_in pg x = Some (lg_currency l)) \<and>
     lg_direction l \<in> {''DEBIT'', ''CREDIT''} \<and> 0 < sint (lg_amount_minor l)"

definition typed_outbox :: "pgtypes \<Rightarrow> outbox_row \<Rightarrow> bool" where
  "typed_outbox pg ob \<longleftrightarrow>
     (\<exists>p. uuid_in pg p = Some (ob_aggregate_id ob)) \<and>
     ob_topic ob \<in> {TopicPaymentsReceived, TopicPaymentsSettled, TopicPayoutsRequested}"

definition typed_batch :: "pgtypes \<Rightarrow> batch_row \<Rightarrow> bool" where
  "typed_batch pg b \<longleftrightarrow>
     (\<exists>p. uuid_in pg p = Some (bt_ID b)) \<and> (\<exists>x. char3_in pg x = Some (bt_Currency b)) \<and>
     bt_Status b = BatchStatusPending"

definition typed_move :: "transition_row \<Rightarrow> bool" where
  "typed_move e \<longleftrightarrow> tr_from e = StateValidated \<and> tr_to e \<in> {StateCaptured, StateFailed}"

definition logged_topics :: "string set" where
  "logged_topics = {TopicPaymentsReceived, TopicPaymentsSettled, TopicPayoutsRequested, TopicDLQ}"

definition typed_world :: "pgtypes \<Rightarrow> world \<Rightarrow> bool" where
  "typed_world pg w \<longleftrightarrow>
     (\<forall>r \<in> set (txns w). typed_txn pg r) \<and> (\<forall>l \<in> set (ledger w). typed_leg pg l) \<and>
     (\<forall>ob \<in> set (outbox w). typed_outbox pg ob) \<and> (\<forall>b \<in> set (batches w). typed_batch pg b) \<and>
     (\<forall>e \<in> set (transitions w). typed_move e) \<and> (\<forall>rec \<in> set (klog w). kr_topic rec \<in> logged_topics)"

lemma typed_outbox_marked [simp]: "typed_outbox pg (ob\<lparr>ob_published_at := x\<rparr>) = typed_outbox pg ob"
  by (simp add: typed_outbox_def)

lemma typed_saved:
  assumes "typed_world pg w" "insertable pg (accepted st t) row w"
  shows "typed_world pg (saved_world pg (accepted st t) row j w)"
proof -
  have "uuid_in pg (PaymentID t) = Some (PaymentID row)" "State row = StateValidated"
    "char3_in pg (Currency (Amount t)) = Some (Currency (Amount row))"
    using assms(2) txn_row_fields [of pg "accepted st t" row] by (auto simp: insertable_def accepted_def)
  then have "typed_txn pg row" "typed_outbox pg (outbox_entry pg i (PaymentID row) ''payments.received'' k j x)" for i k x
    by (auto simp: typed_txn_def typed_outbox_def TopicPaymentsReceived_def)
  with assms(1) show ?thesis by (auto simp: typed_world_def saved_world_def)
qed

lemma typed_moved:
  assumes "typed_world pg w" "to = StateCaptured \<or> to = StateFailed"
  shows "typed_world pg (moved_world now u StateValidated to w)"
  using assms by (auto simp: typed_world_def moved_world_def set_update_where typed_txn_def typed_move_def)

lemma typed_booked:
  assumes "typed_world pg w" "0 < sint (ev_AmountMinor ev)" "uuid_in pg (ev_PaymentID ev) = Some u"
    "char3_in pg (ev_Currency ev) = Some cur"
  shows "typed_world pg (w\<lparr>ledger := ledger w @ new_legs u cur (event_transaction ev) (ledger w)\<rparr>)"
proof -
  have "typed_leg pg l" if "l \<in> set (both_legs u cur (event_transaction ev))" for l
    using that assms(2-4) by (auto simp: both_legs_def leg_def typed_leg_def event_transaction_def)
  then have "\<forall>l \<in> set (new_legs u cur (event_transaction ev) (ledger w)). typed_leg pg l"
    unfolding new_legs_def by simp
  with assms(1) show ?thesis by (auto simp: typed_world_def)
qed

lemma typed_settled:
  assumes "typed_world pg w" "batch_columns pg (group_batch d g a b) = Inr row"
  shows "typed_world pg (settled_world pg now row us js jp w)"
proof -
  have id: "uuid_in pg (bt_ID (group_batch d g a b)) = Some (bt_ID row)"
    "char3_in pg (bt_Currency (group_batch d g a b)) = Some (bt_Currency row)" "bt_Status row = BatchStatusPending"
    using assms(2) batch_columns_fields [OF assms(2)]
    by (auto simp: batch_columns_def group_batch_def split: sum.splits)
  then have "typed_batch pg row" by (auto simp: typed_batch_def)
  moreover have "typed_outbox pg ob" if "ob \<in> set (payout_rows pg now i (bt_ID row) k js jp)" for ob i k
    using that id(1) by (auto simp: payout_rows_def typed_outbox_def TopicPaymentsSettled_def TopicPayoutsRequested_def)
  moreover have "typed_txn pg r" if "r \<in> set (settled_txns now us (txns w))" for r
    using that assms(1) by (auto simp: settled_txns_def set_update_where typed_world_def typed_txn_def)
  ultimately show ?thesis using assms(1) by (auto simp: typed_world_def settled_world_def)
qed

interpretation typed: atomic_invariant "\<lambda>w. ledger_inv w \<and> typed_world pg w" c pg n "\<lambda>_ _. True" for c pg n
proof
  fix w
  note cong = ledger_inv_cong
  show "(ledger_inv (w\<lparr>script := x\<rparr>) \<and> typed_world pg (w\<lparr>script := x\<rparr>)) = (ledger_inv w \<and> typed_world pg w)" for x
    by (simp add: cong [of "w\<lparr>script := x\<rparr>" w] typed_world_def)
  show "ledger_inv (w\<lparr>outbox_seq := x\<rparr>) \<and> typed_world pg (w\<lparr>outbox_seq := x\<rparr>)"
    if "ledger_inv w \<and> typed_world pg w" "outbox_seq w \<le> x" for x
    using that by (simp add: cong [of "w\<lparr>outbox_seq := x\<rparr>" w] typed_world_def)
  show "ledger_inv (saved_world pg (accepted st t) row j w) \<and> typed_world pg (saved_world pg (accepted st t) row j w)"
    if "ledger_inv w \<and> typed_world pg w" "insertable pg (accepted st t) row w"
      "MarshalEvent c (NewPaymentReceivedEvent i (accepted st t)) = Inr j" for st t row j i
    using that books.saved typed_saved by blast
  show "ledger_inv (moved_world now u StateValidated to w) \<and> typed_world pg (moved_world now u StateValidated to w)"
    if "ledger_inv w \<and> typed_world pg w" "to = StateCaptured \<or> to = StateFailed"
      "\<exists>row \<in> set (txns w). PaymentID row = u \<and> State row = StateValidated" for now u to
    using that books.moved typed_moved by blast
  show "ledger_inv (w\<lparr>ledger := ledger w @ new_legs u cur (event_transaction ev) (ledger w)\<rparr>) \<and>
      typed_world pg (w\<lparr>ledger := ledger w @ new_legs u cur (event_transaction ev) (ledger w)\<rparr>)"
    if "ledger_inv w \<and> typed_world pg w" "posted_event c w ev" "0 < sint (ev_AmountMinor ev)"
      "uuid_in pg (ev_PaymentID ev) = Some u" "char3_in pg (ev_Currency ev) = Some cur" for ev u cur
    using that books.booked typed_booked by blast
  show "ledger_inv (w\<lparr>klog := klog w @ [\<lparr>kr_topic = TopicDLQ, kr_key = key, kr_value = p\<rparr>]\<rparr>) \<and>
      typed_world pg (w\<lparr>klog := klog w @ [\<lparr>kr_topic = TopicDLQ, kr_key = key, kr_value = p\<rparr>]\<rparr>)"
    if "ledger_inv w \<and> typed_world pg w" for key p
    using that books.dead_lettered by (auto simp: typed_world_def logged_topics_def)
  show "ledger_inv (w\<lparr>scores := scores w @ rows\<rparr>) \<and> typed_world pg (w\<lparr>scores := scores w @ rows\<rparr>)"
    if "ledger_inv w \<and> typed_world pg w" for rows
    using that books.scored by (auto simp: typed_world_def)
  show "ledger_inv (w\<lparr>klog := klog w @ [record_of ob]\<rparr>) \<and> typed_world pg (w\<lparr>klog := klog w @ [record_of ob]\<rparr>)"
    if "ledger_inv w \<and> typed_world pg w" "ob \<in> set (outbox w)" for ob
    using that cong [of "w\<lparr>klog := klog w @ [record_of ob]\<rparr>" w]
    by (auto simp: typed_world_def typed_outbox_def logged_topics_def record_of_def)
  show "ledger_inv (w\<lparr>outbox := update_where (\<lambda>r. ob_id r = ob_id ob) (\<lambda>r. r\<lparr>ob_published_at := Some now\<rparr>) (outbox w)\<rparr>) \<and>
      typed_world pg (w\<lparr>outbox := update_where (\<lambda>r. ob_id r = ob_id ob) (\<lambda>r. r\<lparr>ob_published_at := Some now\<rparr>) (outbox w)\<rparr>)"
    (is "ledger_inv ?w \<and> _") if "ledger_inv w \<and> typed_world pg w" for ob now
    using that cong [of ?w w] by (auto simp: typed_world_def set_update_where)
  show "ledger_inv (settled_world pg now row us js jp w) \<and> typed_world pg (settled_world pg now row us js jp w)"
    if "ledger_inv w \<and> typed_world pg w" "batch_columns pg (group_batch d g a b) = Inr row" for g d a b row us now js jp
    using that settled_ledger.batch_keeps typed_settled by blast
  show "distinct (map cg_key gs) \<and> (\<forall>g \<in> set gs. True)" if "AggregateCaptured pg a b w = (Inr gs, w')" for a b gs w'
    using settled_ledger.aggregated_keys [OF that] by simp
qed simp_all

text \<open>
  C21. Everything the pipeline stores and sends is well formed, in every reachable world, with any number of
  threads and settlement processes: identifiers and currencies are values that their columns accept,
  payments are VALIDATED, CAPTURED, SETTLED or FAILED, audited moves start at VALIDATED and end at CAPTURED
  or FAILED, legs are debits or credits of positive amounts, batches are PENDING, and records are on one of
  the four topics. No payment is ever stored as RECEIVED, although server\_test.go:126 and a comment in event.go
  expect that of a submitted one: \<open>SubmitPayment\<close> saves it as VALIDATED.
\<close>

theorem stored_values_typed:
  assumes "interleaved_run c pg client ttl engines ((empty_world, s0), []) ((w, s), ts)"
  shows "typed_world pg w"
proof -
  have "ledger_inv empty_world \<and> typed_world pg empty_world"
    using system_inv_empty [of c pg 0] by (simp add: system_inv_def typed_world_def empty_world_def)
  with typed.interleaved_keeps [OF assms] show ?thesis by simp
qed

theorem stored_values_typed_witness:
  "\<exists>w s. sample_run 2 (empty_world, empty_redis) (w, s) \<and> length (ledger w) = 2 \<and> typed_world sample_pg w"
proof -
  obtain w s where run: "sample_run 2 (empty_world, empty_redis) (w, s)" "length (ledger w) = 2"
    by (rule sample_captured [of 2]) (simp, rule that, assumption+)
  with stored_values_typed [OF run(1)] show ?thesis by blast
qed

text \<open>
  C22. Provisioning and the pipeline fit together: when \<open>provision-topics\<close> ends without an error, every record
  any process ever writes to the log goes to a topic that exists, for every admin client that creates what
  it says it creates and whatever is interleaved afterwards.
\<close>

theorem logged_topics_provisioned:
  assumes "\<And>spec s s'. create spec s = ((None, None), s') \<Longrightarrow> has s' (ts_name spec)"
    and "\<And>spec s e s'. create spec s = ((None, Some e), s') \<Longrightarrow>
      error_text e = ''TOPIC_ALREADY_EXISTS'' \<Longrightarrow> has s' (ts_name spec)"
    and "\<And>spec s r s' n. create spec s = (r, s') \<Longrightarrow> has s n \<Longrightarrow> has s' n"
    and "provision create topic_specs b = (True, b')"
    and "interleaved_run c pg client ttl engines ((empty_world, s0), []) ((w, s), ts)"
    and "rec \<in> set (klog w)"
  shows "has b' (kr_topic rec)"
proof -
  have "typed_world pg w"
    using typed.interleaved_keeps [OF assms(5)] system_inv_empty [of c pg 0]
    by (simp add: system_inv_def typed_world_def empty_world_def)
  with assms(6) have "kr_topic rec \<in> logged_topics" by (simp add: typed_world_def)
  then have "kr_topic rec \<in> ts_name ` set topic_specs"
    by (auto simp: logged_topics_def topic_specs_def topic_defs)
  then show ?thesis using provision_creates [of create has, OF assms(1-4)] by auto
qed

theorem logged_topics_provisioned_witness:
  "\<exists>names w s rec. provision list_broker topic_specs [''payments.settled''] = (True, names) \<and>
     sample_run 1 (empty_world, empty_redis) (w, s) \<and> rec \<in> set (klog w) \<and> kr_topic rec \<in> set names"
proof -
  obtain names where made: "provision list_broker topic_specs [''payments.settled''] = (True, names)"
    by (simp add: topic_specs_def list_broker_def)
  obtain w s rec where run: "sample_run 1 (empty_world, empty_redis) (w, s)" "rec \<in> set (klog w)"
    by (rule sample_captured [OF zero_less_one]) (rule that, assumption+)
  have "kr_topic rec \<in> set names"
    by (rule logged_topics_provisioned [of list_broker "\<lambda>names n. n \<in> set names", OF _ _ _ made run])
      (auto simp: list_broker_def split: if_splits)
  with made run show ?thesis by blast
qed

end
