(* ===== verification/Schema.thy ===== *)
theory Schema
  imports Well_Typed
begin

text \<open>
  The constraints of \<open>internal/store/migrations\<close>, read from the SQL and not from the statements that check
  them: one predicate per table, and the invariant that every reachable world satisfies them all. Columns
  that are \<open>NOT NULL\<close> are fields that always have a value; surrogate keys the model leaves out are no constraint.
\<close>

section \<open>Tables\<close>

definition is_uuid :: "pgtypes \<Rightarrow> string \<Rightarrow> bool" where
  "is_uuid pg s \<longleftrightarrow> uuid_in pg s = Some s"

definition is_char3 :: "pgtypes \<Rightarrow> string \<Rightarrow> bool" where
  "is_char3 pg s \<longleftrightarrow> char3_in pg s = Some s"

definition transactions_table :: "pgtypes \<Rightarrow> transaction list \<Rightarrow> bool" where
  "transactions_table pg rows \<longleftrightarrow>
     (\<forall>r \<in> set rows. is_uuid pg (PaymentID r) \<and> is_char3 pg (Currency (Amount r))) \<and>
     distinct (map PaymentID rows) \<and> distinct (map IdempotencyKey rows)"

definition outbox_table :: "pgtypes \<Rightarrow> outbox_row list \<Rightarrow> bool" where
  "outbox_table pg rows \<longleftrightarrow>
     (\<forall>r \<in> set rows. is_uuid pg (ob_aggregate_id r)) \<and> distinct (map ob_id rows)"

definition ledger_entries_table :: "pgtypes \<Rightarrow> ledger_row list \<Rightarrow> bool" where
  "ledger_entries_table pg rows \<longleftrightarrow>
     (\<forall>l \<in> set rows. is_uuid pg (lg_payment_id l) \<and> is_char3 pg (lg_currency l) \<and>
        lg_direction l \<in> {''DEBIT'', ''CREDIT''})"

definition idx_ledger_payment_direction :: "ledger_row list \<Rightarrow> bool" where
  "idx_ledger_payment_direction rows \<longleftrightarrow> distinct (map (\<lambda>l. (lg_payment_id l, lg_direction l)) rows)"

definition state_transitions_table :: "pgtypes \<Rightarrow> transition_row list \<Rightarrow> bool" where
  "state_transitions_table pg rows \<longleftrightarrow> (\<forall>e \<in> set rows. is_uuid pg (tr_payment_id e))"

definition settlement_batches_table :: "pgtypes \<Rightarrow> batch_row list \<Rightarrow> bool" where
  "settlement_batches_table pg rows \<longleftrightarrow>
     (\<forall>b \<in> set rows. is_uuid pg (bt_ID b) \<and> is_char3 pg (bt_Currency b)) \<and> distinct (map bt_ID rows)"

definition idx_settlement_window :: "batch_row list \<Rightarrow> bool" where
  "idx_settlement_window rows \<longleftrightarrow>
     distinct (map (\<lambda>b. (bt_AccountID b, bt_Currency b, bt_WindowStart b, bt_WindowEnd b)) rows)"

text \<open>The comments of the columns: a score is between 0 and 1, its signals are an array of reasons; the
  code also writes a JSON null there.\<close>

definition fraud_scores_table :: "pgtypes \<Rightarrow> score_row list \<Rightarrow> bool" where
  "fraud_scores_table pg rows \<longleftrightarrow>
     (\<forall>r \<in> set rows. is_uuid pg (sc_payment_id r) \<and> 0 \<le> sc_score r \<and> sc_score r \<le> f1_0 \<and>
        sc_risk_level r = risk_text (toRiskLevel (sc_score r)) \<and>
        (case sc_signals r of JArr reasons \<Rightarrow> reasons \<noteq> [] \<and> 0 < sc_score r | JNull \<Rightarrow> sc_score r = 0 | _ \<Rightarrow> False))"

definition schema_holds :: "pgtypes \<Rightarrow> world \<Rightarrow> bool" where
  "schema_holds pg w \<longleftrightarrow>
     transactions_table pg (txns w) \<and> outbox_table pg (outbox w) \<and>
     ledger_entries_table pg (ledger w) \<and> idx_ledger_payment_direction (ledger w) \<and>
     state_transitions_table pg (transitions w) \<and>
     settlement_batches_table pg (batches w) \<and> idx_settlement_window (batches w) \<and>
     fraud_scores_table pg (scores w)"

lemmas table_defs =
  schema_holds_def transactions_table_def outbox_table_def ledger_entries_table_def
  idx_ledger_payment_direction_def state_transitions_table_def settlement_batches_table_def
  idx_settlement_window_def fraud_scores_table_def

section \<open>The steps keep the constraints\<close>

lemma canonical_uuid: "canonical_types pg \<Longrightarrow> uuid_in pg s = Some u \<Longrightarrow> is_uuid pg u"
  unfolding canonical_types_def is_uuid_def by blast

lemma canonical_char3: "canonical_types pg \<Longrightarrow> char3_in pg s = Some x \<Longrightarrow> is_char3 pg x"
  unfolding canonical_types_def is_char3_def by blast

lemma stored_ids:
  "outbox_inv w \<Longrightarrow> distinct (map PaymentID (txns w)) \<and> distinct (map IdempotencyKey (txns w)) \<and>
     distinct (map ob_id (outbox w))"
  by (simp add: outbox_inv_def keys_inv_def strict_sorted_iff)

lemma double_entry_distinct:
  "distinct (map fst es) \<Longrightarrow> idx_ledger_payment_direction (concat (map entry_rows es))"
proof (induction es)
  case Nil
  then show ?case by (simp add: idx_ledger_payment_direction_def)
next
  case (Cons e es)
  obtain u a m x where e: "e = (u, a, m, x)" by (cases e)
  with Cons.prems have "u \<notin> fst ` set es" by simp
  then have "lg_payment_id l \<noteq> u" if "l \<in> set (concat (map entry_rows es))" for l
    using that by force
  with Cons show ?case by (auto simp: e idx_ledger_payment_direction_def)
qed

lemma schema_saved:
  assumes "canonical_types pg" "schema_holds pg w" "insertable pg (accepted st t) row w"
    and "outbox_inv (saved_world pg (accepted st t) row j w)"
  shows "schema_holds pg (saved_world pg (accepted st t) row j w)"
proof -
  have "is_uuid pg (PaymentID row)" "is_char3 pg (Currency (Amount row))"
    using assms(1,3) txn_row_fields [of pg "accepted st t" row]
    by (auto simp: insertable_def intro: canonical_uuid canonical_char3)
  with assms(2,3) stored_ids [OF assms(4)] show ?thesis
    by (auto simp: table_defs saved_world_def insertable_def)
qed

lemma schema_moved:
  assumes "schema_holds pg w" "\<exists>row \<in> set (txns w). PaymentID row = u \<and> State row = StateValidated"
  shows "schema_holds pg (moved_world now u StateValidated to w)"
  using assms by (auto simp: table_defs moved_world_def set_update_where map_update_where)

lemma schema_booked:
  assumes "canonical_types pg" "schema_holds pg w" "uuid_in pg (ev_PaymentID ev) = Some u"
    "char3_in pg (ev_Currency ev) = Some cur"
    and "idx_ledger_payment_direction (ledger w @ new_legs u cur (event_transaction ev) (ledger w))"
  shows "schema_holds pg (w\<lparr>ledger := ledger w @ new_legs u cur (event_transaction ev) (ledger w)\<rparr>)"
proof -
  have "ledger_entries_table pg (new_legs u cur (event_transaction ev) (ledger w))"
    using canonical_uuid [OF assms(1,3)] canonical_char3 [OF assms(1,4)]
    by (auto simp: new_legs_def both_legs_def leg_def ledger_entries_table_def)
  with assms(2,5) show ?thesis by (auto simp: schema_holds_def ledger_entries_table_def)
qed

lemma schema_scored:
  assumes "canonical_types pg" "schema_holds pg w" "plausible_score sc" "uuid_in pg (Sc_PaymentID sc) = Some u"
  shows "schema_holds pg (w\<lparr>scores := scores w @ [stored_score u sc]\<rparr>)"
proof -
  have "fraud_scores_table pg [stored_score u sc]"
    using canonical_uuid [OF assms(1,4)] assms(3)
    by (auto simp: fraud_scores_table_def stored_score_def plausible_score_def marshal_signals_def)
  with assms(2) show ?thesis by (auto simp: schema_holds_def fraud_scores_table_def)
qed

lemma schema_settled:
  assumes "canonical_types pg" "schema_holds pg w" "batch_columns pg (group_batch d g a b) = Inr row" "new_batch row w"
    and "outbox_inv (settled_world pg now row us js jp w)"
  shows "schema_holds pg (settled_world pg now row us js jp w)"
proof -
  have "is_uuid pg (bt_ID row)" "is_char3 pg (bt_Currency row)"
    using assms(1) batch_columns_fields [OF assms(3)] by (auto intro: canonical_uuid canonical_char3)
  with assms(2,4) stored_ids [OF assms(5)] show ?thesis
    by (auto simp: table_defs settled_world_def settled_txns_def payout_rows_def set_update_where map_update_where
        new_batch_def same_window_def)
qed

text \<open>The constraints of the tables together with the invariants they rest on.\<close>

definition schema_inv :: "pgtypes \<Rightarrow> world \<Rightarrow> bool" where
  "schema_inv pg w \<longleftrightarrow> ledger_inv w \<and> outbox_inv w \<and> (canonical_types pg \<longrightarrow> schema_holds pg w)"

lemma schema_inv_plain:
  assumes "schema_inv pg w" "ledger w' = ledger w" "txns w' = txns w" "transitions w' = transitions w"
    "batches w' = batches w" "scores w' = scores w" "outbox w' = outbox w" "outbox_inv w'"
  shows "schema_inv pg w'"
  using assms ledger_inv_cong [of w' w] by (simp add: schema_inv_def schema_holds_def)

interpretation schema: atomic_invariant "schema_inv pg" c pg n "\<lambda>_ _. True" for c pg n
proof
  fix w
  show script: "schema_inv pg (w\<lparr>script := x\<rparr>) = schema_inv pg w" for x
    by (simp add: schema_inv_def schema_holds_def)
  show "schema_inv pg (w\<lparr>outbox_seq := x\<rparr>)" if "schema_inv pg w" "outbox_seq w \<le> x" for x
    by (rule schema_inv_plain [OF that(1)]) (use that settled_outbox.seq_up in \<open>simp_all add: schema_inv_def\<close>)
  show "schema_inv pg (saved_world pg (accepted st t) row j w)"
    if "schema_inv pg w" "insertable pg (accepted st t) row w"
      "MarshalEvent c (NewPaymentReceivedEvent i (accepted st t)) = Inr j" for st t row j i
    using that books.saved promises.saved by (simp add: schema_inv_def schema_saved)
  show "schema_inv pg (moved_world now u StateValidated to w)"
    if "schema_inv pg w" "to = StateCaptured \<or> to = StateFailed"
      "\<exists>row \<in> set (txns w). PaymentID row = u \<and> State row = StateValidated" for now u to
    using that books.moved promises.moved by (simp add: schema_inv_def schema_moved)
  show "schema_inv pg (w\<lparr>ledger := ledger w @ new_legs u cur (event_transaction ev) (ledger w)\<rparr>)" (is "schema_inv pg ?w")
    if "schema_inv pg w" "posted_event c w ev" "0 < sint (ev_AmountMinor ev)"
      "uuid_in pg (ev_PaymentID ev) = Some u" "char3_in pg (ev_Currency ev) = Some cur" for ev u cur
  proof -
    have inv: "ledger_inv ?w" "outbox_inv ?w"
      using that books.booked promises.booked by (simp_all add: schema_inv_def)
    then have "idx_ledger_payment_direction (ledger ?w)"
      unfolding ledger_inv_def double_entry_def using double_entry_distinct by force
    with that(1,4,5) inv show ?thesis unfolding schema_inv_def by (auto intro: schema_booked)
  qed
  show "schema_inv pg (w\<lparr>klog := klog w @ [\<lparr>kr_topic = TopicDLQ, kr_key = key, kr_value = p\<rparr>]\<rparr>)"
    if "schema_inv pg w" for key p
    by (rule schema_inv_plain [OF that]) (use that promises.dead_lettered in \<open>simp_all add: schema_inv_def\<close>)
  show "schema_inv pg (w\<lparr>scores := scores w @ [stored_score u sc]\<rparr>)"
    if "schema_inv pg w" "plausible_score sc" "uuid_in pg (Sc_PaymentID sc) = Some u" for u sc
    using that books.scored promises.scored by (simp add: schema_inv_def schema_scored)
  show "schema_inv pg (w\<lparr>klog := klog w @ [record_of ob]\<rparr>)" if "schema_inv pg w" for ob
    by (rule schema_inv_plain [OF that]) (use that outbox_published in \<open>simp_all add: schema_inv_def\<close>)
  show "schema_inv pg (w\<lparr>outbox :=
      update_where (\<lambda>r. ob_id r = ob_id ob) (\<lambda>r. r\<lparr>ob_published_at := Some now\<rparr>) (outbox w)\<rparr>)" (is "schema_inv pg ?w")
    if "schema_inv pg w" "ob \<in> set (outbox w)" "record_of ob \<in> set (klog w)" for ob now
    using that outbox_marked ledger_inv_cong [of ?w w]
    by (auto simp: schema_inv_def schema_holds_def outbox_table_def set_update_where map_update_where)
  show "schema_inv pg (settled_world pg now row us js jp w)"
    if "schema_inv pg w" "batch_columns pg (group_batch d g a b) = Inr row" "new_batch row w" for g d a b row us now js jp
    using that settled_ledger.batch_keeps settled_outbox.batch_keeps by (auto simp: schema_inv_def intro: schema_settled)
  show "distinct (map cg_key gs) \<and> (\<forall>g \<in> set gs. True)" if "AggregateCaptured pg a b w = (Inr gs, w')" for a b gs w'
    using settled_ledger.aggregated_keys [OF that] by simp
qed (simp_all add: schema_inv_def)

section \<open>Every reachable world\<close>

text \<open>
  C7. Whatever is interleaved, every reachable world satisfies the constraints of the migrations: payment ids
  and idempotency keys are unique, there is one leg of each direction per payment and one batch per account,
  currency and window, ids are UUIDs and currencies have three characters. Scores are between 0 and 1 with the
  level of their number; a score without signals has a JSON null where the schema speaks of an array. The hypothesis
  says that Postgres reads back a UUID and a \<open>CHAR(3)\<close> it has printed.
\<close>

theorem migrations_hold:
  assumes "interleaved_run c pg client ttl engines ((empty_world, s0), []) ((w, s), ts)" "canonical_types pg"
  shows "schema_holds pg w"
proof -
  have "schema_inv pg empty_world"
    using system_inv_empty [of _ pg 0]
    by (auto simp: schema_inv_def system_inv_def table_defs empty_world_def)
  with schema.interleaved_keeps [OF assms(1)] assms(2) show ?thesis by (simp add: schema_inv_def)
qed

lemma sample_canonical: "canonical_types sample_pg"
  by (auto simp: canonical_types_def sample_pg_def split: if_splits)

theorem migrations_hold_witness:
  "\<exists>w s. sample_run 2 (empty_world, empty_redis) (w, s) \<and> length (ledger w) = 2 \<and> schema_holds sample_pg w"
proof -
  obtain w s where run: "sample_run 2 (empty_world, empty_redis) (w, s)" "length (ledger w) = 2"
    by (rule sample_captured [of 2]) (simp, rule that, assumption+)
  from migrations_hold [OF run(1) sample_canonical] run show ?thesis by blast
qed

end
