(* ===== verification/Progress.thy ===== *)
theory Progress
  imports Interleaving "HOL-Library.Multiset"
begin

text \<open>
  When threads that wait for locks get on. Locks have a rank, and a thread only acquires a lock of a higher
  rank than all it holds; a thread that has finished holds no lock that anybody could want. Then some
  thread can act whenever one has not finished, and all threads can run to their end.

  \<^item> \<open>orderly\<close> is the discipline of one program, whatever states its actions meet.
  \<^item> The locale \<open>orderly_system\<close> proves progress for every system whose threads start orderly.
\<close>

section \<open>Orderly programs\<close>

primrec orderly ::
  "('k \<Rightarrow> nat) \<Rightarrow> ('s, 'k, 'a) prog \<Rightarrow> ('a \<Rightarrow> 'k set \<Rightarrow> bool) \<Rightarrow> 'k set \<Rightarrow> bool" where
  "orderly rank (Ret x) = (\<lambda>Q h. Q x h)"
| "orderly rank (Act f) = (\<lambda>Q h. \<forall>s. case map_prod id (map_prod id (orderly rank)) (f s) of
     (s', l, c) \<Rightarrow> (\<forall>k. l = Acquire k \<longrightarrow> 0 < rank k \<and> (\<forall>j \<in> h. rank j < rank k)) \<and> c Q (after_lock l h))"

lemma orderly_Act:
  "orderly rank (Act f) Q h \<longleftrightarrow> (\<forall>s s' l p. f s = (s', l, p) \<longrightarrow>
     (\<forall>k. l = Acquire k \<longrightarrow> 0 < rank k \<and> (\<forall>j \<in> h. rank j < rank k)) \<and> orderly rank p Q (after_lock l h))"
proof -
  have "orderly rank (Act f) Q h \<longleftrightarrow> (\<forall>s. case f s of (s', l, p) \<Rightarrow>
      (\<forall>k. l = Acquire k \<longrightarrow> 0 < rank k \<and> (\<forall>j \<in> h. rank j < rank k)) \<and> orderly rank p Q (after_lock l h))"
    by (simp add: map_prod_def case_prod_beta')
  then show ?thesis by (simp add: case_prod_beta) (metis prod.collapse fst_conv snd_conv)
qed

declare orderly.simps(2) [simp del]

lemma orderly_weaken:
  "orderly rank p Q h \<Longrightarrow> (\<And>x h. Q x h \<Longrightarrow> Q' x h) \<Longrightarrow> orderly rank p Q' h"
proof (induction p arbitrary: h rule: prog_induct)
  case (Act f)
  show ?case
    unfolding orderly_Act
  proof (intro allI impI conjI)
    fix s s' l q
    assume f: "f s = (s', l, q)"
    show "orderly rank q Q' (after_lock l h)"
      using Act.IH [OF f _ Act.prems(2)] Act.prems(1) f by (simp add: orderly_Act)
  qed (use Act.prems(1) in \<open>fastforce simp: orderly_Act\<close>)+
qed simp

lemma orderly_and_then:
  "orderly rank p (\<lambda>x h. orderly rank (g x) Q h) h \<Longrightarrow> orderly rank (and_then p g) Q h"
proof (induction p arbitrary: h rule: prog_induct)
  case (Act f)
  show ?case
    unfolding and_then_Act orderly_Act
  proof (intro allI impI)
    fix s s' l p
    assume "(case f s of (s', l, p) \<Rightarrow> (s', l, and_then p g)) = (s', l, p)"
    then obtain q where q: "f s = (s', l, q)" "p = and_then q g" by (auto split: prod.splits)
    with Act show "(\<forall>k. l = Acquire k \<longrightarrow> 0 < rank k \<and> (\<forall>j \<in> h. rank j < rank k)) \<and>
        orderly rank p Q (after_lock l h)"
      by (auto simp: orderly_Act)
  qed
qed simp

lemma orderly_locked:
  assumes "\<And>x s s'. f s = (x, s') \<Longrightarrow>
    (\<forall>k. l x = Acquire k \<longrightarrow> 0 < rank k \<and> (\<forall>j \<in> h. rank j < rank k)) \<and> orderly rank (g x) Q (after_lock (l x) h)"
  shows "orderly rank (and_then (locked l f) g) Q h"
  using assms by (auto simp: locked_def orderly_Act split: prod.splits)

lemma orderly_atomic: "(\<And>x. orderly rank (g x) Q h) \<Longrightarrow> orderly rank (and_then (atomic f) g) Q h"
  by (simp add: atomic_def orderly_locked)

section \<open>Systems of orderly threads\<close>

definition finished :: "('s, 'k) thread list \<Rightarrow> bool" where
  "finished ts \<longleftrightarrow> (\<forall>t \<in> set ts. snd t = Ret ())"

text \<open>A thread performs its next action.\<close>

inductive thread_step :: "'s \<times> ('s, 'k) thread list \<Rightarrow> 's \<times> ('s, 'k) thread list \<Rightarrow> bool" where
  "i < length ts \<Longrightarrow> ts ! i = (h, Act f) \<Longrightarrow> f s = (s', l, p) \<Longrightarrow>
   after_lock l h \<inter> held_by_others i ts = {} \<Longrightarrow> thread_step (s, ts) (s', ts[i := (after_lock l h, p)])"

inductive_cases thread_stepE: "thread_step st st'"

lemma thread_step_system: "thread_step st st' \<Longrightarrow> system_step start env st st'"
  by (erule thread_stepE) (auto intro: system_step.acted)

text \<open>What is left of a program after an action is smaller.\<close>

definition remainders :: "(('s, 'k, unit) prog \<times> ('s, 'k, unit) prog) set" where
  "remainders = {(q, Act f) | q f. \<exists>s s' l. f s = (s', l, q)}"

lemma wf_remainders: "wf remainders"
proof (rule wfI_min, rule ccontr)
  fix p :: "('s, 'k, unit) prog" and P
  assume p: "p \<in> P" and no_min: "\<not> (\<exists>z \<in> P. \<forall>y. (y, z) \<in> remainders \<longrightarrow> y \<notin> P)"
  have "p \<notin> P" for p
  proof (induction p rule: prog_induct)
    case (Ret x)
    with no_min show ?case by (auto simp: remainders_def)
  next
    case (Act f)
    with no_min show ?case by (auto simp: remainders_def)
  qed
  with p show False by blast
qed

definition left_to_do :: "('s, 'k) thread list \<Rightarrow> ('s, 'k, unit) prog multiset" where
  "left_to_do ts = mset (map snd ts)"

lemma thread_step_less:
  "thread_step (s, ts) (s', ts') \<Longrightarrow> (left_to_do ts', left_to_do ts) \<in> mult remainders"
proof (erule thread_stepE, clarsimp)
  fix i h and f :: "'a \<Rightarrow> 'a \<times> 'b locking \<times> ('a, 'b, unit) prog" and l p
  assume i: "i < length ts" "ts ! i = (h, Act f)" and f: "f s = (s', l, p)"
  then have "Act f \<in># left_to_do ts" by (force simp: left_to_do_def in_set_conv_nth)
  then obtain M where M: "left_to_do ts = add_mset (Act f) M" by (metis insert_DiffM)
  moreover have "left_to_do (ts[i := (after_lock l h, p)]) = add_mset p M"
    using i M by (simp add: left_to_do_def map_update mset_update)
  moreover have "(p, Act f) \<in> remainders" using f by (auto simp: remainders_def)
  ultimately show "(left_to_do (ts[i := (after_lock l h, p)]), left_to_do ts) \<in> mult remainders"
    using one_step_implies_mult [of "{#Act f#}" "{#p#}" remainders M] by simp
qed

locale orderly_system =
  fixes rank :: "'k \<Rightarrow> nat" and start :: "'s \<Rightarrow> 'k set \<Rightarrow> ('s, 'k, unit) prog \<Rightarrow> bool" and env :: "'s \<Rightarrow> 's \<Rightarrow> bool"
  assumes starts_orderly: "start s h p \<Longrightarrow> orderly rank p (\<lambda>_ h. \<forall>k \<in> h. rank k = 0) h"
begin

definition all_orderly :: "('s, 'k) thread list \<Rightarrow> bool" where
  "all_orderly ts \<longleftrightarrow>
     exclusive ts \<and> (\<forall>t \<in> set ts. orderly rank (snd t) (\<lambda>_ h. \<forall>k \<in> h. rank k = 0) (fst t))"

lemma orderly_acted:
  assumes "all_orderly ts" "i < length ts" "ts ! i = (h, Act f)" "f s = (s', l, p)"
    and "after_lock l h \<inter> held_by_others i ts = {}"
  shows "all_orderly (ts[i := (after_lock l h, p)])"
proof -
  have "orderly rank (Act f) (\<lambda>_ h. \<forall>k \<in> h. rank k = 0) h"
    using assms(1-3) nth_mem [OF assms(2)] by (auto simp: all_orderly_def)
  with assms(4) have "orderly rank p (\<lambda>_ h. \<forall>k \<in> h. rank k = 0) (after_lock l h)" by (simp add: orderly_Act)
  with assms(1) exclusive_acted [OF _ assms(2,3,5), of p] show ?thesis
    unfolding all_orderly_def by (auto dest!: set_update_subset_insert [THEN subsetD])
qed

lemma orderly_step: "system_step start env st st' \<Longrightarrow> all_orderly (snd st) \<Longrightarrow> all_orderly (snd st')"
proof (induction rule: system_step.induct)
  case (started s h p ts)
  then show ?case using exclusive_started [of ts h p] starts_orderly by (auto simp: all_orderly_def)
next
  case (acted i ts h f s s' l p)
  then show ?case by (simp add: orderly_acted)
next
  case (gone s ts i)
  then show ?case
    using exclusive_gone [of ts i] by (auto simp: all_orderly_def dest: in_set_takeD in_set_dropD)
qed simp

lemma orderly_run: "system_run start env st st' \<Longrightarrow> all_orderly (snd st) \<Longrightarrow> all_orderly (snd st')"
  by (induction rule: system_run.induct) (auto dest: orderly_step)

text \<open>A thread that cannot act waits for a lock of a thread that has not finished.\<close>

lemma waits:
  assumes "all_orderly ts" "i < length ts" "ts ! i = (h, Act f)" "f s = (s', l, p)"
    and "after_lock l h \<inter> held_by_others i ts \<noteq> {}"
  obtains k j h' f' where "l = Acquire k" "\<forall>m \<in> h. rank m < rank k" "j < length ts" "ts ! j = (h', Act f')" "k \<in> h'"
proof -
  have dis: "h \<inter> held_by_others i ts = {}"
    using assms(1-3) by (fastforce simp: all_orderly_def exclusive_def)
  with assms(5) obtain k where k: "l = Acquire k" "k \<in> held_by_others i ts" by (cases l) auto
  then obtain j where j: "j < length ts" "k \<in> fst (ts ! j)" by (auto simp: held_by_others_def)
  have "orderly rank (snd (ts ! j)) (\<lambda>_ h. \<forall>k \<in> h. rank k = 0) (fst (ts ! j))"
    "orderly rank (Act f) (\<lambda>_ h. \<forall>k \<in> h. rank k = 0) h"
    using assms(1-3) j(1) nth_mem [OF assms(2)] by (auto simp: all_orderly_def)
  moreover from this(2) have up: "0 < rank k" "\<forall>m \<in> h. rank m < rank k"
    using assms(4) k(1) by (auto simp: orderly_Act)
  ultimately obtain f' where "snd (ts ! j) = Act f'" using j(2) by (cases "snd (ts ! j)") auto
  with j show ?thesis by (intro that [OF k(1) up(2) j(1), of "fst (ts ! j)" f']) (auto simp: prod_eq_iff)
qed

lemma some_thread_acts:
  assumes "all_orderly ts" "\<not> finished ts"
  shows "\<exists>s' ts'. thread_step (s, ts) (s', ts')"
proof (rule ccontr)
  assume stuck: "\<nexists>s' ts'. thread_step (s, ts) (s', ts')"
  define rest where "rest = {i. i < length ts \<and> snd (ts ! i) \<noteq> Ret ()}"
  define wanted where "wanted i = (case snd (ts ! i) of
      Act f \<Rightarrow> (case f s of (s', Acquire k, p) \<Rightarrow> rank k | _ \<Rightarrow> 0) | _ \<Rightarrow> 0)" for i
  have blocked: "\<exists>k j. wanted i = rank k \<and> (\<forall>m \<in> fst (ts ! i). rank m < rank k) \<and> j \<in> rest \<and> k \<in> fst (ts ! j)"
    if i: "i \<in> rest" for i
  proof -
    obtain h f where hf: "i < length ts" "ts ! i = (h, Act f)"
      using i unfolding rest_def by (cases "ts ! i"; cases "snd (ts ! i)") auto
    obtain s' l p where f: "f s = (s', l, p)" by (rule prod_cases3)
    with stuck hf have "after_lock l h \<inter> held_by_others i ts \<noteq> {}" by (blast intro: thread_step.intros)
    from waits [OF assms(1) hf f this] obtain k j h' f' where
      k: "l = Acquire k" "\<forall>m \<in> h. rank m < rank k" "j < length ts" "ts ! j = (h', Act f')" "k \<in> h'" .
    then show ?thesis
      using hf f by (intro exI [of _ k] exI [of _ j]) (simp add: wanted_def rest_def)
  qed
  have fin: "finite (wanted ` rest)" "wanted ` rest \<noteq> {}"
    using assms(2) by (auto simp: rest_def finished_def in_set_conv_nth) (metis snd_conv)
  from Max_in [OF fin] obtain i where i: "i \<in> rest" "wanted i = Max (wanted ` rest)" by auto
  then have top: "\<forall>j \<in> rest. wanted j \<le> wanted i" using fin(1) by simp
  from blocked [OF i(1)] obtain k j where j: "wanted i = rank k" "j \<in> rest" "k \<in> fst (ts ! j)" by blast
  from blocked [OF j(2)] j(3) have "rank k < wanted j" by fastforce
  with top j(1,2) show False by fastforce
qed

text \<open>From every such configuration all threads can run to their end.\<close>

lemma all_finish:
  assumes "all_orderly ts"
  shows "\<exists>s' ts'. thread_step\<^sup>*\<^sup>* (s, ts) (s', ts') \<and> finished ts'"
  using assms
proof (induction "left_to_do ts" arbitrary: s ts rule: wf_induct_rule [OF wf_mult [OF wf_remainders]])
  case 1
  show ?case
  proof (cases "finished ts")
    case False
    with some_thread_acts [OF 1(2)] obtain s1 ts1 where step: "thread_step (s, ts) (s1, ts1)" by blast
    have "all_orderly ts1"
      using orderly_step [OF thread_step_system [OF step]] 1(2) by simp
    with 1(1) [OF thread_step_less [OF step]] step show ?thesis
      by (meson converse_rtranclp_into_rtranclp)
  qed blast
qed

end

end
