(* ===== verification/No_Deadlock.thy ===== *)
theory No_Deadlock
  imports Progress Journey
begin

text \<open>
  The processes of the pipeline never wait for each other in a circle. The only locks that a thread
  acquires on its way are those of the ledger: the debit before the credit, and both are given back
  before the posting ends.
\<close>

definition lock_rank :: "token \<Rightarrow> nat" where
  "lock_rank k = (case k of Engine n \<Rightarrow> 0 | Leg u d \<Rightarrow> if d = ''DEBIT'' then 1 else 2)"

abbreviation orderly_process ::
  "('r, 'a) process \<Rightarrow> ('a \<Rightarrow> token set \<Rightarrow> bool) \<Rightarrow> token set \<Rightarrow> bool" where
  "orderly_process \<equiv> orderly lock_rank"

lemma orderly_statement: "(\<And>x. orderly_process (g x) Q h) \<Longrightarrow> orderly_process (and_then (statement f) g) Q h"
  unfolding statement_def by (rule orderly_atomic)

lemma orderly_command: "(\<And>x. orderly_process (g x) Q h) \<Longrightarrow> orderly_process (and_then (command f) g) Q h"
  unfolding command_def by (rule orderly_atomic)

lemma orderly_locking_statement:
  assumes "\<And>x w w'. f w = (x, w') \<Longrightarrow>
    (\<forall>k. l x = Acquire k \<longrightarrow> 0 < lock_rank k \<and> (\<forall>j \<in> h. lock_rank j < lock_rank k)) \<and>
    orderly_process (g x) Q (after_lock (l x) h)"
  shows "orderly_process (and_then (locking_statement l f) g) Q h"
  unfolding locking_statement_def
  by (rule orderly_locked) (use assms in \<open>auto simp: on_world_def split: prod.splits\<close>)

section \<open>Postings\<close>

lemma orderly_move:
  "(\<And>k. l \<noteq> Acquire k) \<Longrightarrow> (\<And>x. orderly_process (g x) Q (after_lock l h)) \<Longrightarrow>
   orderly_process (and_then (move_payment pg now trx l to) g) Q h"
  unfolding move_payment_def by (rule orderly_locking_statement) simp

lemma orderly_capture:
  assumes "debitTag = 0 \<Longrightarrow> creditTag = 0 \<Longrightarrow> h = {}"
  shows "orderly_process (post_capture pg now trx debitTag creditTag pending) (\<lambda>_ h. h = {}) h"
  unfolding post_capture_def Let_def
  by (rule orderly_move) (use assms in \<open>auto intro!: orderly_locking_statement\<close>)

lemma leg_lock_cases:
  assumes "call (insert_leg pg pid account d m pending) w = (x, w')"
  obtains "leg_lock x = Keep" "\<And>n p. x = Inr (n, p) \<Longrightarrow> n = 0"
    | u n p where "leg_lock x = Acquire (Leg u d)" "x = Inr (n, p)" "n \<noteq> 0"
proof (cases x)
  case (Inl e)
  then show ?thesis by (intro that(1)) (simp_all add: leg_lock_def)
next
  case (Inr np)
  obtain n p where np: "np = (n, p)" by (rule prod.exhaust)
  from insert_leg_call(2) [OF assms, of n p] Inr np show ?thesis
    using that by (auto simp: leg_lock_def split: if_splits)
qed

lemma orderly_credit:
  assumes "h = {} \<or> debitTag \<noteq> 0 \<and> (\<exists>u. h = {Leg u ''DEBIT''})"
  shows "orderly_process (post_credit pg now trx debitTag pending) (\<lambda>_ h. h = {}) h"
  unfolding post_credit_def
proof (rule orderly_locking_statement)
  fix x w w'
  assume "call (insert_leg pg (PaymentID trx) ''clearing_account'' ''CREDIT'' (Amount trx) pending) w = (x, w')"
  then show "(\<forall>k. leg_lock x = Acquire k \<longrightarrow> 0 < lock_rank k \<and> (\<forall>j \<in> h. lock_rank j < lock_rank k)) \<and>
      orderly_process (case x of
          Inl err \<Rightarrow> and_then (move_payment pg now trx Release StateFailed) (\<lambda>_. Ret (Some (Wrap ''insert credit: '' err)))
        | Inr (creditTag, pending) \<Rightarrow> post_capture pg now trx debitTag creditTag pending)
        (\<lambda>_ h. h = {}) (after_lock (leg_lock x) h)"
    by (cases rule: leg_lock_cases)
      (use assms in \<open>auto simp: lock_rank_def intro!: orderly_move orderly_capture split: sum.split\<close>)
qed

lemma orderly_debit: "orderly_process (post_debit pg now trx) (\<lambda>_ h. h = {}) {}"
  unfolding post_debit_def
proof (rule orderly_locking_statement)
  fix x w w'
  assume "call (insert_leg pg (PaymentID trx) (AccountID trx) ''DEBIT'' (Amount trx) []) w = (x, w')"
  then show "(\<forall>k. leg_lock x = Acquire k \<longrightarrow> 0 < lock_rank k \<and> (\<forall>j \<in> {}. lock_rank j < lock_rank k)) \<and>
      orderly_process (case x of
          Inl err \<Rightarrow> and_then (move_payment pg now trx Release StateFailed) (\<lambda>_. Ret (Some (Wrap ''insert debit: '' err)))
        | Inr (debitTag, pending) \<Rightarrow> post_credit pg now trx debitTag pending)
        (\<lambda>_ h. h = {}) (after_lock (leg_lock x) {})"
    by (cases rule: leg_lock_cases)
      (auto simp: lock_rank_def intro!: orderly_move orderly_credit split: sum.split)
qed

lemma orderly_Post: "orderly_process (Post_program pg now trx) (\<lambda>_ h. h = {}) {}"
  by (auto simp: Post_program_def intro!: orderly_statement orderly_move orderly_debit split: sum.split)

section \<open>The other programs\<close>

lemma orderly_ledger_handle: "orderly_process (ledger_handle_program c pg now key p) (\<lambda>_ h. h = {}) {}"
  unfolding ledger_handle_program_def
  by (auto intro!: orderly_and_then orderly_weaken [OF orderly_Post] split: sum.split option.split)

lemma orderly_fraud_handle: "orderly_process (fraud_handle_program c pg client key p) (\<lambda>_ h. h = {}) {}"
  by (auto simp: fraud_handle_program_def intro!: orderly_command orderly_statement split: sum.split option.split)

lemma orderly_notification_handle: "orderly_process (notification_handle_program c key p) (\<lambda>_ h. h = {}) {}"
  by (auto simp: notification_handle_program_def split: sum.split)

lemma orderly_retry:
  assumes "orderly_process attempt_once (\<lambda>_ h. h = {}) {}"
  shows "orderly_process (retry_program attempt_once maxAttempts attempt err) (\<lambda>_ h. h = {}) {}"
  using assms
proof (induction attempt_once maxAttempts attempt err rule: retry_program.induct)
  case (1 attempt_once maxAttempts attempt err)
  show ?case
    unfolding retry_program.simps [of attempt_once maxAttempts attempt err]
    using 1 by (auto intro!: orderly_and_then orderly_weaken [OF 1(2)] split: option.split)
qed

lemma orderly_dlq: "orderly_process (dlq_program c ready now g key p e n) (\<lambda>_ h. h = {}) {}"
  by (auto simp: dlq_program_def intro!: orderly_statement split: option.split)

lemma orderly_retried:
  assumes "orderly_process attempt_once (\<lambda>_ h. h = {}) {}"
  shows "orderly_process (retried_program c ready now g attempt_once key p) (\<lambda>_ h. h = {}) {}"
  unfolding retried_program_def
  by (rule orderly_and_then, rule orderly_weaken [OF orderly_retry [OF assms]])
    (auto simp: orderly_dlq split: loop_exit.split)

lemma orderly_relay_rows: "orderly_process (relay_rows_program ready now rows) (\<lambda>_ h. h = {}) {}"
  by (induction rows) (auto intro!: orderly_statement split: option.split sum.split)

lemma orderly_relay: "orderly_process (relay_program ready n now) (\<lambda>_ h. h = {}) {}"
  by (auto simp: relay_program_def orderly_relay_rows intro!: orderly_statement split: sum.split)

lemma orderly_submit: "orderly_process (submit_program c pg client ttl st req) (\<lambda>_ h. h = {}) {}"
  by (auto simp: submit_program_def claim_program_def and_then_assoc
      intro!: orderly_command orderly_statement split: sum.split option.split redis_reply.split bool.split)

lemma orderly_group:
  assumes "orderly_process (k None) Q h" "\<And>e. orderly_process (k (Some e)) Q h"
  shows "orderly_process (and_then (group_program c pg now d g a b) k) Q h"
  using assms by (auto simp: group_program_def Let_def and_then_assoc intro!: orderly_statement split: sum.split)

lemma orderly_groups:
  "orderly_process (groups_program c pg now draw a b gs) (\<lambda>_ h. h = {Engine n}) {Engine n}"
  by (induction gs) (auto intro: orderly_group)

lemma orderly_settle: "orderly_process (settle_program c pg now draw a b) (\<lambda>_ h. h = {Engine n}) {Engine n}"
  unfolding settle_program_def
  by (rule orderly_statement) (auto intro!: orderly_and_then orderly_weaken [OF orderly_groups] split: sum.split)

section \<open>No deadlock\<close>

lemma started_orderly:
  "started c pg client ttl engines st h p \<Longrightarrow> orderly_process p (\<lambda>_ h. \<forall>k \<in> h. lock_rank k = 0) h"
proof (induction rule: started.induct)
  case (settlement k pg now draw a b)
  then show ?case
    by (intro orderly_and_then orderly_weaken [OF orderly_settle]) (simp add: lock_rank_def)
qed (auto intro!: orderly_and_then orderly_statement orderly_weaken [OF orderly_submit]
    orderly_weaken [OF orderly_relay] orderly_weaken [OF orderly_retried [OF orderly_ledger_handle]]
    orderly_weaken [OF orderly_retried [OF orderly_fraud_handle]]
    orderly_weaken [OF orderly_retried [OF orderly_notification_handle]])

interpretation pipeline_progress: orderly_system lock_rank "started c pg client ttl engines" surroundings
  for c pg client ttl engines
  by unfold_locales (rule started_orderly)

text \<open>
  C9. The processes never deadlock: in every reachable configuration, with any number of threads of any
  kind, some thread that has not finished can perform its next action, and the threads can all run to
  their end without one of them dying and without anything new being started. Two deliveries of the same
  payment wait for each other's legs, but never in a circle.
\<close>

theorem pipeline_never_stuck:
  assumes "interleaved_run c pg client ttl engines (ws, []) (ws', ts)"
  shows "((\<exists>t \<in> set ts. snd t \<noteq> Ret ()) \<longrightarrow> (\<exists>ws'' ts'. thread_step (ws', ts) (ws'', ts'))) \<and>
    (\<exists>ws'' ts'. thread_step\<^sup>*\<^sup>* (ws', ts) (ws'', ts') \<and> (\<forall>t \<in> set ts'. snd t = Ret ()))"
proof -
  have "pipeline_progress.all_orderly ts"
    using pipeline_progress.orderly_run [of c pg client ttl engines "(ws, [])" "(ws', ts)"] assms
    by (simp add: interleaved_run_def pipeline_progress.all_orderly_def exclusive_def)
  from pipeline_progress.some_thread_acts [OF this] pipeline_progress.all_finish [OF this]
  show ?thesis by (auto simp: finished_def)
qed

text \<open>Two deliveries of the same record at once.\<close>

definition sample_delivery :: "kafka_record \<Rightarrow> (world \<times> memory_state, token) thread" where
  "sample_delivery rec = ({}, and_then (retried_program sample_codec True 2 ''ledger-consumer''
     (ledger_handle_program sample_codec sample_pg 2 (kr_key rec) (kr_value rec)) (kr_key rec) (kr_value rec))
     (\<lambda>_. Ret ()))"

lemma sample_delivery_starts:
  assumes "rec \<in> set (klog w)" "kr_topic rec = TopicPaymentsReceived" "\<forall>t \<in> set ts. fst t = {}"
  shows "interleaved_run sample_codec sample_pg memory_redis 300 n ((w, s), ts) ((w, s), ts @ [sample_delivery rec])"
  unfolding interleaved_run_def sample_delivery_def
  by (rule system_run.stepped [OF system_run.halted system_step.started], rule started.ledger_delivery)
    (use assms in auto)

theorem pipeline_never_stuck_witness:
  "\<exists>w s rec. interleaved_run sample_codec sample_pg memory_redis 300 1 ((empty_world, empty_redis), [])
       ((w, s), [sample_delivery rec, sample_delivery rec]) \<and>
     (\<exists>ws'' ts'. thread_step\<^sup>*\<^sup>* ((w, s), [sample_delivery rec, sample_delivery rec]) (ws'', ts') \<and>
        (\<forall>t \<in> set ts'. snd t = Ret ()))"
proof -
  obtain w s rec where sample: "sample_run 1 (empty_world, empty_redis) (w, s)" "rec \<in> set (klog w)"
    "kr_topic rec = TopicPaymentsReceived"
    by (rule sample_captured [OF zero_less_one]) (rule that, assumption+)
  have "interleaved_run sample_codec sample_pg memory_redis 300 1 ((w, s), []) ((w, s), [sample_delivery rec])"
    "interleaved_run sample_codec sample_pg memory_redis 300 1 ((w, s), [sample_delivery rec])
       ((w, s), [sample_delivery rec, sample_delivery rec])"
    using sample_delivery_starts [OF sample(2,3), of "[]"] sample_delivery_starts [OF sample(2,3), of "[sample_delivery rec]"]
    by (simp_all add: sample_delivery_def)
  then have run: "interleaved_run sample_codec sample_pg memory_redis 300 1 ((empty_world, empty_redis), [])
      ((w, s), [sample_delivery rec, sample_delivery rec])"
    using interleaved_trans [OF sample(1)] interleaved_trans by blast
  with pipeline_never_stuck [OF run] show ?thesis by blast
qed

end
