(* ===== verification/Spec2Isabelle.thy ===== *)
theory Spec2Isabelle
  imports Processes Schema No_Deadlock
begin

text \<open>
  A verification development of the distributed payment pipeline (Go, \<open>src/internal\<close> and
  \<open>src/cmd\<close>).

  \<^bold>\<open>The program.\<close> The intake server takes a payment over gRPC, normalizes it to a transaction, claims
  its idempotency key in Redis, and saves the transaction and an outbox row in one database
  transaction. The relay moves outbox rows to Kafka. Three consumers read \<open>payments.received\<close>: the
  ledger consumer books two legs and moves the payment to CAPTURED, the fraud consumer scores it, the
  notification consumer is a stub. The settlement engine groups captured payments by account and
  currency into batches and writes the payout request to the outbox. Retries and dead letters wrap the
  consumers.

  \<^bold>\<open>Theories and code.\<close>
  \<^item> \<open>Prelude\<close>: 64 bit words, Go's maps, tables of rows, the lemma collections. \<open>Go_Strings\<close>,
    \<open>Go_Numbers\<close>, \<open>Go_Errors\<close>: what the code uses of \<open>strings\<close>, \<open>strconv\<close>, \<open>fmt\<close> and \<open>errors\<close>.
  \<^item> \<open>Domain\<close>: \<open>internal/domain\<close>, the transaction and the lifecycle table. \<open>Normalize\<close>:
    \<open>internal/normalize\<close>. \<open>Amounts\<close>: \<open>formatAmount\<close> of the server against \<open>parseAmount\<close>.
  \<^item> \<open>Redis\<close>: the commands used, as a record of operations over any server state with the laws of
    the locale \<open>redis_server\<close>. \<open>Validate\<close>, \<open>Idempotency\<close> (with \<open>Sha256\<close>): the packages of that name.
  \<^item> \<open>Event\<close>: \<open>internal/outbox/event.go\<close> and its JSON form. \<open>Database\<close>: the state the processes
    share (\<open>world\<close>) and what a call, a transaction, a commit and a rollback are.
  \<^item> \<open>Store\<close>: \<open>internal/store\<close>. \<open>Ledger\<close>: \<open>internal/ledger\<close>. \<open>Relay\<close>: \<open>internal/outbox/relay.go\<close>.
    \<open>Fraud\<close>: \<open>internal/fraud-score\<close>. \<open>Settlement_Store\<close>, \<open>Settlement_Engine\<close>:
    \<open>internal/settlement\<close>.
  \<^item> \<open>Kafka\<close>, \<open>Retry\<close>, \<open>Consumer\<close>: \<open>internal/kafka\<close>. \<open>Consumers\<close>: the three handlers and their wiring in
    \<open>cmd/*-consumer\<close>. \<open>Intake\<close>: \<open>internal/intake\<close> and the wiring of \<open>cmd/intake\<close>. \<open>Setup\<close>:
    \<open>internal/config\<close> and the topics of \<open>cmd/provision-topics\<close>.
  \<^item> \<open>Pipeline\<close>, \<open>Pipeline_Invariants\<close>: whole operations of the processes one after the other, as a step
    relation, and its invariants.
  \<^item> \<open>Interleaving\<close>: programs as trees of atomic actions, threads with locks, and a rely and guarantee rule.
    \<open>Programs\<close>: the operations split into atomic actions, each equal to its operation when it runs alone.
    \<open>Concurrency\<close>: any number of threads of every kind interleaved, with the invariants of the system.
    \<open>Progress\<close>, \<open>No_Deadlock\<close>: the order of locks, and that all threads can finish. \<open>Well_Typed\<close>: what the
    tables and the log may hold. \<open>Schema\<close>: the constraints of the migrations, which every reachable
    world satisfies. \<open>Journey\<close>: the way of one payment, and two settlement processes that pay it twice.
  \<^item> \<open>Durations\<close>: \<open>time.ParseDuration\<close>. \<open>Processes\<close>: the mains of \<open>cmd\<close> from their start to their exit.
  \<^item> This theory: the properties of every reachable world, and the way of one payment.

  \<^bold>\<open>State and failures.\<close> The tables, the Kafka log and a script of outcomes form the record \<open>world\<close>. Every
  call that leaves a process takes the next outcome: performed, refused (also for a text that the
  server cannot store), or performed with the answer lost. A theorem over all worlds
  therefore covers every pattern of failures, and one with an empty script is about a run without failures. Errors are values (\<open>goerr\<close>), with the texts and the
  wrapping that the code tells apart.

  \<^bold>\<open>Concurrency.\<close> The state of the interleaved system is the world, the state of Redis and a list of threads.
  One action is a statement outside a transaction, a Redis command, a produced record, or a
  transaction that keeps the rows it reads locked until its commit (\<open>SaveWithOutbox\<close>, \<open>UpdateState\<close>,
  \<open>PersistBatch\<close>). The posting to the ledger is split further, because it calls \<open>UpdateState\<close> while its
  own transaction is open; its uncommitted legs are locks, as in the unique index. Between two actions
  of a thread the others may act, threads may start or die, and Redis may change. Outbox ids are given
  out in the order of the commits.

  \<^bold>\<open>Lemma groups.\<close> Each component has an elimination rule for what an operation can do
  (\<open>SaveWithOutbox_cases\<close>, \<open>UpdateState_cases\<close>, \<open>Post_cases\<close>, \<open>PersistBatch_cases\<close>, \<open>publishToDLQ_cases\<close>),
  an equation for runs without failures (the lemmas that end in \<open>_clean\<close>) and an invariant. The
  interfaces are locales: \<open>world_invariant\<close> (what survives calls and rollbacks), \<open>redis_server\<close>,
  \<open>idempotency_store\<close>, \<open>world_producer\<close>, \<open>retried_handler\<close>, \<open>consumer_invariant\<close>, \<open>settlement_store\<close>,
  \<open>batch_invariant\<close>, \<open>effect_invariant\<close> with \<open>pipeline_invariant\<close> for whole operations and
  \<open>atomic_invariant\<close> for interleaved ones, \<open>relying\<close>, \<open>rely_guarantee\<close> and \<open>orderly_system\<close>, each interpreted on
  the definitions of the model. Where a theorem shows that the code misses its purpose, or that a test or
  a comment of the repository expects something else of it, the text before it says so.

  \<^bold>\<open>Bounds.\<close> There is no fuel. The retry loop and the padding loop terminate by a measure; the loops
  that the environment drives (ticks, fetches, claims) recurse over the list of what they receive,
  and when it is used up the process is still waiting. Amounts and settings are 64 bit words with
  their wrap-around; scores are IEEE 754 doubles on the values that occur; instants are integers in
  nanoseconds, without the monotonic reading that Go's clock carries along.

  \<^bold>\<open>Parameters.\<close> Postgres' treatment of column values (\<open>pgtypes\<close>), the text of times and of JSON errors
  (\<open>codec\<close>), the Redis server, the Kafka client and the admin client are arguments; named hypotheses
  state the documented behaviour that a theorem needs of them. JSON is modelled as its value, with
  the members in the order \<open>encoding/json\<close> writes them; a \<open>JSONB\<close> column keeps the last of equal names and puts
  them in an order of its own, which is a parameter.

  \<^bold>\<open>Not modelled.\<close> Logging; closing pools and clients; what opening a pool, a listener or a Kafka client does
  (an argument gives its answer); \<open>cmd/dlqctl\<close>, \<open>internal/observability\<close> and the interceptors, which are
  empty; of the migrations the indexes for speed, the surrogate keys and the way down. Transactions that are one
  action are not split into their statements: the rows they change stay locked until they commit, the state
  that a refused \<open>UpdateState\<close> reads for the text of its error is the one it was refused for, and the outbox
  never shows an id before a smaller one. Contexts are
  not cancelled in the middle of an operation other than by a failing call.
\<close>

section \<open>Reachable worlds\<close>

text \<open>
  The pipeline starts with empty tables and an empty log; Redis may hold anything. A configuration is
  the world, the state of Redis and the threads that are under way (theory \<open>Concurrency\<close>).
\<close>

lemma double_entry_filter:
  "distinct (map fst es) \<Longrightarrow>
   filter (\<lambda>l. lg_payment_id l = u) (concat (map entry_rows es)) = [] \<or>
   (\<exists>a m cur. (u, a, m, cur) \<in> set es \<and>
      filter (\<lambda>l. lg_payment_id l = u) (concat (map entry_rows es)) = entry_rows (u, a, m, cur))"
proof (induction es)
  case Nil
  then show ?case by simp
next
  case (Cons e es)
  obtain v a m cur where e: "e = (v, a, m, cur)" by (cases e)
  show ?case
  proof (cases "v = u")
    case True
    with Cons.prems e have "u \<notin> fst ` set es" by auto
    then have "filter (\<lambda>l. lg_payment_id l = u) (concat (map entry_rows es)) = []"
      using entry_legs [of es u] Cons.prems by (simp add: e)
    with True e show ?thesis by auto
  next
    case False
    with Cons e show ?thesis by auto
  qed
qed

text \<open>
  C1. The books agree with the payments: in every world that any number of threads and settlement processes
  reach, with their actions interleaved in any order, threads dying between two actions, calls failing
  and Kafka delivering again, a payment id has no legs at all, or exactly one debit of the account and one
  credit of the clearing account over the positive amount and in the currency of the stored
  payment with that id.
\<close>

theorem books_match_payments:
  assumes "interleaved_run c pg client ttl engines ((empty_world, s0), []) ((w, s), ts)"
  shows "filter (\<lambda>l. lg_payment_id l = u) (ledger w) = [] \<or>
    (\<exists>r \<in> set (txns w). PaymentID r = u \<and> 0 < sint (MinorUnits (Amount r)) \<and>
       filter (\<lambda>l. lg_payment_id l = u) (ledger w) =
         [\<lparr>lg_payment_id = u, lg_account = AccountID r, lg_direction = ''DEBIT'',
           lg_amount_minor = MinorUnits (Amount r), lg_currency = Currency (Amount r)\<rparr>,
          \<lparr>lg_payment_id = u, lg_account = ''clearing_account'', lg_direction = ''CREDIT'',
           lg_amount_minor = MinorUnits (Amount r), lg_currency = Currency (Amount r)\<rparr>])"
proof -
  obtain es where es: "ledger w = concat (map entry_rows es)" "distinct (map fst es)"
    "\<forall>(u, account, m, cur) \<in> set es. 0 < sint m"
    using interleaved_from_empty(1) [OF assms] by (auto simp: ledger_inv_def double_entry_def)
  from double_entry_filter [OF es(2), of u] show ?thesis
  proof (elim disjE exE conjE)
    fix a m cur
    assume e: "(u, a, m, cur) \<in> set es"
      "filter (\<lambda>l. lg_payment_id l = u) (concat (map entry_rows es)) = entry_rows (u, a, m, cur)"
    let ?debit = "\<lparr>lg_payment_id = u, lg_account = a, lg_direction = ''DEBIT'', lg_amount_minor = m,
      lg_currency = cur\<rparr>"
    have "?debit \<in> set (ledger w)" using e(1) unfolding es(1) by force
    then obtain r where "r \<in> set (txns w)" "leg_of ?debit r"
      using interleaved_from_empty(3) [OF assms] by (auto simp: trail_inv_def)
    with e es show ?thesis by (intro disjI2 bexI [of _ r]) (auto simp: leg_of_def)
  qed (simp add: es(1))
qed

text \<open>
  C3. The trail from the payment to Kafka is complete in every world that interleaved threads reach: each
  stored payment has its row in the outbox under its account as partition key, a row marked as published is in the log
  with its key and payload, and whatever event a consumer decodes from a record of
  \<open>payments.received\<close> carries the id, account, amount and currency of a stored payment.
\<close>

theorem events_match_payments:
  assumes "interleaved_run c pg client ttl engines ((empty_world, s0), []) ((w, s), ts)"
  shows "(\<forall>r \<in> set (txns w). \<exists>ob \<in> set (outbox w). ob_topic ob = ''payments.received'' \<and>
      ob_aggregate_id ob = PaymentID r \<and> ob_partition_key ob = AccountID r) \<and>
    (\<forall>ob \<in> set (outbox w). ob_published_at ob \<noteq> None \<longrightarrow>
      \<lparr>kr_topic = ob_topic ob, kr_key = ob_partition_key ob, kr_value = Doc (ob_payload ob)\<rparr> \<in> set (klog w)) \<and>
    (\<forall>k \<in> set (klog w). \<forall>ev. kr_topic k = ''payments.received'' \<and> UnmarshalEvent c (kr_value k) = Inr ev \<longrightarrow>
      (\<exists>r \<in> set (txns w). uuid_in pg (ev_PaymentID ev) = Some (PaymentID r) \<and>
         ev_AccountID ev = AccountID r \<and> ev_AmountMinor ev = MinorUnits (Amount r) \<and>
         char3_in pg (ev_Currency ev) = Some (Currency (Amount r))))"
  using interleaved_from_empty(2,3) [OF assms]
  by (simp add: trail_inv_def outbox_inv_def relay_inv_def record_of_def backed_def event_of_def
      TopicPaymentsReceived_def)

text \<open>
  C4. The life of a payment in the running system, with all actions interleaved: it is VALIDATED, CAPTURED, FAILED or SETTLED and never
  anything else (no process ever authorizes or reconciles), and the audit table holds exactly the one
  move out of VALIDATED, or none yet. The move to SETTLED leaves no row: a settled payment has the
  audit trail of a captured one. In particular it is never RECEIVED: \<open>SubmitPayment\<close> sets VALIDATED before it saves, and
  the test that expects RECEIVED in the saved payment (server\_test.go:126, like a comment in event.go) fails
  against the code.
\<close>

theorem payment_life:
  assumes "interleaved_run c pg client ttl engines ((empty_world, s0), []) ((w, s), ts)" "r \<in> set (txns w)"
  shows "(State r, map (\<lambda>e. (tr_from e, tr_to e))
      (filter (\<lambda>e. tr_payment_id e = PaymentID r) (transitions w))) \<in>
    {(''VALIDATED'', []), (''FAILED'', [(''VALIDATED'', ''FAILED'')]),
     (''CAPTURED'', [(''VALIDATED'', ''CAPTURED'')]), (''SETTLED'', [(''VALIDATED'', ''CAPTURED'')])}"
  using interleaved_from_empty(4) [OF assms(1)] assms(2)
  by (auto simp: audit_inv_def moves_of_def moves_to_def state_names)

text \<open>
  C6. No money is made or lost between capture and payout as long as at most one settlement process runs: in
  every world that it and any number of other threads reach, interleaved, for every account and currency,
  the totals of the settlement batches add up to the amounts of the payments in state
  SETTLED. The last hypothesis says that Postgres reads back a UUID and a \<open>CHAR(3)\<close> it has printed.
\<close>

theorem batches_match_payments:
  assumes "interleaved_run c pg client ttl engines ((empty_world, s0), []) ((w, s), ts)" "engines \<le> 1"
    and "canonical_types pg"
  shows "sum_list (map (\<lambda>b. sint (bt_TotalMinor b))
      (filter (\<lambda>b. bt_AccountID b = a \<and> bt_Currency b = cur) (batches w))) =
    sum_list (map (\<lambda>r. sint (MinorUnits (Amount r)))
      (filter (\<lambda>r. AccountID r = a \<and> Currency (Amount r) = cur \<and> State r = StateSettled) (txns w)))"
proof -
  have "conserved pg w" using interleaved_from_empty(5) [OF assms(1,2)] assms(3) by (simp add: money_inv_def)
  then have "batched (a, cur) (batches w) = sum_minor (filter (is_settled (a, cur)) (txns w))"
    by (simp add: conserved_def)
  moreover have "filter (is_settled (a, cur)) (txns w) =
      filter (\<lambda>r. AccountID r = a \<and> Currency (Amount r) = cur \<and> State r = StateSettled) (txns w)"
    using interleaved_from_empty(4) [OF assms(1)]
    by (intro filter_cong)
      (auto simp: audit_inv_def is_settled_def group_key_def state_names StateReconciled_def)
  ultimately show ?thesis by (simp add: batched_def sum_minor_def batch_key_def)
qed

text \<open>
  C5. What is recorded is kept: from any reachable configuration onwards, whatever is interleaved, dies or fails,
  a stored payment keeps its identifier, key, account, amount and every other column but its state and time of
  update, and its state only moves forward, from VALIDATED to CAPTURED or FAILED and from CAPTURED to SETTLED; an
  outbox row keeps what it publishes; and the ledger, the audit table, the batches, the scores and the log
  only grow at their end.
\<close>

theorem records_are_kept:
  assumes "interleaved_run c pg client ttl engines ((empty_world, s0), []) ((w, s), ts)"
    and "interleaved_run c pg client ttl engines ((w, s), ts) ((w', s'), ts')"
  shows "(\<forall>r \<in> set (txns w). \<exists>r' \<in> set (txns w'). r' = r\<lparr>State := State r', UpdatedAt := UpdatedAt r'\<rparr> \<and>
      (State r' = State r \<or> (State r, State r') \<in> {(''VALIDATED'', ''CAPTURED''), (''VALIDATED'', ''FAILED''),
         (''CAPTURED'', ''SETTLED''), (''VALIDATED'', ''SETTLED'')})) \<and>
    (\<forall>ob \<in> set (outbox w). \<exists>ob' \<in> set (outbox w'). ob_id ob' = ob_id ob \<and> record_of ob' = record_of ob) \<and>
    take (length (ledger w)) (ledger w') = ledger w \<and>
    take (length (transitions w)) (transitions w') = transitions w \<and>
    take (length (batches w)) (batches w') = batches w \<and>
    take (length (scores w)) (scores w') = scores w \<and>
    take (length (klog w)) (klog w') = klog w"
  using whole.interleaved_evolves [OF assms(1) _ assms(2)] system_inv_empty
  by (simp add: evolves_def history_def grows_def advanced_def forward_def state_names)

section \<open>From the request to the captured payment\<close>


section \<open>Witnesses\<close>

theorem books_match_payments_witness:
  "\<exists>w s. sample_run 1 (empty_world, empty_redis) (w, s) \<and>
     (\<exists>r \<in> set (txns w). PaymentID r = ''p'' \<and> 0 < sint (MinorUnits (Amount r)))"
proof -
  obtain w' s where run: "sample_run 1 (empty_world, empty_redis) (w', s)" "length (ledger w') = 2"
    "\<forall>l \<in> set (ledger w'). lg_payment_id l = ''p''"
    by (rule sample_captured [OF zero_less_one]) (rule that, assumption+)
  then have "filter (\<lambda>l. lg_payment_id l = ''p'') (ledger w') = ledger w'" by (simp add: filter_id_conv)
  with run(2) have "filter (\<lambda>l. lg_payment_id l = ''p'') (ledger w') \<noteq> []" by auto
  with books_match_payments [OF run(1), of "''p''"] run(1) show ?thesis by blast
qed

theorem events_match_payments_witness:
  "\<exists>w s rec. sample_run 1 (empty_world, empty_redis) (w, s) \<and> rec \<in> set (klog w) \<and>
     (\<forall>ev. UnmarshalEvent sample_codec (kr_value rec) = Inr ev \<longrightarrow>
        (\<exists>r \<in> set (txns w). ev_AmountMinor ev = MinorUnits (Amount r)))"
proof -
  obtain w s rec where run: "sample_run 1 (empty_world, empty_redis) (w, s)" "rec \<in> set (klog w)"
    "kr_topic rec = TopicPaymentsReceived"
    by (rule sample_captured [OF zero_less_one]) (rule that, assumption+)
  with events_match_payments [OF run(1)] show ?thesis by (metis TopicPaymentsReceived_def)
qed

theorem payment_life_witness:
  "\<exists>w s r. sample_run 1 (empty_world, empty_redis) (w, s) \<and> r \<in> set (txns w) \<and>
     map (\<lambda>e. (tr_from e, tr_to e)) (filter (\<lambda>e. tr_payment_id e = PaymentID r) (transitions w)) =
       [(''VALIDATED'', ''CAPTURED'')]"
proof -
  obtain w' s r where run: "sample_run 1 (empty_world, empty_redis) (w', s)"
    and r: "txns w' = [r]" "State r = StateCaptured"
    by (rule sample_captured [OF zero_less_one]) (rule that, assumption+)
  then have r: "r \<in> set (txns w')" "State r = StateCaptured" by simp_all
  from payment_life [OF run r(1)] r(2) have
    "map (\<lambda>e. (tr_from e, tr_to e)) (filter (\<lambda>e. tr_payment_id e = PaymentID r) (transitions w')) =
       [(''VALIDATED'', ''CAPTURED'')]"
    by (auto simp: StateCaptured_def)
  with run r(1) show ?thesis by (intro exI conjI)
qed

theorem records_are_kept_witness:
  "\<exists>w s w'. sample_run 2 (empty_world, empty_redis) (w, s) \<and> sample_run 2 (w, s) (w', s) \<and>
     length (batches w') = 2 \<and> length (ledger w) = 2 \<and> take 2 (ledger w') = ledger w"
proof -
  obtain w s r where w: "sample_run 2 (empty_world, empty_redis) (w, s)" "length (ledger w) = 2" "txns w = [r]"
    "PaymentID r = ''p''" "State r = StateCaptured" "AccountID r = ''acct''"
    "Amount r = \<lparr>MinorUnits = 2500, Currency = ''USD''\<rparr>" "CreatedAt r = 5000" "batches w = []" "script w = []"
    using sample_captured [of 2] by (metis zero_less_numeral)
  obtain w' where w': "sample_run 2 (w, s) (w', s)" "batches w' = [sample_settled 6000, sample_settled 8000]"
    by (rule sample_settled_twice [OF w(3-10)])
  have "take 2 (ledger w') = ledger w" using records_are_kept [OF w(1) w'(1)] w(2) by simp
  with w(1,2) w' show ?thesis by (intro exI [of _ w] exI [of _ s] exI [of _ w']) simp
qed

theorem batches_match_payments_witness:
  "\<exists>w s e w'. sample_run 1 (empty_world, empty_redis) (w, s) \<and>
     settle sample_codec (AggregateCaptured sample_pg) (PersistBatch sample_pg 9) (sample_draw 0 6000) 0 6000 w =
       (e, w') \<and>
     sum_list (map (\<lambda>b. sint (bt_TotalMinor b))
       (filter (\<lambda>b. bt_AccountID b = ''acct'' \<and> bt_Currency b = ''USD'') (batches w'))) =
     sum_list (map (\<lambda>r. sint (MinorUnits (Amount r)))
       (filter (\<lambda>r. AccountID r = ''acct'' \<and> Currency (Amount r) = ''USD'' \<and> State r = StateSettled) (txns w')))"
proof -
  obtain w s where run: "sample_run 1 (empty_world, empty_redis) (w, s)"
    by (rule sample_captured [OF zero_less_one]) (rule that, assumption)
  obtain e w' where settled: "settle sample_codec (AggregateCaptured sample_pg) (PersistBatch sample_pg 9)
      (sample_draw 0 6000) 0 6000 w = (e, w')" by (rule prod.exhaust)
  have "pipeline_run sample_codec sample_pg memory_redis 300 (w, s) (w', s)"
    by (rule pipeline_run.stepped [OF pipeline_run.halted pipeline_step.window_settled [OF settled]])
  then have after: "sample_run 1 (empty_world, empty_redis) (w', s)"
    using interleaved_trans [OF run] run_interleaves by fastforce
  from run settled batches_match_payments [OF after order_refl sample_canonical, of "''acct''" "''USD''"] show ?thesis
    by (intro exI conjI)
qed


end
